(* ===== verification/PEP_Prelude.thy ===== *)
theory PEP_Prelude
  imports Main "HOL-Library.Word"
begin

text \<open>
  Shared vocabulary of the development: the Go machine types the sources use, the part of
  Go's semantics that several components need (byte order, strings as byte sequences,
  zero-filled copies, run-time panics, the ordering of wrapping counters), a generic notion
  of reachable state with its invariant rule, and the fact collections the component
  theories fill.
\<close>

unbundle bit_operations_syntax

named_theorems packet_types \<open>the numeric values of the packet type constants\<close>
named_theorems wire_simps \<open>bit-level facts about header fields\<close>
named_theorems session_defs \<open>operations of a session, to be unfolded together\<close>

section \<open>Machine types\<close>

type_synonym u8 = "8 word"
type_synonym u16 = "16 word"
type_synonym u32 = "32 word"
type_synonym u64 = "64 word"

type_synonym bytes = "u8 list"

text \<open>
  A Go slice can be nil, and \<^verbatim>\<open>session.go\<close> tells a missing shard from an empty one by that
  test. Where the source compares a slice with nil it is modelled as an option.
\<close>

type_synonym slice = "bytes option"

abbreviation slice_len :: "slice \<Rightarrow> nat" where
  "slice_len s \<equiv> (case s of None \<Rightarrow> 0 | Some b \<Rightarrow> length b)"

abbreviation slice_bytes :: "slice \<Rightarrow> bytes" where
  "slice_bytes s \<equiv> (case s of None \<Rightarrow> [] | Some b \<Rightarrow> b)"

text \<open>A Go run-time panic ends the program; operations that can raise one return a sum.\<close>

datatype go_panic = IndexOutOfRange | MakeSliceLen | SliceBounds

text \<open>An operation that can also return an error value has both kinds of failure.\<close>

datatype 'e go_failure = Panic go_panic | Err 'e

section \<open>Strings are byte sequences\<close>

definition bytes_of :: "string \<Rightarrow> bytes" where
  "bytes_of s = map (\<lambda>c. of_nat (of_char c)) s"

definition string_of :: "bytes \<Rightarrow> string" where
  "string_of b = map (\<lambda>x. char_of (unat x)) b"

lemma length_bytes_of [simp]: "length (bytes_of s) = length s"
  by (simp add: bytes_of_def)

lemma length_string_of [simp]: "length (string_of b) = length b"
  by (simp add: string_of_def)

lemma string_of_bytes_of [simp]: "string_of (bytes_of s) = s"
  by (simp add: string_of_def bytes_of_def comp_def unat_of_nat map_idI)

lemma bytes_of_string_of [simp]: "bytes_of (string_of b) = b"
proof -
  have "unat x < 2 ^ LENGTH(8)" for x :: u8
    by (rule unsigned_less)
  then have "unat x mod 256 = unat x" for x :: u8
    by simp
  then show ?thesis
    by (simp add: string_of_def bytes_of_def comp_def map_idI)
qed

section \<open>Big-endian 16-bit integers\<close>

definition PutUint16 :: "u16 \<Rightarrow> bytes" where
  "PutUint16 v = [ucast (drop_bit 8 v), ucast v]"

definition Uint16 :: "u8 \<Rightarrow> u8 \<Rightarrow> u16" where
  "Uint16 hi lo = push_bit 8 (ucast hi) OR ucast lo"

lemma length_PutUint16 [simp]: "length (PutUint16 v) = 2"
  by (simp add: PutUint16_def)

lemma Uint16_PutUint16 [simp]: "Uint16 (ucast (drop_bit 8 v)) (ucast v) = v"
  unfolding Uint16_def
  by (rule bit_word_eqI) (auto simp: bit_simps)

lemma bit_u8_beyond [simp]: "\<not> bit (x :: u8) (8 + n)"
  using bit_imp_le_length [of x "8 + n"] by auto

lemma PutUint16_Uint16 [simp]: "PutUint16 (Uint16 hi lo) = [hi, lo]"
  unfolding PutUint16_def Uint16_def
  by (auto intro!: bit_word_eqI simp: bit_simps)

section \<open>Bits of small words\<close>

lemma take_bit_small: "unat w < 2 ^ n \<Longrightarrow> take_bit n w = (w :: 'a::len word)"
  by (simp add: word_unat_eq_iff unsigned_take_bit_eq take_bit_nat_eq_self)

lemma unat_less_exp_if_take_bit:
  assumes "take_bit n w = (w :: 'a::len word)"
  shows "unat w < 2 ^ n"
proof -
  have "take_bit n (unat w) = unat (take_bit n w)"
    by (rule unsigned_take_bit_eq [symmetric])
  also have "\<dots> = unat w"
    by (simp only: assms)
  finally show ?thesis
    by (simp only: take_bit_nat_eq_self_iff)
qed

lemma bit_small: "unat w < 2 ^ n \<Longrightarrow> bit (w :: 'a::len word) i \<Longrightarrow> i < n"
  using take_bit_small [of w n] by (metis bit_take_bit_iff)

lemma and_masks:
  "(x :: 'a::len word) AND 0x07 = take_bit 3 x"
  "(x :: 'a::len word) AND 0x0F = take_bit 4 x"
  "(x :: 'a::len word) AND 0x1F = take_bit 5 x"
  "(x :: 'a::len word) AND 0xFF = take_bit 8 x"
  by (simp_all add: take_bit_eq_mask mask_eq_exp_minus_1)

lemma unat_u8_less [simp]: "unat (x :: u8) < 256"
  using unsigned_less [of x] by simp

lemma unat_u16_less [simp]: "unat (x :: u16) < 65536"
  using unsigned_less [of x] by simp

section \<open>Decimal numbers\<close>

text \<open>The verb \<^verbatim>\<open>%d\<close> of \<^verbatim>\<open>fmt\<close> and \<^verbatim>\<open>strconv.Itoa\<close>.\<close>

definition dec_digit :: "nat \<Rightarrow> char" where
  "dec_digit d = char_of (48 + d)"

fun nat_dec :: "nat \<Rightarrow> string" where
  "nat_dec n = (if n < 10 then [dec_digit n] else nat_dec (n div 10) @ [dec_digit (n mod 10)])"

declare nat_dec.simps [simp del]

definition Itoa :: "int \<Rightarrow> string" where
  "Itoa i = (if i < 0 then CHR ''-'' # nat_dec (nat (- i)) else nat_dec (nat i))"

definition is_digit :: "char \<Rightarrow> bool" where
  "is_digit c \<longleftrightarrow> 48 \<le> (of_char c :: nat) \<and> (of_char c :: nat) \<le> 57"

definition digit_val :: "char \<Rightarrow> nat" where
  "digit_val c = of_char c - 48"

definition dec_val :: "string \<Rightarrow> nat" where
  "dec_val s = foldl (\<lambda>a c. a * 10 + digit_val c) 0 s"

lemma digit_val_dec_digit [simp]: "d < 10 \<Longrightarrow> digit_val (dec_digit d) = d"
  by (simp add: digit_val_def dec_digit_def)

lemma is_digit_dec_digit [simp]: "d < 10 \<Longrightarrow> is_digit (dec_digit d)"
  by (simp add: is_digit_def dec_digit_def)

lemma dec_val_nat_dec [simp]: "dec_val (nat_dec n) = n"
proof (induction n rule: nat_dec.induct)
  case (1 n)
  then show ?case
    by (cases "n < 10") (simp_all add: nat_dec.simps [of n] dec_val_def)
qed

lemma nat_dec_digits: "c \<in> set (nat_dec n) \<Longrightarrow> is_digit c"
proof (induction n rule: nat_dec.induct)
  case (1 n)
  then show ?case
    by (cases "n < 10") (auto simp: nat_dec.simps [of n])
qed

lemma nat_dec_nonempty: "nat_dec n \<noteq> []"
  by (subst nat_dec.simps) simp

lemma nat_dec_inj: "nat_dec m = nat_dec n \<Longrightarrow> m = n"
  using dec_val_nat_dec by metis

lemma Itoa_inj: "Itoa i = Itoa j \<Longrightarrow> i = j"
proof -
  have minus: "CHR ''-'' \<notin> set (nat_dec n)" for n
    using nat_dec_digits [of "CHR ''-''" n] by (auto simp: is_digit_def)
  have no: "nat_dec m \<noteq> CHR ''-'' # t" for m t
    using minus [of m] by auto
  assume "Itoa i = Itoa j"
  then show ?thesis
    using no by (auto simp: Itoa_def no [symmetric] dest!: nat_dec_inj split: if_splits)
qed

lemma comma_notin_Itoa: "CHR '','' \<notin> set (Itoa i)"
  using nat_dec_digits [of "CHR '',''"] by (auto simp: Itoa_def is_digit_def)

section \<open>Reachable states\<close>

text \<open>
  Concurrent parts of the program are step relations; a run is a sequence of atomic steps
  from an initial state, in any interleaving.
\<close>

inductive reach :: "('s \<Rightarrow> bool) \<Rightarrow> ('s \<Rightarrow> 's \<Rightarrow> bool) \<Rightarrow> 's \<Rightarrow> bool"
  for init :: "'s \<Rightarrow> bool" and step :: "'s \<Rightarrow> 's \<Rightarrow> bool" where
  reach_init: "init s \<Longrightarrow> reach init step s"
| reach_step: "reach init step s \<Longrightarrow> step s t \<Longrightarrow> reach init step t"

text \<open>The interface between a machine and a property its steps keep.\<close>

locale invariant_of =
  fixes init :: "'s \<Rightarrow> bool"
    and step :: "'s \<Rightarrow> 's \<Rightarrow> bool"
    and inv :: "'s \<Rightarrow> bool"
  assumes inv_init: "init s \<Longrightarrow> inv s"
    and inv_step: "inv s \<Longrightarrow> step s t \<Longrightarrow> inv t"
begin

lemma reach_inv: "reach init step s \<Longrightarrow> inv s"
  by (induction rule: reach.induct) (auto intro: inv_init inv_step)

lemma steps_inv: "step\<^sup>*\<^sup>* s t \<Longrightarrow> inv s \<Longrightarrow> inv t"
  by (induction rule: rtranclp_induct) (auto intro: inv_step)

end

end
