(* ===== verification/Protocol.thy ===== *)
theory Protocol
  imports PEP_Prelude
begin

text \<open>
  The wire format of \<^verbatim>\<open>protocol/header.go\<close>: packet types, the unified \<^verbatim>\<open>Packet\<close> structure,
  \<^verbatim>\<open>Marshal\<close> and \<^verbatim>\<open>Unmarshal\<close>. \<open>wire_view\<close> says what of a packet the wire carries; the
  lemmas show that decoding an encoded packet gives exactly that view, that every decoded
  packet can be encoded again, and which packets are rejected.
\<close>

section \<open>Packet types\<close>

type_synonym PacketType = u8

definition TypeConnect :: PacketType where [packet_types]: "TypeConnect = 0x0"
definition TypeConnAck :: PacketType where [packet_types]: "TypeConnAck = 0x1"
definition TypeConnErr :: PacketType where [packet_types]: "TypeConnErr = 0x2"
definition TypeData :: PacketType where [packet_types]: "TypeData = 0x3"
definition TypeClose :: PacketType where [packet_types]: "TypeClose = 0x4"
definition TypeReset :: PacketType where [packet_types]: "TypeReset = 0x5"
definition TypeNak :: PacketType where [packet_types]: "TypeNak = 0x6"
definition TypeLqr :: PacketType where [packet_types]: "TypeLqr = 0x7"

lemma packet_types_distinct [simplified, simp]:
  "distinct [TypeConnect, TypeConnAck, TypeConnErr, TypeData, TypeClose, TypeReset, TypeNak,
     TypeLqr]"
  "distinct [TypeLqr, TypeNak, TypeReset, TypeClose, TypeData, TypeConnErr, TypeConnAck,
     TypeConnect]"
  by (simp_all add: packet_types)

text \<open>The verb \<^verbatim>\<open>%x\<close> of \<^verbatim>\<open>fmt\<close> on a byte: lower-case hexadecimal without leading zeros.\<close>

definition hex_digit :: "nat \<Rightarrow> char" where
  "hex_digit d = ''0123456789abcdef'' ! d"

definition hex_byte :: "u8 \<Rightarrow> string" where
  "hex_byte b = (let n = unat b in
     if n < 16 then [hex_digit n] else [hex_digit (n div 16), hex_digit (n mod 16)])"

definition PacketType_String :: "PacketType \<Rightarrow> string" where
  "PacketType_String t =
     (if t = TypeConnect then ''CONNECT''
      else if t = TypeConnAck then ''CONN_ACK''
      else if t = TypeConnErr then ''CONN_ERR''
      else if t = TypeData then ''DATA''
      else if t = TypeClose then ''CLOSE''
      else if t = TypeReset then ''RESET''
      else if t = TypeNak then ''NAK''
      else if t = TypeLqr then ''LQR''
      else ''UNKNOWN(0x'' @ hex_byte t @ '')'')"

section \<open>Packets\<close>

record Packet =
  pType :: PacketType
  pStreamID :: u16
  pAddr :: string
  pSeqNum :: u8
  pGroupID :: u16
  pIdx :: u8
  pIsParity :: bool
  pPayload :: slice
  pLosses :: u8

text \<open>The Go zero value; composite literals set fields on top of it.\<close>

definition zero_packet :: Packet where
  "zero_packet = \<lparr>pType = 0, pStreamID = 0, pAddr = [], pSeqNum = 0, pGroupID = 0, pIdx = 0,
     pIsParity = False, pPayload = None, pLosses = 0\<rparr>"

datatype marshal_error =
    StreamIDExceeds u16
  | AddrTooLong
  | MarshalUnknownType PacketType

datatype unmarshal_error =
    ShortBaseHeader
  | ShortLengthField PacketType
  | ShortAddrPayload PacketType
  | ShortData
  | ShortNak
  | ShortLqr
  | UnmarshalUnknownType PacketType

definition base0 :: "Packet \<Rightarrow> u8" where
  "base0 p = push_bit 4 (pType p) OR ucast (drop_bit 8 (pStreamID p))"

definition base1 :: "Packet \<Rightarrow> u8" where
  "base1 p = ucast (pStreamID p AND 0xFF)"

definition Marshal :: "Packet \<Rightarrow> marshal_error + bytes" where
  "Marshal p =
     (if pStreamID p > 0x0FFF then Inl (StreamIDExceeds (pStreamID p))
      else if pType p = TypeConnect \<or> pType p = TypeConnErr then
        (let addrBytes = bytes_of (pAddr p) in
         if length addrBytes > 255 then Inl AddrTooLong
         else Inr ([base0 p, base1 p, of_nat (length addrBytes)] @ addrBytes))
      else if pType p = TypeConnAck \<or> pType p = TypeClose \<or> pType p = TypeReset then
        Inr [base0 p, base1 p]
      else if pType p = TypeData then
        (let tVal = (if pIsParity p then 2 else 1) in
         Inr ([base0 p, base1 p, pSeqNum p] @ PutUint16 (pGroupID p)
              @ [push_bit 3 (pIdx p) OR (tVal AND 0x07)] @ slice_bytes (pPayload p)))
      else if pType p = TypeNak then
        Inr [base0 p, base1 p, pSeqNum p]
      else if pType p = TypeLqr then
        Inr ([base0 p, base1 p] @ PutUint16 (pGroupID p) @ [pLosses p, 0])
      else Inl (MarshalUnknownType (pType p)))"

definition Unmarshal :: "bytes \<Rightarrow> unmarshal_error + Packet" where
  "Unmarshal buf =
     (if length buf < 2 then Inl ShortBaseHeader
      else
        let t = drop_bit 4 (buf ! 0);
            streamID = push_bit 8 (ucast (buf ! 0 AND 0x0F)) OR ucast (buf ! 1);
            p = zero_packet\<lparr>pType := t, pStreamID := streamID\<rparr>
        in
        if t = TypeConnect \<or> t = TypeConnErr then
          (if length buf < 3 then Inl (ShortLengthField t)
           else let len = unat (buf ! 2) in
             if length buf < 3 + len then Inl (ShortAddrPayload t)
             else Inr (p\<lparr>pAddr := string_of (take len (drop 3 buf))\<rparr>))
        else if t = TypeConnAck \<or> t = TypeClose \<or> t = TypeReset then Inr p
        else if t = TypeData then
          (if length buf < 6 then Inl ShortData
           else Inr (p\<lparr>pSeqNum := buf ! 2,
                       pGroupID := Uint16 (buf ! 3) (buf ! 4),
                       pIdx := drop_bit 3 (buf ! 5),
                       pIsParity := (buf ! 5 AND 0x07 = 2),
                       pPayload := Some (drop 6 buf)\<rparr>))
        else if t = TypeNak then
          (if length buf < 3 then Inl ShortNak else Inr (p\<lparr>pSeqNum := buf ! 2\<rparr>))
        else if t = TypeLqr then
          (if length buf < 6 then Inl ShortLqr
           else Inr (p\<lparr>pGroupID := Uint16 (buf ! 2) (buf ! 3), pLosses := buf ! 4\<rparr>))
        else Inl (UnmarshalUnknownType t))"

section \<open>What the wire carries\<close>

text \<open>
  The fields of a packet that survive a transmission: those its type has on the wire, the
  shard index reduced to five bits, and a payload that is never nil on arrival.
\<close>

definition wire_view :: "Packet \<Rightarrow> Packet" where
  "wire_view p =
     (let q = zero_packet\<lparr>pType := pType p, pStreamID := pStreamID p\<rparr> in
      if pType p = TypeConnect \<or> pType p = TypeConnErr then q\<lparr>pAddr := pAddr p\<rparr>
      else if pType p = TypeData then
        q\<lparr>pSeqNum := pSeqNum p, pGroupID := pGroupID p, pIdx := pIdx p AND 0x1F,
          pIsParity := pIsParity p, pPayload := Some (slice_bytes (pPayload p))\<rparr>
      else if pType p = TypeNak then q\<lparr>pSeqNum := pSeqNum p\<rparr>
      else if pType p = TypeLqr then q\<lparr>pGroupID := pGroupID p, pLosses := pLosses p\<rparr>
      else q)"

text \<open>A packet the format can represent without loss.\<close>

definition canonical :: "Packet \<Rightarrow> bool" where
  "canonical p \<longleftrightarrow> wire_view p = p \<and> pStreamID p \<le> 0x0FFF \<and> pType p \<le> TypeLqr
     \<and> (pType p = TypeConnect \<or> pType p = TypeConnErr \<longrightarrow> length (pAddr p) \<le> 255)"

section \<open>Header fields, bit by bit\<close>

lemma stream_bits: "\<not> 0x0FFF < s \<Longrightarrow> bit (s :: u16) n \<Longrightarrow> n < 12"
  by (rule bit_small [of s]) (simp_all add: word_less_nat_alt)

lemma header_type:
  "unat (pType p) < 16 \<Longrightarrow> \<not> 0x0FFF < pStreamID p \<Longrightarrow> drop_bit 4 (base0 p) = pType p"
  unfolding base0_def
  by (rule bit_word_eqI)
    (auto simp: bit_simps dest: stream_bits bit_small [where n = 4, simplified])

lemma header_stream:
  "\<not> 0x0FFF < pStreamID p \<Longrightarrow>
   push_bit 8 (ucast (base0 p AND 0x0F)) OR ucast (base1 p) = pStreamID p"
  unfolding base0_def base1_def
  by (rule bit_word_eqI) (auto simp: and_masks bit_simps dest: stream_bits)

lemma header_idx [wire_simps]: "drop_bit 3 (push_bit 3 (i :: u8) OR (t AND 0x07)) = i AND 0x1F"
  by (rule bit_word_eqI) (auto simp: and_masks bit_simps)

lemma header_idx_shift [wire_simps]: "drop_bit 3 (push_bit 3 (i :: u8)) = i AND 0x1F"
  by (rule bit_word_eqI) (auto simp: and_masks bit_simps)

lemma header_tval [wire_simps]: "(push_bit 3 (i :: u8) OR (t AND 0x07)) AND 0x07 = t AND 0x07"
  by (rule bit_word_eqI) (auto simp: and_masks bit_simps)

lemma type_bits: "unat (drop_bit 4 (x :: u8)) < 16"
proof -
  have "unat (drop_bit 4 x) = unat x div 16"
    using unat_u8_less [of x]
    by (simp add: unsigned_drop_bit_eq take_bit_nat_eq_self) (simp add: drop_bit_eq_div)
  then show ?thesis
    using unat_u8_less [of x] by linarith
qed

lemma stream_field_bound:
  "\<not> 0x0FFF < (push_bit 8 (ucast (x AND 0x0F)) OR ucast y :: u16)" for x y :: u8
proof -
  let ?s = "push_bit 8 (ucast (x AND 0x0F)) OR ucast y :: u16"
  have "take_bit 12 ?s = ?s"
    by (rule bit_word_eqI) (auto simp: and_masks bit_simps dest: bit_imp_le_length)
  then have "unat ?s < 2 ^ 12"
    by (rule unat_less_exp_if_take_bit)
  then show ?thesis
    by (simp add: word_less_nat_alt)
qed

lemma idx_field_bound: "drop_bit 3 (x :: u8) AND 0x1F = drop_bit 3 x"
  by (rule bit_word_eqI) (auto simp: and_masks bit_simps dest: bit_imp_le_length)

lemma idx_small: "i < 32 \<Longrightarrow> (i :: u8) AND 0x1F = i"
  unfolding and_masks by (rule take_bit_small) (simp add: word_less_nat_alt)

lemma Marshal_type_small: "Marshal p = Inr b \<Longrightarrow> unat (pType p) < 16"
  by (auto simp: Marshal_def Let_def packet_types split: if_splits)

section \<open>Decoding what was encoded\<close>

lemma Marshal_cases:
  assumes "Marshal p = Inr b"
  obtains
    (Connect) "pType p = TypeConnect \<or> pType p = TypeConnErr"
  | (Bare) "pType p = TypeConnAck \<or> pType p = TypeClose \<or> pType p = TypeReset"
  | (Data) "pType p = TypeData"
  | (Nak) "pType p = TypeNak"
  | (Lqr) "pType p = TypeLqr"
  using assms by (auto simp: Marshal_def Let_def split: if_splits)

lemma Unmarshal_Marshal: "Marshal p = Inr b \<Longrightarrow> Unmarshal b = Inr (wire_view p)"
proof -
  assume m: "Marshal p = Inr b"
  have s: "\<not> 0x0FFF < pStreamID p"
    using m by (auto simp: Marshal_def split: if_splits)
  note t = header_type [OF Marshal_type_small [OF m] s] and st = header_stream [OF s]
  note un = Unmarshal_def wire_view_def Let_def packet_types t st wire_simps
  from m show ?thesis
  proof (cases rule: Marshal_cases)
    case Connect
    with m s have len: "length (pAddr p) \<le> 255"
      and b: "b = [base0 p, base1 p, of_nat (length (pAddr p))] @ bytes_of (pAddr p)"
      by (auto simp: Marshal_def Let_def split: if_splits)
    from len have "unat (of_nat (length (pAddr p)) :: u8) = length (pAddr p)"
      by (simp add: unat_of_nat)
    with Connect show ?thesis
      unfolding b by (auto simp: un)
  next
    case Bare
    with m s have b: "b = [base0 p, base1 p]"
      by (auto simp: Marshal_def packet_types)
    from Bare show ?thesis
      unfolding b by (auto simp: un)
  next
    case Data
    with m s have b: "b = [base0 p, base1 p, pSeqNum p] @ PutUint16 (pGroupID p)
        @ [push_bit 3 (pIdx p) OR ((if pIsParity p then 2 else 1) AND 0x07)]
        @ slice_bytes (pPayload p)"
      by (simp add: Marshal_def packet_types Let_def)
    from Data show ?thesis
      unfolding b PutUint16_def by (simp add: un)
  next
    case Nak
    with m s have b: "b = [base0 p, base1 p, pSeqNum p]"
      by (simp add: Marshal_def packet_types)
    from Nak show ?thesis
      unfolding b by (simp add: un)
  next
    case Lqr
    with m s have b: "b = [base0 p, base1 p] @ PutUint16 (pGroupID p) @ [pLosses p, 0]"
      by (simp add: Marshal_def packet_types)
    from Lqr show ?thesis
      unfolding b PutUint16_def by (simp add: un)
  qed
qed

section \<open>What decoding yields\<close>

lemma Unmarshal_stream: "Unmarshal b = Inr p \<Longrightarrow> \<not> 0x0FFF < pStreamID p"
  using stream_field_bound [of "b ! 0" "b ! 1"]
  by (auto simp: Unmarshal_def Let_def split: if_splits)

lemma Unmarshal_type: "Unmarshal b = Inr p \<Longrightarrow> pType p \<le> TypeLqr"
  by (auto simp: Unmarshal_def Let_def packet_types zero_packet_def split: if_splits)

lemma Unmarshal_addr: "Unmarshal b = Inr p \<Longrightarrow> length (pAddr p) \<le> 255"
  using unat_u8_less [of "b ! 2"] unfolding less_Suc_eq_le [of _ 255, simplified]
  by (auto simp: Unmarshal_def Let_def zero_packet_def split: if_splits)

lemma Unmarshal_view: "Unmarshal b = Inr p \<Longrightarrow> wire_view p = p"
  by (auto simp: Unmarshal_def Let_def wire_view_def zero_packet_def idx_field_bound
      split: if_splits)

lemma Unmarshal_canonical: "Unmarshal b = Inr p \<Longrightarrow> canonical p"
  using Unmarshal_stream [of b p] Unmarshal_type Unmarshal_addr Unmarshal_view
  by (auto simp: canonical_def not_less)

section \<open>Which packets can be encoded\<close>

lemma type_values:
  assumes "pType p \<le> TypeLqr"
  shows "pType p \<in> {TypeConnect, TypeConnAck, TypeConnErr, TypeData, TypeClose, TypeReset,
     TypeNak, TypeLqr}"
proof -
  have "unat (pType p) \<le> 7"
    using assms by (simp add: packet_types word_le_nat_alt)
  then have "unat (pType p) \<in> {0, 1, 2, 3, 4, 5, 6, 7}"
    by auto
  then show ?thesis
    by (auto simp: packet_types word_unat_eq_iff)
qed

definition encodable :: "Packet \<Rightarrow> bool" where
  "encodable p \<longleftrightarrow> pStreamID p \<le> 0x0FFF \<and> pType p \<le> TypeLqr
     \<and> (pType p = TypeConnect \<or> pType p = TypeConnErr \<longrightarrow> length (pAddr p) \<le> 255)"

lemma Marshal_ok_iff: "(\<exists>b. Marshal p = Inr b) \<longleftrightarrow> encodable p"
proof
  assume "\<exists>b. Marshal p = Inr b"
  then show "encodable p"
    by (auto simp: Marshal_def encodable_def Let_def packet_types split: if_splits)
next
  assume e: "encodable p"
  then show "\<exists>b. Marshal p = Inr b"
    using type_values [of p] by (auto simp: Marshal_def encodable_def Let_def packet_types)
qed

lemma length_Marshal_Data:
  assumes "Marshal p = Inr b" and "pType p = TypeData"
  shows "length b = 6 + slice_len (pPayload p)"
  using assms
  by (auto simp: Marshal_def Let_def packet_types split: if_splits option.splits)

section \<open>The codec contract\<close>

text \<open>
  What the sessions rely on: decoding an encoded value gives its view, well-formed values
  are encodable and equal to their view, and decoding yields well-formed values only.
\<close>

locale wire_codec =
  fixes enc :: "'p \<Rightarrow> 'e + bytes"
    and dec :: "bytes \<Rightarrow> 'f + 'p"
    and view :: "'p \<Rightarrow> 'p"
    and ok :: "'p \<Rightarrow> bool"
  assumes dec_enc: "enc p = Inr b \<Longrightarrow> dec b = Inr (view p)"
    and enc_ok: "ok p \<Longrightarrow> \<exists>b. enc p = Inr b"
    and ok_view: "ok p \<Longrightarrow> view p = p"
    and dec_ok: "dec b = Inr p \<Longrightarrow> ok p"
begin

lemma roundtrip: "ok p \<Longrightarrow> \<exists>b. enc p = Inr b \<and> dec b = Inr p"
  using enc_ok dec_enc ok_view by fastforce

lemma reencode: "dec b = Inr p \<Longrightarrow> \<exists>b'. enc p = Inr b' \<and> dec b' = Inr p"
  using dec_ok roundtrip by blast

lemma enc_inj: "ok p \<Longrightarrow> ok q \<Longrightarrow> enc p = enc q \<Longrightarrow> p = q"
  using roundtrip [of p] roundtrip [of q] by auto

lemma view_idem: "enc p = Inr b \<Longrightarrow> view (view p) = view p"
  using dec_enc dec_ok ok_view by blast

end

interpretation wire: wire_codec Marshal Unmarshal wire_view canonical
proof unfold_locales
  fix p b
  show "Marshal p = Inr b \<Longrightarrow> Unmarshal b = Inr (wire_view p)"
    by (rule Unmarshal_Marshal)
  show "canonical p \<Longrightarrow> \<exists>b. Marshal p = Inr b"
    by (simp add: Marshal_ok_iff canonical_def encodable_def)
  show "canonical p \<Longrightarrow> wire_view p = p"
    by (simp add: canonical_def)
  show "Unmarshal b = Inr p \<Longrightarrow> canonical p"
    by (rule Unmarshal_canonical)
qed

section \<open>Properties of the wire format\<close>

text \<open>
  C19: decoding the bytes of an encoded packet succeeds and gives the packet's wire view:
  type and stream for every packet, the address for CONNECT and CONN_ERR, the sequence
  number, group, five-bit index, parity flag and payload for DATA, and so on.
\<close>
theorem unmarshal_of_marshal: "Marshal p = Inr b \<Longrightarrow> Unmarshal b = Inr (wire_view p)"
  by (rule wire.dec_enc)

definition sample_data :: Packet where
  "sample_data = zero_packet\<lparr>pType := TypeData, pStreamID := 0x123, pSeqNum := 7, pGroupID := 0x0102,
     pIdx := 9, pIsParity := True, pPayload := Some [0xAA, 0xBB]\<rparr>"

lemma sample_data_bytes:
  "Marshal sample_data = Inr [0x31, 0x23, 7, 1, 2, 0x4A, 0xAA, 0xBB]"
  by code_simp

theorem unmarshal_of_marshal_witness:
  "Unmarshal [0x31, 0x23, 7, 1, 2, 0x4A, 0xAA, 0xBB] = Inr (wire_view sample_data)"
  by (rule unmarshal_of_marshal [OF sample_data_bytes])

text \<open>
  C20: encoding fails exactly for a stream identifier above twelve bits, an unknown packet
  type, or an address of more than 255 bytes in a CONNECT or CONN_ERR packet.
\<close>
theorem marshal_accepts: "(\<exists>b. Marshal p = Inr b) \<longleftrightarrow> encodable p"
  by (rule Marshal_ok_iff)

text \<open>
  The index field has five bits and is not checked: indices that differ by 32 give the same
  bytes.
\<close>

lemma marshal_idx_alias:
  "Marshal (sample_data\<lparr>pIdx := 32\<rparr>) = Marshal (sample_data\<lparr>pIdx := 0\<rparr>)"
  by code_simp

end
