(* ===== verification/Shaper.thy ===== *)
theory Shaper
  imports PEP_Prelude "HOL-Library.Sublist"
begin

text \<open>
  The token-bucket shaper of \<^verbatim>\<open>shaper/shaper.go\<close>: its record, its locked operations, and the
  \<^verbatim>\<open>Run\<close> loop cut at the points where it holds no lock, so that other goroutines may act in
  between. The lemmas show that nothing is lost, duplicated or reordered on the way from
  \<^verbatim>\<open>Enqueue\<close> to \<^verbatim>\<open>sendFn\<close>, and that bursts respect the configured size and interval.
\<close>

section \<open>State and locked operations\<close>

record Shaper =
  burstSize :: int
  burstInterval :: int  \<comment> \<open>a \<^verbatim>\<open>time.Duration\<close>, in nanoseconds\<close>
  queue :: "bytes list"
  stopped :: bool

definition NewShaper :: "int \<Rightarrow> int \<Rightarrow> Shaper" where
  "NewShaper bsz interval =
     \<lparr>burstSize = bsz, burstInterval = interval, queue = [], stopped = False\<rparr>"

definition UpdateParams :: "int \<Rightarrow> int \<Rightarrow> Shaper \<Rightarrow> Shaper" where
  "UpdateParams bsz interval s = s\<lparr>burstSize := bsz, burstInterval := interval\<rparr>"

definition Enqueue :: "bytes \<Rightarrow> Shaper \<Rightarrow> Shaper" where
  "Enqueue packet s = (if stopped s then s else s\<lparr>queue := queue s @ [packet]\<rparr>)"

definition EnqueueMany :: "bytes list \<Rightarrow> Shaper \<Rightarrow> Shaper" where
  "EnqueueMany packets s = (if stopped s then s else s\<lparr>queue := queue s @ packets\<rparr>)"

definition Stop :: "Shaper \<Rightarrow> Shaper" where
  "Stop s = s\<lparr>stopped := True\<rparr>"

definition QueueLen :: "Shaper \<Rightarrow> nat" where
  "QueueLen s = length (queue s)"

lemmas shaper_op_defs = NewShaper_def UpdateParams_def Enqueue_def EnqueueMany_def Stop_def
  QueueLen_def

section \<open>The queue contract\<close>

text \<open>
  What a session relies on when it hands packets over: the contents grow at the end while
  the queue is open, a closed queue accepts nothing, and closing drops nothing.
\<close>

locale packet_queue =
  fixes contents :: "'q \<Rightarrow> bytes list"
    and closed :: "'q \<Rightarrow> bool"
    and enq :: "bytes \<Rightarrow> 'q \<Rightarrow> 'q"
    and enq_many :: "bytes list \<Rightarrow> 'q \<Rightarrow> 'q"
    and stop :: "'q \<Rightarrow> 'q"
  assumes contents_enq: "contents (enq p q) = (if closed q then contents q else contents q @ [p])"
    and contents_enq_many:
      "contents (enq_many ps q) = (if closed q then contents q else contents q @ ps)"
    and closed_enq: "closed (enq p q) = closed q"
    and closed_enq_many: "closed (enq_many ps q) = closed q"
    and contents_stop: "contents (stop q) = contents q"
    and closed_stop: "closed (stop q)"
begin

lemma closed_fold: "closed (fold enq ps q) = closed q"
  by (induction ps arbitrary: q) (simp_all add: closed_enq)

lemma fold_enq_many: "contents (fold enq ps q) = contents (enq_many ps q)"
proof (induction ps arbitrary: q)
  case Nil
  show ?case by (simp add: contents_enq_many)
next
  case (Cons p ps)
  then show ?case by (simp add: contents_enq_many contents_enq closed_enq)
qed

lemma enq_many_append:
  "contents (enq_many (ps @ qs) q) = contents (enq_many qs (enq_many ps q))"
  by (simp add: contents_enq_many closed_enq_many)

lemma enq_after_stop: "contents (enq p (stop q)) = contents q"
  by (simp add: contents_enq closed_stop contents_stop)

lemma contents_prefix: "prefix (contents q) (contents (enq_many ps q))"
  by (simp add: contents_enq_many)

end

interpretation shq: packet_queue queue stopped Enqueue EnqueueMany Stop
  by unfold_locales (simp_all add: shaper_op_defs)

section \<open>The run loop\<close>

text \<open>
  Control points of \<^verbatim>\<open>Run\<close>: at the top of the loop, after the parameters were read, asleep
  until the next burst opportunity, before the fetch, before
  the next opportunity is scheduled, sending the packets of a burst, and
  the two ways to end. Times are nanoseconds since the zero \<^verbatim>\<open>time.Time\<close>, which is the
  initial \<^verbatim>\<open>nextReset\<close>.
\<close>

datatype run_pc =
    Top
  | Chosen int int
  | Sleep int int
  | Fetch int int
  | Schedule int "bytes list"
  | Sending "bytes list"
  | Returned
  | Panicked go_panic

definition run_top :: "Shaper \<Rightarrow> bool \<Rightarrow> run_pc" where
  "run_top s ctxErr =
     (if queue s = [] \<and> \<not> stopped s \<and> \<not> ctxErr then Top
      else if stopped s \<or> ctxErr then Returned
      else Chosen (burstSize s) (burstInterval s))"

definition run_drain :: "Shaper \<Rightarrow> Shaper \<times> run_pc" where
  "run_drain s = (s\<lparr>queue := []\<rparr>, Sending (queue s))"

definition run_pace :: "int \<Rightarrow> int \<Rightarrow> int \<Rightarrow> int \<Rightarrow> run_pc" where
  "run_pace now nextReset bsz interval =
     (if now < nextReset then Sleep bsz interval else Fetch bsz interval)"

definition run_fetch :: "int \<Rightarrow> int \<Rightarrow> Shaper \<Rightarrow> Shaper \<times> run_pc" where
  "run_fetch bsz interval s =
     (let n = (if int (length (queue s)) > bsz then bsz else int (length (queue s))) in
      if n = 0 then (s, Top)
      else if n < 0 then (s, Panicked MakeSliceLen)
      else (s\<lparr>queue := drop (nat n) (queue s)\<rparr>, Schedule interval (take (nat n) (queue s))))"

text \<open>
  The whole system: the shaper, the control point and \<^verbatim>\<open>nextReset\<close> of its loop, the clock and
  the state of the context, and three records of the history: what was accepted, what was
  handed to \<^verbatim>\<open>sendFn\<close>, and the paced bursts as (time it was scheduled, size read, interval
  read, packets fetched); \<open>fetched\<close> is the size the last fetch worked with.
\<close>

record shaper_sys =
  shaper :: Shaper
  pc :: run_pc
  nextReset :: int
  clock :: int
  cancelled :: bool
  accepted :: "bytes list"
  sent :: "bytes list"
  fetched :: int
  bursts :: "(int \<times> int \<times> int \<times> nat) list"

definition shaper_start :: "int \<Rightarrow> int \<Rightarrow> int \<Rightarrow> shaper_sys" where
  "shaper_start bsz interval now =
     \<lparr>shaper = NewShaper bsz interval, pc = Top, nextReset = 0, clock = now, cancelled = False,
      accepted = [], sent = [], fetched = 0, bursts = []\<rparr>"

inductive shaper_step :: "shaper_sys \<Rightarrow> shaper_sys \<Rightarrow> bool" where
  enqueue: "shaper_step s (s\<lparr>shaper := EnqueueMany ps (shaper s),
     accepted := accepted s @ (if stopped (shaper s) then [] else ps)\<rparr>)"
| enqueue_one: "shaper_step s (s\<lparr>shaper := Enqueue p (shaper s),
     accepted := accepted s @ (if stopped (shaper s) then [] else [p])\<rparr>)"
| update: "shaper_step s (s\<lparr>shaper := UpdateParams bsz interval (shaper s)\<rparr>)"
| stop: "shaper_step s (s\<lparr>shaper := Stop (shaper s)\<rparr>)"
| cancel: "shaper_step s (s\<lparr>cancelled := True\<rparr>)"
| tick: "clock s \<le> now \<Longrightarrow> shaper_step s (s\<lparr>clock := now\<rparr>)"
| top: "pc s = Top \<Longrightarrow> shaper_step s (s\<lparr>pc := run_top (shaper s) (cancelled s)\<rparr>)"
| drain: "pc s = Chosen bsz interval \<Longrightarrow> interval \<le> 0 \<Longrightarrow> run_drain (shaper s) = (sh, pc') \<Longrightarrow>
     shaper_step s (s\<lparr>shaper := sh, pc := pc'\<rparr>)"
| pace: "pc s = Chosen bsz interval \<Longrightarrow> 0 < interval \<Longrightarrow>
     shaper_step s (s\<lparr>pc := run_pace (clock s) (nextReset s) bsz interval\<rparr>)"
| sleep_done: "pc s = Sleep bsz interval \<Longrightarrow> nextReset s \<le> clock s \<Longrightarrow>
     shaper_step s (s\<lparr>pc := Fetch bsz interval\<rparr>)"
| sleep_cancelled: "pc s = Sleep bsz interval \<Longrightarrow> cancelled s \<Longrightarrow>
     shaper_step s (s\<lparr>pc := Returned\<rparr>)"
| fetch: "pc s = Fetch bsz interval \<Longrightarrow> run_fetch bsz interval (shaper s) = (sh, pc') \<Longrightarrow>
     shaper_step s (s\<lparr>shaper := sh, pc := pc', fetched := bsz\<rparr>)"
| schedule: "pc s = Schedule interval ps \<Longrightarrow>
     shaper_step s (s\<lparr>nextReset := clock s + interval, pc := Sending ps,
       bursts := bursts s @ [(clock s, fetched s, interval, length ps)]\<rparr>)"
| send: "pc s = Sending (p # ps) \<Longrightarrow> \<not> cancelled s \<Longrightarrow>
     shaper_step s (s\<lparr>pc := Sending ps, sent := sent s @ [p]\<rparr>)"
| send_cancelled: "pc s = Sending (p # ps) \<Longrightarrow> cancelled s \<Longrightarrow>
     shaper_step s (s\<lparr>pc := Returned\<rparr>)"
| send_done: "pc s = Sending [] \<Longrightarrow> shaper_step s (s\<lparr>pc := Top\<rparr>)"

section \<open>Order and completeness of delivery\<close>

fun inhand :: "run_pc \<Rightarrow> bytes list" where
  "inhand (Sending ps) = ps"
| "inhand (Schedule _ ps) = ps"
| "inhand _ = []"

text \<open>
  Everything accepted is, in this order, already sent, in the hands of the loop, or still
  queued. Only a loop that has returned may have dropped the burst it was sending.
\<close>

definition fifo_inv :: "shaper_sys \<Rightarrow> bool" where
  "fifo_inv s \<longleftrightarrow> (\<exists>held. accepted s = sent s @ held @ queue (shaper s)
     \<and> (pc s \<noteq> Returned \<longrightarrow> held = inhand (pc s)))"

lemma fifo_inv_start: "fifo_inv (shaper_start bsz interval now)"
  by (simp add: fifo_inv_def shaper_start_def NewShaper_def)

lemma fifo_inv_step: "shaper_step s t \<Longrightarrow> fifo_inv s \<Longrightarrow> fifo_inv t"
  by (induction rule: shaper_step.induct)
    (auto simp: fifo_inv_def shaper_op_defs run_top_def run_drain_def run_pace_def run_fetch_def
      Let_def split: if_splits)

section \<open>Pacing\<close>

definition burst_end :: "int \<times> int \<times> int \<times> nat \<Rightarrow> int" where
  "burst_end b = (case b of (t, bsz, interval, n) \<Rightarrow> t + interval)"

definition burst_ok :: "int \<times> int \<times> int \<times> nat \<Rightarrow> bool" where
  "burst_ok b = (case b of (t, bsz, interval, n) \<Rightarrow> 0 < interval \<and> 0 < n \<and> int n \<le> bsz)"

fun pace_pc :: "shaper_sys \<Rightarrow> run_pc \<Rightarrow> bool" where
  "pace_pc s (Sleep _ interval) = (0 < interval)"
| "pace_pc s (Fetch _ interval) = (0 < interval \<and> nextReset s \<le> clock s)"
| "pace_pc s (Schedule interval ps) =
     (0 < interval \<and> nextReset s \<le> clock s \<and> 0 < length ps \<and> int (length ps) \<le> fetched s)"
| "pace_pc s _ = True"

definition pace_inv :: "shaper_sys \<Rightarrow> bool" where
  "pace_inv s \<longleftrightarrow> list_all burst_ok (bursts s)
     \<and> successively (\<lambda>b b'. burst_end b \<le> fst b') (bursts s)
     \<and> (bursts s \<noteq> [] \<longrightarrow> nextReset s = burst_end (last (bursts s)))
     \<and> pace_pc s (pc s)"

lemma pace_inv_start: "pace_inv (shaper_start bsz interval now)"
  by (simp add: pace_inv_def shaper_start_def)

lemma pace_inv_schedule:
  assumes "pace_inv s" and "pc s = Schedule interval ps"
  shows "pace_inv (s\<lparr>nextReset := clock s + interval, pc := Sending ps,
     bursts := bursts s @ [(clock s, fetched s, interval, length ps)]\<rparr>)"
  using assms
  by (auto simp: pace_inv_def burst_end_def burst_ok_def successively_append_iff)

lemma pace_inv_step: "shaper_step s t \<Longrightarrow> pace_inv s \<Longrightarrow> pace_inv t"
proof (induction rule: shaper_step.induct)
  case (schedule s interval ps)
  then show ?case by (simp add: pace_inv_schedule)
next
  case (fetch s bsz interval sh pc')
  then show ?case
    by (auto simp: pace_inv_def run_fetch_def Let_def split: if_splits)
next
  case (tick s now)
  then show ?case by (cases "pc s") (auto simp: pace_inv_def)
qed (auto simp: pace_inv_def shaper_op_defs run_top_def run_drain_def run_pace_def
      elim!: pace_pc.elims)

interpretation fifo: invariant_of "\<lambda>s. \<exists>bsz interval now. s = shaper_start bsz interval now"
    shaper_step fifo_inv
  by unfold_locales (auto intro: fifo_inv_start fifo_inv_step)

interpretation pace: invariant_of "\<lambda>s. \<exists>bsz interval now. s = shaper_start bsz interval now"
    shaper_step pace_inv
  by unfold_locales (auto intro: pace_inv_start pace_inv_step)

text \<open>Intervals add up between any two bursts.\<close>

definition burst_gap :: "(int \<times> int \<times> int \<times> nat) list \<Rightarrow> nat \<Rightarrow> nat \<Rightarrow> int" where
  "burst_gap bs i j = (\<Sum>l\<leftarrow>[i..<j]. fst (snd (snd (bs ! l))))"

lemma successively_gap:
  assumes "successively (\<lambda>b b'. burst_end b \<le> fst b') bs" and "i \<le> j" and "j < length bs"
  shows "fst (bs ! i) + burst_gap bs i j \<le> fst (bs ! j)"
  using assms(2,3)
proof (induction j)
  case (Suc j)
  show ?case
  proof (cases "i = Suc j")
    case False
    with Suc have "fst (bs ! i) + burst_gap bs i j \<le> fst (bs ! j)" and "i \<le> j" by simp_all
    moreover have "burst_end (bs ! j) \<le> fst (bs ! Suc j)"
      using assms(1) Suc.prems(2) by (auto simp: successively_conv_nth)
    moreover have "burst_gap bs i (Suc j) = burst_gap bs i j + fst (snd (snd (bs ! j)))"
      using \<open>i \<le> j\<close> by (simp add: burst_gap_def)
    ultimately show ?thesis
      by (simp add: burst_end_def split: prod.splits)
  qed (simp add: burst_gap_def)
qed (simp add: burst_gap_def)

section \<open>Burst sizes and panics\<close>

text \<open>Runs in which no one sets a negative burst size.\<close>

definition sane_step :: "shaper_sys \<Rightarrow> shaper_sys \<Rightarrow> bool" where
  "sane_step s t \<longleftrightarrow> shaper_step s t \<and> 0 \<le> burstSize (shaper t)"

fun sane_pc :: "run_pc \<Rightarrow> bool" where
  "sane_pc (Chosen bsz _) = (0 \<le> bsz)"
| "sane_pc (Sleep bsz _) = (0 \<le> bsz)"
| "sane_pc (Fetch bsz _) = (0 \<le> bsz)"
| "sane_pc (Panicked _) = False"
| "sane_pc _ = True"

definition sane_inv :: "shaper_sys \<Rightarrow> bool" where
  "sane_inv s \<longleftrightarrow> 0 \<le> burstSize (shaper s) \<and> sane_pc (pc s)"

lemma sane_pc_step: "shaper_step s t \<Longrightarrow> sane_inv s \<Longrightarrow> sane_pc (pc t)"
  by (induction rule: shaper_step.induct)
    (auto simp: sane_inv_def run_top_def run_drain_def run_pace_def run_fetch_def Let_def
      split: if_splits)

interpretation sane: invariant_of
    "\<lambda>s. \<exists>bsz interval now. 0 \<le> bsz \<and> s = shaper_start bsz interval now" sane_step sane_inv
proof unfold_locales
  fix s assume "\<exists>bsz interval now. 0 \<le> bsz \<and> s = shaper_start bsz interval now"
  then show "sane_inv s"
    by (auto simp: sane_inv_def shaper_start_def NewShaper_def)
next
  fix s t assume "sane_inv s" and "sane_step s t"
  then show "sane_inv t"
    using sane_pc_step by (auto simp: sane_step_def sane_inv_def)
qed

text \<open>A fetch with a positive burst size makes progress on a non-empty queue.\<close>

lemma run_fetch_progress:
  assumes "0 < bsz" and "queue s \<noteq> []"
  obtains n where "run_fetch bsz interval s =
      (s\<lparr>queue := drop n (queue s)\<rparr>, Schedule interval (take n (queue s)))"
    and "0 < n" and "n \<le> length (queue s)" and "int n \<le> bsz"
proof
  let ?n = "nat (min bsz (int (length (queue s))))"
  show "run_fetch bsz interval s =
      (s\<lparr>queue := drop ?n (queue s)\<rparr>, Schedule interval (take ?n (queue s)))"
    using assms by (auto simp: run_fetch_def Let_def min_def)
  show "0 < ?n" "?n \<le> length (queue s)" "int ?n \<le> bsz"
    using assms by simp_all
qed

text \<open>With burst size zero the loop never takes anything and never sleeps.\<close>

lemma run_fetch_zero: "run_fetch 0 interval s = (s, Top)"
  by (simp add: run_fetch_def)

section \<open>Properties of the shaper\<close>

text \<open>A run that sends three packets in two bursts, used to instantiate the properties.\<close>

definition sample_sys :: "bytes list \<Rightarrow> run_pc \<Rightarrow> int \<Rightarrow> int \<Rightarrow> bytes list \<Rightarrow> int \<Rightarrow> (int \<times> int \<times> int \<times> nat) list
    \<Rightarrow> shaper_sys" where
  "sample_sys q p next ck out fet bs =
     \<lparr>shaper = \<lparr>burstSize = 2, burstInterval = 5, queue = q, stopped = False\<rparr>, pc = p, nextReset = next,
      clock = ck, cancelled = False, accepted = [[1], [2], [3]], sent = out, fetched = fet, bursts = bs\<rparr>"

lemma sample_run_sane:
  "reach (\<lambda>s. \<exists>bsz interval now. 0 \<le> bsz \<and> s = shaper_start bsz interval now) sane_step
     (sample_sys [] (Sending [[3]]) 110 105 [[1], [2]] 2 [(100, 2, 5, 2), (105, 2, 5, 1)])"
proof -
  let ?R = "reach (\<lambda>s. \<exists>bsz interval now. 0 \<le> bsz \<and> s = shaper_start bsz interval now) sane_step"
  let ?S = sample_sys
  have step: "?R t" if "?R s" "shaper_step s t" "0 \<le> burstSize (shaper t)" for s t
    using that by (auto simp: sane_step_def intro: reach_step)
  note defs = sample_sys_def run_top_def run_pace_def run_fetch_def numeral_2_eq_2
  have "?R (shaper_start 2 5 100)"
    by (rule reach_init) (intro exI [of _ 2] exI [of _ 5] exI [of _ 100], simp)
  from step [OF this shaper_step.enqueue [of _ "[[1], [2], [3]]"]]
  have "?R (?S [[1], [2], [3]] Top 0 100 [] 0 [])"
    by (simp add: defs shaper_start_def shaper_op_defs)
  from step [OF this shaper_step.top] have "?R (?S [[1], [2], [3]] (Chosen 2 5) 0 100 [] 0 [])"
    by (simp add: defs)
  from step [OF this shaper_step.pace [where bsz = 2 and interval = 5]]
  have "?R (?S [[1], [2], [3]] (Fetch 2 5) 0 100 [] 0 [])" by (simp add: defs)
  from step [OF this shaper_step.fetch [OF _ surjective_pairing, where bsz = 2 and interval = 5]]
  have "?R (?S [[3]] (Schedule 5 [[1], [2]]) 0 100 [] 2 [])" by (simp add: defs)
  from step [OF this shaper_step.schedule [where interval = 5 and ps = "[[1], [2]]"]]
  have "?R (?S [[3]] (Sending [[1], [2]]) 105 100 [] 2 [(100, 2, 5, 2)])" by (simp add: defs)
  from step [OF this shaper_step.send [where p = "[1]" and ps = "[[2]]"]]
  have "?R (?S [[3]] (Sending [[2]]) 105 100 [[1]] 2 [(100, 2, 5, 2)])" by (simp add: defs)
  from step [OF this shaper_step.send [where p = "[2]" and ps = "[]"]]
  have "?R (?S [[3]] (Sending []) 105 100 [[1], [2]] 2 [(100, 2, 5, 2)])" by (simp add: defs)
  from step [OF this shaper_step.send_done]
  have "?R (?S [[3]] Top 105 100 [[1], [2]] 2 [(100, 2, 5, 2)])" by (simp add: defs)
  from step [OF this shaper_step.top]
  have "?R (?S [[3]] (Chosen 2 5) 105 100 [[1], [2]] 2 [(100, 2, 5, 2)])" by (simp add: defs)
  from step [OF this shaper_step.pace [where bsz = 2 and interval = 5]]
  have "?R (?S [[3]] (Sleep 2 5) 105 100 [[1], [2]] 2 [(100, 2, 5, 2)])" by (simp add: defs)
  from step [OF this shaper_step.tick [where now = 105]]
  have "?R (?S [[3]] (Sleep 2 5) 105 105 [[1], [2]] 2 [(100, 2, 5, 2)])" by (simp add: defs)
  from step [OF this shaper_step.sleep_done [where bsz = 2 and interval = 5]]
  have "?R (?S [[3]] (Fetch 2 5) 105 105 [[1], [2]] 2 [(100, 2, 5, 2)])" by (simp add: defs)
  from step [OF this shaper_step.fetch [OF _ surjective_pairing, where bsz = 2 and interval = 5]]
  have "?R (?S [] (Schedule 5 [[3]]) 105 105 [[1], [2]] 2 [(100, 2, 5, 2)])" by (simp add: defs)
  from step [OF this shaper_step.schedule [where interval = 5 and ps = "[[3]]"]]
  show "?R (?S [] (Sending [[3]]) 110 105 [[1], [2]] 2 [(100, 2, 5, 2), (105, 2, 5, 1)])"
    by (simp add: defs)
qed

lemma sane_is_run:
  "reach (\<lambda>s. \<exists>bsz interval now. 0 \<le> bsz \<and> s = shaper_start bsz interval now) sane_step s \<Longrightarrow>
     reach (\<lambda>s. \<exists>bsz interval now. s = shaper_start bsz interval now) shaper_step s"
proof (induction rule: reach.induct)
  case (reach_init s)
  then show ?case by (auto intro: reach.reach_init)
next
  case (reach_step s t)
  then show ?case by (auto simp: sane_step_def intro: reach.reach_step)
qed

text \<open>
  C28: the shaper neither loses, duplicates nor reorders: while its loop runs, the packets
  accepted by the queue are exactly those sent, then those of the burst in hand, then those
  still queued; and at any time what was sent is a prefix of what was accepted.
\<close>
theorem shaper_fifo:
  assumes "reach (\<lambda>s. \<exists>bsz interval now. s = shaper_start bsz interval now) shaper_step s"
  shows "(pc s \<noteq> Returned \<longrightarrow> accepted s = sent s @ inhand (pc s) @ queue (shaper s))
     \<and> prefix (sent s) (accepted s)"
  using fifo.reach_inv [OF assms] by (auto simp: fifo_inv_def)

theorem shaper_fifo_witness:
  "prefix [[1], [2]] (accepted (sample_sys [] (Sending [[3]]) 110 105 [[1], [2]] 2
     [(100, 2, 5, 2), (105, 2, 5, 1)]))"
  using shaper_fifo [OF sane_is_run, OF sample_run_sane] by (simp add: sample_sys_def)

text \<open>
  C29: bursts are paced: between any two bursts lie at least the intervals of the earlier one
  and of all those in between, and no burst exceeds the burst size it was fetched with.
\<close>
theorem bursts_are_paced:
  assumes "reach (\<lambda>s. \<exists>bsz interval now. s = shaper_start bsz interval now) shaper_step s"
    and "i \<le> j" and "j < length (bursts s)"
  shows "fst (bursts s ! i) + burst_gap (bursts s) i j \<le> fst (bursts s ! j) \<and> burst_ok (bursts s ! j)"
proof -
  have "pace_inv s" by (rule pace.reach_inv [OF assms(1)])
  with assms(2,3) show ?thesis
    by (simp add: pace_inv_def list_all_length successively_gap)
qed

theorem bursts_are_paced_witness:
  "(100 :: int) + burst_gap [(100, 2, 5, 2), (105, 2, 5, 1)] 0 1 \<le> 105 \<and> burst_ok (105, 2, 5, 1)"
  using bursts_are_paced [OF sane_is_run, OF sample_run_sane, of 0 1] by (simp add: sample_sys_def)

text \<open>
  The loop never panics as long as nobody sets a negative burst size.
\<close>
lemma shaper_never_panics:
  assumes "reach (\<lambda>s. \<exists>bsz interval now. 0 \<le> bsz \<and> s = shaper_start bsz interval now) sane_step s"
  shows "pc s \<noteq> Panicked e"
  using sane.reach_inv [OF assms] by (auto simp: sane_inv_def)

end
