(* ===== verification/FEC.thy ===== *)
theory FEC
  imports PEP_Prelude
begin

text \<open>
  The erasure coder of \<^verbatim>\<open>fec/fec.go\<close>. The Reed-Solomon library it calls is a third-party
  package and appears as a parameter, a record of its three entry points; \<open>rs_code\<close> states
  what its documentation promises. The lemmas show that the encoder cache returns what the
  library would, what \<^verbatim>\<open>Encode\<close> computes, and that any \<open>k\<close> of the \<open>k + m\<close> shards give back
  the data.
\<close>

section \<open>The Reed-Solomon package, as a parameter\<close>

text \<open>
  \<^verbatim>\<open>reedsolomon.New\<close>, \<^verbatim>\<open>Encoder.Encode\<close> and \<^verbatim>\<open>Encoder.Reconstruct\<close>. The last two update the
  slice of shards in place; here they return its new contents.
\<close>

record ('enc, 'e) reedsolomon =
  rs_New :: "int \<Rightarrow> int \<Rightarrow> 'e + 'enc"
  rs_Encode :: "'enc \<Rightarrow> bytes list \<Rightarrow> 'e + bytes list"
  rs_Reconstruct :: "'enc \<Rightarrow> slice list \<Rightarrow> 'e + slice list"

definition uniform :: "nat \<Rightarrow> bytes list \<Rightarrow> bool" where
  "uniform len ds \<longleftrightarrow> list_all (\<lambda>d. length d = len) ds"

definition present :: "slice list \<Rightarrow> nat" where
  "present ss = length (filter (\<lambda>s. s \<noteq> None) ss)"

text \<open>Shards that are either missing or those of the given code word.\<close>

definition erased_from :: "bytes list \<Rightarrow> slice list \<Rightarrow> bool" where
  "erased_from cw ss \<longleftrightarrow> list_all2 (\<lambda>c s. s = None \<or> s = Some c) cw ss"

text \<open>
  The documented behaviour for \<open>k\<close> data and \<open>m\<close> parity shards: a coder exists; encoding
  leaves the data shards alone and fills \<open>m\<close> parity shards of the same length; and
  reconstruction restores every shard when at least \<open>k\<close> of them are present.
\<close>

definition rs_code :: "('enc, 'e) reedsolomon \<Rightarrow> nat \<Rightarrow> nat \<Rightarrow> (bytes list \<Rightarrow> bytes list) \<Rightarrow> bool" where
  "rs_code rs k m parity \<longleftrightarrow> (\<exists>enc. rs_New rs (int k) (int m) = Inr enc \<and>
     (\<forall>len data. 0 < len \<longrightarrow> length data = k \<longrightarrow> uniform len data \<longrightarrow>
        length (parity data) = m \<and> uniform len (parity data)
        \<and> rs_Encode rs enc (data @ replicate m (replicate len 0)) = Inr (data @ parity data)
        \<and> (\<forall>ss. erased_from (data @ parity data) ss \<longrightarrow> k \<le> present ss \<longrightarrow>
             rs_Reconstruct rs enc ss = Inr (map Some (data @ parity data)))))"

section \<open>The coder and its cache\<close>

record 'enc FEC =
  encoders :: "string \<rightharpoonup> 'enc"

datatype 'e fec_error = RSError 'e | CannotReconstruct int

definition NewFEC :: "'enc FEC" where
  "NewFEC = \<lparr>encoders = Map.empty\<rparr>"

definition enc_key :: "int \<times> int \<Rightarrow> string" where
  "enc_key km = Itoa (fst km) @ '','' @ Itoa (snd km)"

definition getEncoder ::
  "('enc, 'e) reedsolomon \<Rightarrow> 'enc FEC \<Rightarrow> int \<Rightarrow> int \<Rightarrow> 'enc FEC \<times> ('e + 'enc)" where
  "getEncoder rs f k m =
     (let key = enc_key (k, m) in
      case encoders f key of
        Some enc \<Rightarrow> (f, Inr enc)
      | None \<Rightarrow> (case rs_New rs k m of
            Inl err \<Rightarrow> (f, Inl err)
          | Inr enc \<Rightarrow> (f\<lparr>encoders := (encoders f)(key \<mapsto> enc)\<rparr>, Inr enc)))"

fun max_len :: "bytes list \<Rightarrow> nat \<Rightarrow> nat" where
  "max_len [] acc = acc"
| "max_len (d # ds) acc = max_len ds (if length d > acc then length d else acc)"

text \<open>\<^verbatim>\<open>copy(make([]byte, n), d)\<close>: the bytes of \<open>d\<close> that fit, then zeros.\<close>

definition padded :: "nat \<Rightarrow> bytes \<Rightarrow> bytes" where
  "padded n d = take n d @ replicate (n - length d) 0"

definition data_shards :: "nat \<Rightarrow> nat \<Rightarrow> bytes list \<Rightarrow> bytes list" where
  "data_shards k len data = map (\<lambda>i. padded len (if i < length data then data ! i else [])) [0..<k]"

definition shard_len :: "bytes list \<Rightarrow> nat" where
  "shard_len data = (let n = max_len data 0 in if n = 0 then 1 else n)"

text \<open>
  The result pairs the coder, whose cache may have grown, with the parity shards or the
  failure. A nil element of \<open>data\<close> is copied as an empty one and needs no case of its own.
\<close>

definition Encode :: "('enc, 'e) reedsolomon \<Rightarrow> 'enc FEC \<Rightarrow> int \<Rightarrow> int \<Rightarrow> bytes list
    \<Rightarrow> 'enc FEC \<times> ('e fec_error go_failure + bytes list)" where
  "Encode rs f k m data =
     (if m \<le> 0 then (f, Inr [])
      else case getEncoder rs f k m of
        (f', Inl err) \<Rightarrow> (f', Inl (Err (RSError err)))
      | (f', Inr enc) \<Rightarrow>
          (let maxLen = shard_len data in
           if k + m < 0 then (f', Inl (Panic MakeSliceLen))
           else if k < 0 then (f', Inl (Panic IndexOutOfRange))
           else
             let shards = data_shards (nat k) maxLen data
                            @ replicate (nat m) (replicate maxLen 0)
             in case rs_Encode rs enc shards of
                  Inl err \<Rightarrow> (f', Inl (Err (RSError err)))
                | Inr shards' \<Rightarrow> (f', Inr (take (nat m) (drop (nat k) shards')))))"

definition Reconstruct :: "('enc, 'e) reedsolomon \<Rightarrow> 'enc FEC \<Rightarrow> int \<Rightarrow> int \<Rightarrow> slice list
    \<Rightarrow> 'enc FEC \<times> ('e fec_error + slice list)" where
  "Reconstruct rs f k m shards =
     (if m \<le> 0 then (f, Inl (CannotReconstruct m))
      else case getEncoder rs f k m of
        (f', Inl err) \<Rightarrow> (f', Inl (RSError err))
      | (f', Inr enc) \<Rightarrow>
          (case rs_Reconstruct rs enc shards of
             Inl err \<Rightarrow> (f', Inl (RSError err))
           | Inr shards' \<Rightarrow> (f', Inr shards')))"

section \<open>The cache returns what the library would\<close>

definition coherent :: "('k \<Rightarrow> 'key) \<Rightarrow> ('k \<Rightarrow> 'e + 'v) \<Rightarrow> ('key \<rightharpoonup> 'v) \<Rightarrow> bool" where
  "coherent key f c \<longleftrightarrow> (\<forall>k v. c (key k) = Some v \<longrightarrow> f k = Inr v)"

text \<open>A cache is sound when distinct requests never share a key.\<close>

locale keyed_cache =
  fixes key :: "'k \<Rightarrow> 'key"
  assumes key_inj: "key x = key y \<Longrightarrow> x = y"
begin

lemma coherent_empty: "coherent key f Map.empty"
  by (simp add: coherent_def)

lemma coherent_insert:
  "coherent key f c \<Longrightarrow> f k = Inr v \<Longrightarrow> coherent key f (c(key k \<mapsto> v))"
  by (auto simp: coherent_def dest: key_inj)

end

lemma enc_key_inj: "enc_key x = enc_key y \<Longrightarrow> x = y"
proof -
  assume "enc_key x = enc_key y"
  then have "Itoa (fst x) @ CHR '','' # Itoa (snd x) = Itoa (fst y) @ CHR '','' # Itoa (snd y)"
    by (simp add: enc_key_def)
  then have "Itoa (fst x) = Itoa (fst y) \<and> Itoa (snd x) = Itoa (snd y)"
    using comma_notin_Itoa by (auto simp: append_Cons_eq_iff)
  then show ?thesis
    by (auto dest: Itoa_inj simp: prod_eq_iff)
qed

interpretation enc_cache: keyed_cache enc_key
  by unfold_locales (rule enc_key_inj)

definition fec_inv :: "('enc, 'e) reedsolomon \<Rightarrow> 'enc FEC \<Rightarrow> bool" where
  "fec_inv rs f \<longleftrightarrow> coherent enc_key (\<lambda>(k, m). rs_New rs k m) (encoders f)"

lemma fec_inv_New [simp]: "fec_inv rs NewFEC"
  by (simp add: fec_inv_def NewFEC_def enc_cache.coherent_empty)

lemma getEncoder_correct:
  assumes "fec_inv rs f"
  shows "snd (getEncoder rs f k m) = rs_New rs k m"
    and "fec_inv rs (fst (getEncoder rs f k m))"
proof -
  show "snd (getEncoder rs f k m) = rs_New rs k m"
    using assms
    by (auto simp: getEncoder_def fec_inv_def coherent_def Let_def split: option.splits sum.splits)
  show "fec_inv rs (fst (getEncoder rs f k m))"
  proof (cases "encoders f (enc_key (k, m))")
    case None
    show ?thesis
    proof (cases "rs_New rs k m")
      case (Inr enc)
      then show ?thesis
        using None assms enc_cache.coherent_insert [of "\<lambda>(k, m). rs_New rs k m" "encoders f" "(k, m)"]
        by (simp add: getEncoder_def fec_inv_def Let_def)
    qed (use None assms in \<open>simp add: getEncoder_def Let_def\<close>)
  qed (use assms in \<open>simp add: getEncoder_def Let_def\<close>)
qed

section \<open>What encoding computes\<close>

lemma max_len_ge_acc: "acc \<le> max_len ds acc"
proof (induction ds arbitrary: acc)
  case (Cons d ds)
  show ?case
    using Cons.IH [of acc] Cons.IH [of "length d"] by simp
qed simp

lemma max_len_ge: "d \<in> set ds \<Longrightarrow> length d \<le> max_len ds acc"
proof (induction ds arbitrary: acc)
  case (Cons e ds)
  then show ?case
    using max_len_ge_acc [of "length d" ds] max_len_ge_acc [of acc ds] by auto
qed simp

lemma max_len_attained: "max_len ds acc = acc \<or> (\<exists>d \<in> set ds. max_len ds acc = length d)"
proof (induction ds arbitrary: acc)
  case (Cons d ds)
  show ?case
    using Cons.IH [of acc] Cons.IH [of "length d"] by auto
qed simp

lemma shard_len_pos [simp]: "0 < shard_len data"
  by (simp add: shard_len_def Let_def)

lemma length_le_shard_len: "d \<in> set data \<Longrightarrow> length d \<le> shard_len data"
  using max_len_ge [of d data 0] by (auto simp: shard_len_def Let_def)

lemma length_padded [simp]: "length (padded n d) = n"
  by (simp add: padded_def)

lemma padded_ge: "length d \<le> n \<Longrightarrow> padded n d = d @ replicate (n - length d) 0"
  by (simp add: padded_def)

lemma padded_id [simp]: "length d = n \<Longrightarrow> padded n d = d"
  by (simp add: padded_def)

lemma length_data_shards [simp]: "length (data_shards k n data) = k"
  by (simp add: data_shards_def)

lemma uniform_data_shards [simp]: "uniform n (data_shards k n data)"
  by (simp add: uniform_def data_shards_def list_all_iff)

lemma nth_data_shards:
  "i < k \<Longrightarrow> k \<le> length data \<Longrightarrow> data_shards k n data ! i = padded n (data ! i)"
  by (simp add: data_shards_def)

lemma fec_inv_Encode: "fec_inv rs f \<Longrightarrow> fec_inv rs (fst (Encode rs f k m data))"
  using getEncoder_correct(2) [of rs f k m]
  by (auto simp: Encode_def Let_def split: prod.splits sum.splits)

lemma fec_inv_Reconstruct: "fec_inv rs f \<Longrightarrow> fec_inv rs (fst (Reconstruct rs f k m ss))"
  using getEncoder_correct(2) [of rs f k m]
  by (auto simp: Reconstruct_def Let_def split: prod.splits sum.splits)

lemma rs_code_encoder:
  assumes "rs_code rs k m parity" and "fec_inv rs f"
  obtains f' enc where "getEncoder rs f (int k) (int m) = (f', Inr enc)"
    and "\<And>len data. 0 < len \<Longrightarrow> length data = k \<Longrightarrow> uniform len data \<Longrightarrow>
      rs_Encode rs enc (data @ replicate m (replicate len 0)) = Inr (data @ parity data)"
    and "\<And>len data ss. 0 < len \<Longrightarrow> length data = k \<Longrightarrow> uniform len data \<Longrightarrow>
      erased_from (data @ parity data) ss \<Longrightarrow> k \<le> present ss \<Longrightarrow>
      rs_Reconstruct rs enc ss = Inr (map Some (data @ parity data))"
proof -
  from assms(1) obtain enc where enc: "rs_New rs (int k) (int m) = Inr enc"
    and laws: "\<forall>len data. 0 < len \<longrightarrow> length data = k \<longrightarrow> uniform len data \<longrightarrow>
        length (parity data) = m \<and> uniform len (parity data)
        \<and> rs_Encode rs enc (data @ replicate m (replicate len 0)) = Inr (data @ parity data)
        \<and> (\<forall>ss. erased_from (data @ parity data) ss \<longrightarrow> k \<le> present ss \<longrightarrow>
             rs_Reconstruct rs enc ss = Inr (map Some (data @ parity data)))"
    unfolding rs_code_def by blast
  obtain f' r where g: "getEncoder rs f (int k) (int m) = (f', r)"
    by fastforce
  with getEncoder_correct(1) [OF assms(2), of "int k" "int m"] enc have "r = Inr enc"
    by simp
  with g that laws show thesis by blast
qed

lemma rs_code_parity:
  assumes "rs_code rs k m parity" and "0 < len" and "length data = k" and "uniform len data"
  shows "length (parity data) = m" and "uniform len (parity data)"
  using assms by (auto simp: rs_code_def)

lemma Encode_parity:
  assumes "rs_code rs k m parity" and "fec_inv rs f" and "0 < m"
  shows "snd (Encode rs f (int k) (int m) data) =
     Inr (parity (data_shards k (shard_len data) data))"
proof -
  let ?D = "data_shards k (shard_len data) data"
  obtain f' enc where g: "getEncoder rs f (int k) (int m) = (f', Inr enc)"
    and e: "rs_Encode rs enc (?D @ replicate m (replicate (shard_len data) 0)) = Inr (?D @ parity ?D)"
    using rs_code_encoder [OF assms(1,2)]
    by (metis shard_len_pos length_data_shards uniform_data_shards)
  have "length (parity ?D) = m"
    by (rule rs_code_parity [OF assms(1), where len = "shard_len data"]) simp_all
  with g e assms(3) show ?thesis
    by (simp add: Encode_def Let_def)
qed

lemma Reconstruct_recovers:
  assumes "rs_code rs k m parity" and "fec_inv rs f" and "0 < m"
    and "0 < len" and "length data = k" and "uniform len data"
    and "erased_from (data @ parity data) ss" and "k \<le> present ss"
  shows "snd (Reconstruct rs f (int k) (int m) ss) = Inr (map Some (data @ parity data))"
proof -
  obtain f' enc where g: "getEncoder rs f (int k) (int m) = (f', Inr enc)"
    and r: "rs_Reconstruct rs enc ss = Inr (map Some (data @ parity data))"
    using rs_code_encoder [OF assms(1,2)] assms(4-8) by metis
  with assms(3) show ?thesis
    by (simp add: Reconstruct_def)
qed

section \<open>The codes of a session\<close>

text \<open>
  The codes a session uses: for each parity count up to the configured maximum the library
  has a code, and the parity shards of the smaller ones are the first of the largest.
\<close>

definition rs_family :: "('enc, 'e) reedsolomon \<Rightarrow> nat \<Rightarrow> nat \<Rightarrow> (bytes list \<Rightarrow> bytes list) \<Rightarrow> bool" where
  "rs_family rs k mx parity \<longleftrightarrow>
     (\<forall>m. 0 < m \<longrightarrow> m \<le> mx \<longrightarrow> rs_code rs k m (\<lambda>data. take m (parity data)))"

definition block_parity :: "(bytes list \<Rightarrow> bytes list) \<Rightarrow> nat \<Rightarrow> nat \<Rightarrow> bytes list \<Rightarrow> bytes list" where
  "block_parity parity k m pd = take m (parity (data_shards k (shard_len pd) pd))"

lemma Encode_family:
  assumes "rs_family rs k mx parity" and "fec_inv rs f" and "m \<le> mx"
  shows "snd (Encode rs f (int k) (int m) pd) = Inr (block_parity parity k m pd)"
proof (cases "m = 0")
  case False
  with assms have "rs_code rs k m (\<lambda>data. take m (parity data))"
    by (simp add: rs_family_def)
  from Encode_parity [OF this assms(2)] False show ?thesis
    by (simp add: block_parity_def)
qed (simp add: Encode_def block_parity_def)

lemma length_block_parity:
  assumes "rs_family rs k mx parity" and "m \<le> mx"
  shows "length (block_parity parity k m pd) = m"
    and "x \<in> set (block_parity parity k m pd) \<Longrightarrow> length x = shard_len pd"
proof -
  let ?D = "data_shards k (shard_len pd) pd"
  have "length (block_parity parity k m pd) = m \<and> uniform (shard_len pd) (block_parity parity k m pd)"
  proof (cases "m = 0")
    case False
    with assms have c: "rs_code rs k m (\<lambda>data. take m (parity data))"
      by (simp add: rs_family_def)
    show ?thesis
      using rs_code_parity [OF c, of "shard_len pd" ?D] by (simp add: block_parity_def)
  qed (simp add: block_parity_def uniform_def)
  then show "length (block_parity parity k m pd) = m"
    and "x \<in> set (block_parity parity k m pd) \<Longrightarrow> length x = shard_len pd"
    by (auto simp: uniform_def list_all_iff)
qed

section \<open>A concrete code: two data shards and their exclusive or\<close>

definition xor_bytes :: "bytes \<Rightarrow> bytes \<Rightarrow> bytes" where
  "xor_bytes a b = map2 (XOR) a b"

fun xor_Reconstruct :: "slice list \<Rightarrow> unit + slice list" where
  "xor_Reconstruct [Some a, Some b, _] = Inr [Some a, Some b, Some (xor_bytes a b)]"
| "xor_Reconstruct [Some a, None, Some p] = Inr [Some a, Some (xor_bytes a p), Some p]"
| "xor_Reconstruct [None, Some b, Some p] = Inr [Some (xor_bytes b p), Some b, Some p]"
| "xor_Reconstruct _ = Inl ()"

definition xor_rs :: "(unit, unit) reedsolomon" where
  "xor_rs = \<lparr>rs_New = (\<lambda>k m. if k = 2 \<and> m = 1 then Inr () else Inl ()),
     rs_Encode = (\<lambda>_ ss. Inr [ss ! 0, ss ! 1, xor_bytes (ss ! 0) (ss ! 1)]),
     rs_Reconstruct = (\<lambda>_ ss. xor_Reconstruct ss)\<rparr>"

definition xor_parity :: "bytes list \<Rightarrow> bytes list" where
  "xor_parity data = [xor_bytes (data ! 0) (data ! 1)]"

lemma xor_bytes_cancel: "length a = length b \<Longrightarrow> xor_bytes a (xor_bytes a b) = b"
  by (induction a b rule: list_induct2) (simp_all add: xor_bytes_def flip: xor.assoc)

lemma xor_bytes_comm: "length a = length b \<Longrightarrow> xor_bytes a b = xor_bytes b a"
  by (induction a b rule: list_induct2) (simp_all add: xor_bytes_def xor.commute)

lemma length_xor_bytes: "length a = length b \<Longrightarrow> length (xor_bytes a b) = length b"
  by (simp add: xor_bytes_def)

lemma xor_rs_code: "rs_code xor_rs 2 1 xor_parity"
proof -
  have rec: "xor_Reconstruct ss = Inr (map Some (data @ xor_parity data))"
    if "length data = 2" and "uniform len data"
      and "erased_from (data @ xor_parity data) ss" and "2 \<le> present ss"
    for len :: nat and data :: "bytes list" and ss :: "slice list"
  proof -
    from that(1) obtain a b where d: "data = [a, b]"
      by (auto simp: numeral_2_eq_2 length_Suc_conv)
    with that(2) have len: "length a = length b"
      by (simp add: uniform_def)
    from that(3) d obtain x y z where ss: "ss = [x, y, z]"
      and x: "x = None \<or> x = Some a" and y: "y = None \<or> y = Some b"
      and z: "z = None \<or> z = Some (xor_bytes a b)"
      by (auto simp: erased_from_def xor_parity_def list_all2_Cons1)
    show ?thesis
      using x y z that(4) xor_bytes_cancel [OF len] xor_bytes_cancel [OF len [symmetric]]
        xor_bytes_comm [OF len]
      by (auto simp: ss d present_def xor_parity_def)
  qed
  show ?thesis
    unfolding rs_code_def
  proof (intro exI conjI allI impI)
    show "rs_New xor_rs (int 2) (int 1) = Inr ()"
      by (simp add: xor_rs_def)
    fix len :: nat and data :: "bytes list"
    assume u: "length data = 2" "uniform len data"
    then obtain a b where d: "data = [a, b]" and "length a = len" "length b = len"
      by (auto simp: uniform_def numeral_2_eq_2 length_Suc_conv)
    then show "length (xor_parity data) = 1" and "uniform len (xor_parity data)"
      by (simp_all add: xor_parity_def uniform_def length_xor_bytes)
    show "rs_Encode xor_rs () (data @ replicate 1 (replicate len 0)) =
        Inr (data @ xor_parity data)"
      by (simp add: d xor_rs_def xor_parity_def)
    fix ss
    assume "erased_from (data @ xor_parity data) ss" and "2 \<le> present ss"
    with u show "rs_Reconstruct xor_rs () ss = Inr (map Some (data @ xor_parity data))"
      using rec by (simp add: xor_rs_def)
  qed
qed

lemma xor_rs_family: "rs_family xor_rs 2 1 xor_parity"
  unfolding rs_family_def
proof (intro allI impI)
  fix m :: nat
  assume "0 < m" and "m \<le> 1"
  then have "m = 1" by simp
  moreover have "(\<lambda>data. take 1 (xor_parity data)) = xor_parity"
    by (simp add: fun_eq_iff xor_parity_def)
  ultimately show "rs_code xor_rs 2 m (\<lambda>data. take m (xor_parity data))"
    using xor_rs_code by (simp only:)
qed

section \<open>Properties of the coder\<close>

lemma Encode_inv_step:
  assumes "rs_code rs k m parity" and "fec_inv rs f" and "0 < m"
    and "Encode rs f (int k) (int m) data = (f', Inr ps)"
  shows "fec_inv rs f'" and "ps = parity (data_shards k (shard_len data) data)"
  using fec_inv_Encode [OF assms(2), of "int k" "int m" data] Encode_parity [OF assms(1-3), of data] assms(4)
  by simp_all

text \<open>
  C11: whatever \<open>k\<close> of the \<open>k + m\<close> shards survive, reconstruction with the coder that encoded
  them gives back all data shards, padded to the longest, and all parity shards.
\<close>
theorem any_k_shards_recover:
  assumes "rs_code rs k m parity" and "fec_inv rs f" and "0 < m"
    and "Encode rs f (int k) (int m) data = (f', Inr ps)"
    and "erased_from (data_shards k (shard_len data) data @ ps) ss" and "k \<le> present ss"
  shows "snd (Reconstruct rs f' (int k) (int m) ss)
     = Inr (map Some (data_shards k (shard_len data) data @ ps))"
  using Encode_inv_step [OF assms(1-4)] assms(5,6)
  by (simp add: Reconstruct_recovers [OF assms(1) _ assms(3) shard_len_pos length_data_shards uniform_data_shards])

theorem any_k_shards_recover_witness:
  "snd (Reconstruct xor_rs (fst (Encode xor_rs NewFEC 2 1 [[72, 105], [33]])) 2 1
     [None, Some [33, 0], Some [105, 105]]) = Inr [Some [72, 105], Some [33, 0], Some [105, 105]]"
proof -
  have "Encode xor_rs NewFEC 2 1 [[72, 105], [33]]
      = (fst (Encode xor_rs NewFEC 2 1 [[72, 105], [33]]), Inr [[105, 105]])"
    using Encode_parity [OF xor_rs_code fec_inv_New, of "[[72, 105], [33]]"]
    by (cases "Encode xor_rs NewFEC 2 1 [[72, 105], [33]]")
      (simp add: shard_len_def xor_parity_def xor_bytes_def data_shards_def padded_def upt_rec numeral_2_eq_2)
  then show ?thesis
    using any_k_shards_recover [OF xor_rs_code fec_inv_New, of "[[72, 105], [33]]"
        "fst (Encode xor_rs NewFEC 2 1 [[72, 105], [33]])" "[[105, 105]]" "[None, Some [33, 0], Some [105, 105]]"]
    by (simp add: shard_len_def data_shards_def padded_def upt_rec numeral_2_eq_2 erased_from_def present_def)
qed

text \<open>Coders as the program uses them: created empty, then asked for encoders in any order.\<close>

definition fec_step :: "('enc, 'e) reedsolomon \<Rightarrow> 'enc FEC \<Rightarrow> 'enc FEC \<Rightarrow> bool" where
  "fec_step rs f f' \<longleftrightarrow> (\<exists>k m data ss. f' = fst (getEncoder rs f k m)
     \<or> f' = fst (Encode rs f k m data) \<or> f' = fst (Reconstruct rs f k m ss))"

interpretation cache: invariant_of "\<lambda>f. f = NewFEC" "fec_step rs" "fec_inv rs"
  for rs :: "('enc, 'e) reedsolomon"
  by unfold_locales
    (auto simp: fec_step_def intro: getEncoder_correct(2) fec_inv_Encode fec_inv_Reconstruct)

text \<open>
  C31: caching is invisible: after any sequence of uses, for any shard counts, the encoder
  obtained (or the error) is the one the library would construct afresh.
\<close>
theorem encoder_cache_transparent:
  assumes "reach (\<lambda>f. f = NewFEC) (fec_step rs) f"
  shows "snd (getEncoder rs f k m) = rs_New rs k m"
  by (rule getEncoder_correct(1) [OF cache.reach_inv [OF assms]])

theorem encoder_cache_transparent_witness:
  "snd (getEncoder xor_rs (fst (getEncoder xor_rs NewFEC 2 1)) 2 1) = Inr ()"
proof -
  have "reach (\<lambda>f. f = NewFEC) (fec_step xor_rs) (fst (getEncoder xor_rs NewFEC 2 1))"
    by (rule reach_step [OF reach_init]) (auto simp: fec_step_def)
  from encoder_cache_transparent [OF this, of 2 1] show ?thesis
    by (simp add: xor_rs_def)
qed

end
