(* ===== verification/Pacing.thy ===== *)
theory Pacing
  imports Complex_Main "HOL-Library.Log_Nat"
begin

text \<open>
  The time budget of a block, as \<^verbatim>\<open>proxy/session.go\<close> computes it from bandwidth, MTU and block
  size in \<^verbatim>\<open>float64\<close> arithmetic. A finite double is modelled by its rational value and every
  operation rounds its exact result to 53 bits, ties to even. The exponent range is left
  unbounded: the values at hand are far from overflow and from the subnormal range.
\<close>

section \<open>Rounding to 53 bits\<close>

text \<open>The exponent \<open>e\<close> of a positive rational: \<open>2\<^sup>e \<le> x < 2\<^sup>e\<^sup>+\<^sup>1\<close>.\<close>

definition pow2 :: "int \<Rightarrow> rat" where
  "pow2 e = (if 0 \<le> e then 2 ^ nat e else 1 / 2 ^ nat (- e))"

definition exponent :: "rat \<Rightarrow> int" where
  "exponent x = (let (p, q) = quotient_of x; e = bitlen p - bitlen q in
     if pow2 e \<le> x then e else e - 1)"

definition round_half_even :: "rat \<Rightarrow> int" where
  "round_half_even x = (let n = \<lfloor>x\<rfloor>; d = x - of_int n in
     if d < 1 / 2 then n else if d > 1 / 2 then n + 1 else if even n then n else n + 1)"

definition f64 :: "rat \<Rightarrow> rat" where
  "f64 x = (if x = 0 then 0
     else let u = pow2 (exponent \<bar>x\<bar> - 52) in sgn x * (of_int (round_half_even (\<bar>x\<bar> / u)) * u))"

definition fmul :: "rat \<Rightarrow> rat \<Rightarrow> rat" where
  "fmul a b = f64 (a * b)"

definition fdiv :: "rat \<Rightarrow> rat \<Rightarrow> rat" where
  "fdiv a b = f64 (a / b)"

definition of_go_int :: "int \<Rightarrow> rat" where
  "of_go_int i = f64 (of_int i)"

text \<open>Conversion to an integer type truncates towards zero.\<close>

definition trunc :: "rat \<Rightarrow> int" where
  "trunc x = (if x < 0 then \<lceil>x\<rceil> else \<lfloor>x\<rfloor>)"

section \<open>Durations\<close>

definition Millisecond :: int where
  "Millisecond = 1000000"

text \<open>\<^verbatim>\<open>LQRTimeoutDur\<close> as \<^verbatim>\<open>NewSession\<close> sets it.\<close>

definition lqr_timeout :: "int \<Rightarrow> int \<Rightarrow> int \<Rightarrow> int \<Rightarrow> int" where
  "lqr_timeout mtu bandwidth k m =
     (if bandwidth > 0 then
        let pktBits = of_go_int (mtu * 8);
            blockSec = fdiv (fmul (of_go_int (k + m)) pktBits) (of_go_int bandwidth);
            dur = trunc (fmul blockSec 1000) * Millisecond + 50 * Millisecond
        in if dur < 50 * Millisecond then 50 * Millisecond else dur
      else 50 * Millisecond)"

text \<open>The burst interval of \<^verbatim>\<open>NewSession\<close> and \<^verbatim>\<open>updateShaperParams\<close>, for \<open>n\<close> packets a burst.\<close>

definition burst_interval :: "int \<Rightarrow> int \<Rightarrow> int \<Rightarrow> int" where
  "burst_interval mtu bandwidth n =
     (if bandwidth > 0 then
        trunc (fmul (fdiv (fmul (fmul (of_go_int n) (of_go_int mtu)) 8) (of_go_int bandwidth)) 1000)
          * Millisecond
      else 0)"

lemma lqr_timeout_ge: "50 * Millisecond \<le> lqr_timeout mtu bandwidth k m"
  by (simp add: lqr_timeout_def Let_def)

section \<open>Rounding error\<close>

lemma pow2_powi: "pow2 e = 2 powi e"
  by (simp add: pow2_def power_int_def inverse_eq_divide power_divide)

lemma pow2_pos [simp]: "0 < pow2 e"
  by (simp add: pow2_powi zero_less_power_int)

lemma pow2_nonzero [simp]: "pow2 e \<noteq> 0"
  using pow2_pos [of e] by linarith

lemma pow2_less_iff: "pow2 a < pow2 b \<longleftrightarrow> a < b"
  unfolding pow2_powi
  using power_int_strict_increasing [of a b "2 :: rat"] power_int_increasing [of b a "2 :: rat"]
  by (meson leD leI one_le_numeral one_less_numeral_iff semiring_norm(76))

lemma pow2_add: "pow2 (a + b) = pow2 a * pow2 b"
  by (simp add: pow2_powi power_int_add)

lemma pow2_bitlen:
  assumes "0 < p"
  shows "pow2 (bitlen p - 1) \<le> of_int p" and "of_int p < pow2 (bitlen p)"
proof -
  have b: "0 < bitlen p"
    using assms by (simp add: bitlen_eq_zero_iff bitlen_nonneg le_neq_trans)
  have "2 ^ nat (bitlen p - 1) \<le> p \<and> p < 2 ^ nat (bitlen p)"
    using assms by (rule bitlen_bounds)
  then have "(of_int (2 ^ nat (bitlen p - 1)) :: rat) \<le> of_int p
      \<and> (of_int p :: rat) < of_int (2 ^ nat (bitlen p))"
    by (simp only: of_int_le_iff of_int_less_iff)
  with b show "pow2 (bitlen p - 1) \<le> of_int p" and "of_int p < pow2 (bitlen p)"
    by (simp_all add: pow2_def)
qed

lemma exponent_bounds:
  assumes "0 < x"
  shows "pow2 (exponent x) \<le> x" and "x < pow2 (exponent x + 1)"
proof -
  obtain p q where pq: "quotient_of x = (p, q)" by fastforce
  then have x: "x = of_int p / of_int q" and q: "0 < q"
    by (auto intro: quotient_of_div quotient_of_denom_pos)
  with assms have p: "0 < p"
    by (simp add: zero_less_divide_iff)
  let ?e = "bitlen p - bitlen q"
  note P = pow2_bitlen [OF p] and Q = pow2_bitlen [OF q]
  have "pow2 (?e - 1) * of_int q < pow2 (?e - 1) * pow2 (bitlen q)"
    using Q(2) by simp
  also have "\<dots> = pow2 (bitlen p - 1)"
    by (simp flip: pow2_add)
  also have "\<dots> \<le> of_int p" by (rule P(1))
  finally have lo: "pow2 (?e - 1) \<le> x"
    using q by (simp add: x field_simps)
  have "of_int p < pow2 (bitlen p)" by (rule P(2))
  also have "\<dots> = pow2 (?e + 1) * pow2 (bitlen q - 1)"
    by (simp flip: pow2_add)
  also have "\<dots> \<le> pow2 (?e + 1) * of_int q"
    using Q(1) by simp
  finally have hi: "x < pow2 (?e + 1)"
    using q by (simp add: x field_simps)
  have "exponent x = (if pow2 ?e \<le> x then ?e else ?e - 1)"
    by (simp add: exponent_def pq)
  with lo hi show "pow2 (exponent x) \<le> x" and "x < pow2 (exponent x + 1)"
    by auto
qed

lemma round_half_even_error: "\<bar>of_int (round_half_even x) - x\<bar> \<le> 1 / 2"
  using floor_correct [of x] by (auto simp: round_half_even_def Let_def)

lemma round_half_even_int [simp]: "round_half_even (of_int n) = n"
  by (simp add: round_half_even_def)

lemma f64_pos_eq:
  "0 < x \<Longrightarrow> f64 x = of_int (round_half_even (x / pow2 (exponent x - 52))) * pow2 (exponent x - 52)"
  by (simp add: f64_def Let_def)

lemma f64_error:
  assumes "0 < x"
  shows "\<bar>f64 x - x\<bar> \<le> x / 2 ^ 53"
proof -
  let ?u = "pow2 (exponent x - 52)"
  have u: "?u * 2 ^ 52 \<le> x"
    using exponent_bounds(1) [OF assms] pow2_add [of "exponent x - 52" 52]
    by (simp add: pow2_def [of 52])
  have "f64 x - x = (of_int (round_half_even (x / ?u)) - x / ?u) * ?u"
    using assms pow2_pos [of "exponent x - 52"] by (simp add: f64_pos_eq field_simps)
  then have "\<bar>f64 x - x\<bar> = \<bar>of_int (round_half_even (x / ?u)) - x / ?u\<bar> * ?u"
    by (simp only: abs_mult abs_of_pos [OF pow2_pos])
  also have "\<dots> \<le> 1 / 2 * ?u"
    by (rule mult_right_mono [OF round_half_even_error]) (simp add: less_imp_le)
  also have "\<dots> \<le> x / 2 ^ 53"
    using u by simp
  finally show ?thesis .
qed

lemma f64_0 [simp]: "f64 0 = 0"
  by (simp add: f64_def)

lemma f64_nonneg: "0 \<le> x \<Longrightarrow> 0 \<le> f64 x"
proof (cases "x = 0")
  case False
  assume "0 \<le> x"
  with False have "0 < x" by simp
  then have "x - x / 2 ^ 53 \<le> f64 x"
    using f64_error [of x] unfolding abs_le_iff by linarith
  with \<open>0 < x\<close> show ?thesis by simp
qed simp

lemma f64_exact_int:
  assumes "0 \<le> i" and "i < 2 ^ 53"
  shows "f64 (of_int i) = of_int i"
proof (cases "i = 0")
  case False
  with assms have x: "0 < (of_int i :: rat)" by simp
  let ?e = "exponent (of_int i)"
  have "pow2 ?e \<le> of_int i" by (rule exponent_bounds [OF x])
  also have "(of_int i :: rat) < of_int (2 ^ 53)"
    using assms(2) by (simp only: of_int_less_iff)
  also have "\<dots> = pow2 53" by (simp add: pow2_def)
  finally have "?e < 53"
    by (simp only: pow2_less_iff)
  then have d: "0 \<le> 52 - ?e" by simp
  have "of_int i / pow2 (?e - 52) = of_int i * pow2 (52 - ?e)"
    using pow2_add [of "?e - 52" "52 - ?e"] by (simp add: pow2_def [of 0] field_simps)
  also have "\<dots> = of_int (i * 2 ^ nat (52 - ?e))"
    using d by (simp add: pow2_def)
  finally have q: "of_int i / pow2 (?e - 52) = of_int (i * 2 ^ nat (52 - ?e))" .
  then have "f64 (of_int i) = of_int i / pow2 (?e - 52) * pow2 (?e - 52)"
    by (simp only: f64_pos_eq [OF x] round_half_even_int)
  also have "\<dots> = of_int i"
    using pow2_pos [of "?e - 52"] by simp
  finally show ?thesis .
qed simp

lemma f64_bounds:
  assumes "0 \<le> x"
  shows "x - x / 2 ^ 53 \<le> f64 x" and "f64 x \<le> x + x / 2 ^ 53"
proof -
  have "\<bar>f64 x - x\<bar> \<le> x / 2 ^ 53"
    using assms f64_error [of x] by (cases "x = 0") auto
  then show "x - x / 2 ^ 53 \<le> f64 x" and "f64 x \<le> x + x / 2 ^ 53"
    unfolding abs_le_iff by linarith+
qed

lemma trunc_nonneg: "0 \<le> x \<Longrightarrow> trunc x = \<lfloor>x\<rfloor>"
  by (simp add: trunc_def)

lemma of_go_int_exact: "0 \<le> i \<Longrightarrow> i < 2 ^ 53 \<Longrightarrow> of_go_int i = of_int i"
  by (simp add: of_go_int_def f64_exact_int)

text \<open>The transmission time of \<open>n\<close> packets of \<open>mtu\<close> bytes, in milliseconds.\<close>

definition line_ms :: "int \<Rightarrow> int \<Rightarrow> int \<Rightarrow> rat" where
  "line_ms mtu bandwidth n = of_int (n * mtu * 8 * 1000) / of_int bandwidth"

lemma burst_interval_near_line:
  assumes "0 < bandwidth" and "bandwidth < 2 ^ 53" and "0 \<le> n" and "n < 2 ^ 53"
    and "0 \<le> mtu" and "mtu < 2 ^ 53" and "n * mtu * 8 < 2 ^ 53"
  shows "\<exists>ms. burst_interval mtu bandwidth n = ms * Millisecond
     \<and> line_ms mtu bandwidth n * (1 - 1 / 2 ^ 51) - 1 < of_int ms
     \<and> of_int ms \<le> line_ms mtu bandwidth n * (1 + 1 / 2 ^ 51)"
proof -
  let ?x = "of_int (n * mtu * 8) / of_int bandwidth :: rat"
  let ?v = "fmul (fdiv (of_int (n * mtu * 8)) (of_int bandwidth)) 1000"
  have nm: "0 \<le> n * mtu" using assms by simp
  have "n * mtu < 2 ^ 53" using nm assms(7) by linarith
  then have "fmul (of_int n) (of_int mtu) = of_int (n * mtu)"
    using f64_exact_int [OF nm] by (simp only: fmul_def of_int_mult)
  moreover have "fmul (of_int (n * mtu)) 8 = of_int (n * mtu * 8)"
    using f64_exact_int [of "n * mtu * 8"] assms(7) nm by (simp add: fmul_def)
  ultimately have bi: "burst_interval mtu bandwidth n = trunc ?v * Millisecond"
    using assms by (simp add: burst_interval_def of_go_int_exact)
  have "0 \<le> n * mtu * 8" using nm by linarith
  then have "(0 :: rat) \<le> of_int (n * mtu * 8)" by (simp only: of_int_0_le_iff)
  then have x: "0 \<le> ?x" using assms(1) by (intro divide_nonneg_pos) simp_all
  then have a: "0 \<le> f64 ?x" by (rule f64_nonneg)
  then have v: "0 \<le> ?v" by (simp add: fmul_def fdiv_def f64_nonneg)
  note f64_bounds [OF x] f64_bounds [of "f64 ?x * 1000"]
  then have lo: "1000 * ?x * (1 - 1 / 2 ^ 51) \<le> ?v" and hi: "?v \<le> 1000 * ?x * (1 + 1 / 2 ^ 51)"
    using a x by (simp_all add: fmul_def fdiv_def)
  have q: "line_ms mtu bandwidth n = 1000 * ?x"
    by (simp add: line_ms_def)
  have t: "of_int (trunc ?v) \<le> ?v" "?v < of_int (trunc ?v) + 1"
    unfolding trunc_nonneg [OF v] by linarith+
  show ?thesis
    unfolding q bi
    by (intro exI [of _ "trunc ?v"] conjI refl) (use lo hi t in linarith)+
qed

section \<open>Properties of the time budget\<close>



text \<open>
  The wait before a block is reported is never shorter than 50 ms, whatever the
  configuration.
\<close>
lemma lqr_timeout_at_least_50ms: "50 * Millisecond \<le> lqr_timeout mtu bandwidth k m"
  by (rule lqr_timeout_ge)

text \<open>
  At a bandwidth at which a burst takes less than a millisecond the interval is zero, which
  the shaper treats as unshaped.
\<close>

lemma burst_interval_vanishes: "burst_interval 1200 1000000000 13 = 0"
  by code_simp

end
