(* ===== verification/Session_Base.thy ===== *)
theory Session_Base
  imports Protocol Shaper FEC Pacing
begin

text \<open>
  The state of a stream session, \<^verbatim>\<open>proxy/session.go\<close>: the \<^verbatim>\<open>Session\<close> struct with its groups of
  fields as sub-records, its construction, and the primitives every handler uses to send.
  Two fields record the effects on the outside world: the datagrams handed to the UDP
  socket and the byte strings written to the TCP connection. Handlers that read the clock
  take the reading as an argument.
\<close>

section \<open>Blocks\<close>

record TxBlock =
  tx_GroupID :: u16
  tx_M :: int
  tx_LQRRecved :: bool

text \<open>The timer of a receive block is represented by whether it is armed.\<close>

record RxBlock =
  rx_GroupID :: u16
  rx_K :: int
  rx_M :: int
  rx_Packets :: "slice list"
  rx_SeqNums :: "u8 list"
  rx_ReceivedCnt :: int
  rx_LQRTimer :: bool
  rx_LQRReported :: bool
  rx_Decoded :: bool

section \<open>The session record\<close>

record SessionParams =
  StreamID :: u16
  IsServer :: bool
  LinkMTU :: int
  Bandwidth :: int
  FEC_K :: int
  FEC_M :: int
  LQRTimeoutDur :: int
  NAKDelayDur :: int

text \<open>Sender state, under \<^verbatim>\<open>muSend\<close>. The flush timer is represented by whether it is armed.\<close>

record SendState =
  curM :: int
  nextGroupID :: u16
  nextSeqNum :: u8
  pendingData :: "bytes list"
  blockTimer :: bool
  txBlocks :: "u16 \<rightharpoonup> TxBlock"
  harqCache :: "u8 \<rightharpoonup> Packet"
  consecutiveOk :: int
  sendClosed :: bool
  closeSent :: bool
  closeRecv :: bool

text \<open>Receiver state, under \<^verbatim>\<open>muRecv\<close>.\<close>

record RecvState =
  nextWriteGrp :: u16
  rxBlocks :: "u16 \<rightharpoonup> RxBlock"
  recvClosed :: bool
  maxRecvGrp :: u16
  hasRecv :: bool

text \<open>Activity time and statistics, updated atomically without a lock.\<close>

record SessionCounters =
  lastActive :: int
  txBytes :: u64
  rxBytes :: u64
  txPackets :: u64
  rxPackets :: u64
  losses :: u32
  txRetransmissions :: u64

text \<open>
  The session. \<open>nakTimers\<close> lists the groups whose next periodic NAK check is scheduled with
  \<^verbatim>\<open>time.AfterFunc\<close>; \<open>ctxDone\<close>, \<open>connClosed\<close> and \<open>connWriteClosed\<close> are the states of the
  context and of the TCP connection; \<open>udpOut\<close> and \<open>tcpOut\<close> are the effects and
  \<open>tcpIn\<close> the bytes read so far.
\<close>

record 'enc Session =
  par :: SessionParams
  shp :: Shaper
  coder :: "'enc FEC"
  tx :: SendState
  rx :: RecvState
  cnt :: SessionCounters
  nakTimers :: "u16 list"
  ctxDone :: bool
  connClosed :: bool
  connWriteClosed :: bool
  udpOut :: "bytes list"
  tcpOut :: "bytes list"
  tcpIn :: bytes

section \<open>Construction\<close>

definition NewSession :: "int \<Rightarrow> u16 \<Rightarrow> bool \<Rightarrow> int \<Rightarrow> int \<Rightarrow> int \<Rightarrow> int \<Rightarrow> 'enc Session" where
  "NewSession now streamID isServer mtu bandwidth k m =
     \<lparr>par = \<lparr>StreamID = streamID, IsServer = isServer, LinkMTU = mtu, Bandwidth = bandwidth,
        FEC_K = k, FEC_M = m, LQRTimeoutDur = lqr_timeout mtu bandwidth k m,
        NAKDelayDur = 50 * Millisecond\<rparr>,
      shp = NewShaper (k + m) (burst_interval mtu bandwidth (k + m)),
      coder = NewFEC,
      tx = \<lparr>curM = m, nextGroupID = 0, nextSeqNum = 0, pendingData = [], blockTimer = False,
        txBlocks = Map.empty, harqCache = Map.empty, consecutiveOk = 0, sendClosed = False,
        closeSent = False, closeRecv = False\<rparr>,
      rx = \<lparr>nextWriteGrp = 0, rxBlocks = Map.empty, recvClosed = False, maxRecvGrp = 0,
        hasRecv = False\<rparr>,
      cnt = \<lparr>lastActive = now, txBytes = 0, rxBytes = 0, txPackets = 0, rxPackets = 0,
        losses = 0, txRetransmissions = 0\<rparr>,
      nakTimers = [], ctxDone = False, connClosed = False, connWriteClosed = False,
      udpOut = [], tcpOut = [], tcpIn = []\<rparr>"

section \<open>Activity and direct transmission\<close>

definition updateLastActive :: "int \<Rightarrow> 'enc Session \<Rightarrow> 'enc Session" where
  [session_defs]: "updateLastActive now s = s\<lparr>cnt := (cnt s)\<lparr>lastActive := now\<rparr>\<rparr>"

definition GetLastActive :: "'enc Session \<Rightarrow> int" where
  "GetLastActive s = lastActive (cnt s)"

text \<open>The error of the socket write is returned by the code and ignored by every caller.\<close>

definition sendRawUDP :: "int \<Rightarrow> bytes \<Rightarrow> 'enc Session \<Rightarrow> 'enc Session" where
  [session_defs]: "sendRawUDP now data s =
     s\<lparr>cnt := (cnt s)\<lparr>lastActive := now, txPackets := txPackets (cnt s) + 1,
                     txBytes := txBytes (cnt s) + of_nat (length data)\<rparr>,
       udpOut := udpOut s @ [data]\<rparr>"

definition sendPacketDirect :: "int \<Rightarrow> Packet \<Rightarrow> 'enc Session \<Rightarrow> 'enc Session" where
  [session_defs]: "sendPacketDirect now p s =
     (case Marshal p of Inl _ \<Rightarrow> s | Inr buf \<Rightarrow> sendRawUDP now buf s)"

definition IsClosed :: "'enc Session \<Rightarrow> bool" where
  "IsClosed s = ctxDone s"

definition RecordRx :: "u64 \<Rightarrow> 'enc Session \<Rightarrow> 'enc Session" where
  [session_defs]: "RecordRx n s =
     s\<lparr>cnt := (cnt s)\<lparr>rxPackets := rxPackets (cnt s) + 1, rxBytes := rxBytes (cnt s) + n\<rparr>\<rparr>"

text \<open>What direct transmission leaves alone.\<close>

lemma sendPacketDirect_frame [simp]:
  "par (sendPacketDirect now p s) = par s"
  "shp (sendPacketDirect now p s) = shp s"
  "coder (sendPacketDirect now p s) = coder s"
  "tx (sendPacketDirect now p s) = tx s"
  "rx (sendPacketDirect now p s) = rx s"
  "nakTimers (sendPacketDirect now p s) = nakTimers s"
  "ctxDone (sendPacketDirect now p s) = ctxDone s"
  "tcpOut (sendPacketDirect now p s) = tcpOut s"
  "tcpIn (sendPacketDirect now p s) = tcpIn s"
  by (simp_all add: sendPacketDirect_def sendRawUDP_def split: sum.splits)

lemma updateLastActive_frame [simp]:
  "par (updateLastActive now s) = par s"
  "shp (updateLastActive now s) = shp s"
  "coder (updateLastActive now s) = coder s"
  "tx (updateLastActive now s) = tx s"
  "rx (updateLastActive now s) = rx s"
  "nakTimers (updateLastActive now s) = nakTimers s"
  "ctxDone (updateLastActive now s) = ctxDone s"
  "udpOut (updateLastActive now s) = udpOut s"
  "tcpOut (updateLastActive now s) = tcpOut s"
  "tcpIn (updateLastActive now s) = tcpIn s"
  by (simp_all add: updateLastActive_def)

section \<open>Wrapping counters\<close>

text \<open>
  The comparison the receiver writes out for 16-bit group numbers: \<open>a\<close> is ahead of \<open>b\<close> by
  less than half the range.
\<close>

definition grp_after :: "u16 \<Rightarrow> u16 \<Rightarrow> bool" where
  "grp_after a b = (let diff = a - b in diff > 0 \<and> diff < 32768)"

lemma grp_after_irrefl [simp]: "\<not> grp_after g g"
  by (simp add: grp_after_def)

lemma grp_after_Suc [simp]: "grp_after (g + 1) g"
  by (simp add: grp_after_def)

text \<open>On numbers less than half the range apart it is the order of the unbounded counters.\<close>

lemma grp_after_of_nat:
  assumes "a < b + 32768" and "b < a + 32768"
  shows "grp_after (of_nat a) (of_nat b) \<longleftrightarrow> b < a"
proof (cases "b < a")
  case True
  then have "of_nat a - of_nat b = (of_nat (a - b) :: u16)"
    by (simp add: of_nat_diff)
  moreover have "unat (of_nat (a - b) :: u16) = a - b"
    using assms True by (simp add: unat_of_nat del: of_nat_diff)
  ultimately show ?thesis
    using True assms by (simp add: grp_after_def Let_def word_less_nat_alt)
next
  case False
  then have "of_nat a - of_nat b = - (of_nat (b - a) :: u16)"
    by (simp add: of_nat_diff)
  moreover have "\<not> (0 < - (of_nat (b - a) :: u16) \<and> - (of_nat (b - a) :: u16) < 32768)"
  proof (cases "a = b")
    case False
    then obtain n where n: "b - a = n" "0 < n" "n < 32768"
      using assms \<open>\<not> b < a\<close> by auto
    have "- (of_nat n :: u16) = of_nat (65536 - n)"
      using n by simp
    then have "unat (- (of_nat n :: u16)) = 65536 - n"
      using n by (simp only: unat_of_nat) simp
    then have "\<not> unat (- (of_nat n :: u16)) < 32768"
      using n by linarith
    then show ?thesis
      by (simp add: word_less_nat_alt n(1) del: of_nat_diff)
  qed simp
  ultimately show ?thesis
    using False by (simp add: grp_after_def Let_def)
qed

text \<open>
  Wrapped group numbers compare like the unbounded counters they stand for, as long as
  the counters are less than half the 16-bit range apart.
\<close>
lemma group_order_is_counter_order:
  assumes "a < b + 32768" and "b < a + 32768"
  shows "grp_after (of_nat a) (of_nat b) \<longleftrightarrow> b < a"
  by (rule grp_after_of_nat [OF assms])

end
