(* ===== verification/Sender.thy ===== *)
theory Sender
  imports Session_Base
begin

text \<open>
  The sending half of \<^verbatim>\<open>proxy/session.go\<close>: framing of TCP reads, flushing a block (padding,
  Reed-Solomon parity, sequence numbers, the retransmission cache, block bookkeeping and the
  hand-over to the shaper), and the reactions to link quality reports and NAKs. The lemmas
  bound the parity count, the tracked blocks and the size of datagrams, relate sequence
  numbers to group numbers, and show what the retransmission cache holds.
\<close>

section \<open>Reading from TCP\<close>

text \<open>The size of the read buffer in \<^verbatim>\<open>readTCPRun\<close>.\<close>

definition maxPayload :: "SessionParams \<Rightarrow> int" where
  "maxPayload pr = (let n = LinkMTU pr - 36 in if n \<le> 0 then 512 else n)"

definition frame :: "bytes \<Rightarrow> bytes" where
  "frame d = PutUint16 (of_nat (length d)) @ d"

section \<open>Flushing a block\<close>

definition padding_shard :: bytes where
  "padding_shard = [0, 0]"

definition pad_block :: "int \<Rightarrow> bytes list \<Rightarrow> bytes list" where
  "pad_block k pending = pending @ replicate (nat k - length pending) padding_shard"

definition data_packet :: "u16 \<Rightarrow> u16 \<Rightarrow> u8 \<Rightarrow> nat \<Rightarrow> bytes \<Rightarrow> Packet" where
  "data_packet streamID grpID seqNum i payload =
     zero_packet\<lparr>pType := TypeData, pStreamID := streamID, pSeqNum := seqNum, pGroupID := grpID,
       pIdx := of_nat i, pIsParity := False, pPayload := Some payload\<rparr>"

definition parity_packet :: "u16 \<Rightarrow> u16 \<Rightarrow> int \<Rightarrow> nat \<Rightarrow> bytes \<Rightarrow> Packet" where
  "parity_packet streamID grpID k j payload =
     zero_packet\<lparr>pType := TypeData, pStreamID := streamID, pGroupID := grpID,
       pIdx := of_int (k + int j), pIsParity := True, pPayload := Some payload\<rparr>"

text \<open>
  The first loop of \<^verbatim>\<open>flushPendingBlockLocked\<close>: one data packet per shard, each with the next
  sequence number. \<open>n\<close> is the number of iterations left and \<open>i\<close> the loop variable; the result
  lists the packets built.
\<close>

fun data_packets :: "u16 \<Rightarrow> u16 \<Rightarrow> bytes list \<Rightarrow> nat \<Rightarrow> nat \<Rightarrow> u8 \<Rightarrow> Packet list" where
  "data_packets streamID grpID pd 0 i seqNum = []"
| "data_packets streamID grpID pd (Suc n) i seqNum =
     data_packet streamID grpID seqNum i (pd ! i)
       # data_packets streamID grpID pd n (Suc i) (seqNum + 1)"

definition parity_packets :: "u16 \<Rightarrow> u16 \<Rightarrow> int \<Rightarrow> bytes list \<Rightarrow> nat \<Rightarrow> Packet list" where
  "parity_packets streamID grpID k parity m =
     map (\<lambda>j. parity_packet streamID grpID k j (parity ! j)) [0..<m]"

definition cache_packets :: "Packet list \<Rightarrow> (u8 \<rightharpoonup> Packet) \<Rightarrow> (u8 \<rightharpoonup> Packet)" where
  "cache_packets ps c = fold (\<lambda>p c. c(pSeqNum p \<mapsto> p)) ps c"

text \<open>Packets that fail to marshal are left out.\<close>

definition marshal_all :: "Packet list \<Rightarrow> bytes list" where
  "marshal_all ps = concat (map (\<lambda>p. case Marshal p of Inr b \<Rightarrow> [b] | Inl _ \<Rightarrow> []) ps)"

definition stale_block :: "u16 \<Rightarrow> u16 \<Rightarrow> bool" where
  "stale_block grpID g = (let diff = grpID - g in diff > 100 \<and> diff < 60000)"

definition drop_stale :: "u16 \<Rightarrow> (u16 \<rightharpoonup> TxBlock) \<Rightarrow> (u16 \<rightharpoonup> TxBlock)" where
  "drop_stale grpID blocks = (\<lambda>g. if stale_block grpID g then None else blocks g)"

definition flushPendingBlockLocked ::
  "('enc, 'e) reedsolomon \<Rightarrow> 'enc Session \<Rightarrow> go_panic + 'enc Session" where
  "flushPendingBlockLocked rs s =
     (if pendingData (tx s) = [] then Inr s
      else
        let k = FEC_K (par s);
            pd = pad_block k (pendingData (tx s));
            m = curM (tx s);
            grpID = nextGroupID (tx s);
            seqNum = nextSeqNum (tx s)
        in case Encode rs (coder s) k m pd of
            (f, Inl (Panic e)) \<Rightarrow> Inl e
          | (f, Inl (Err e)) \<Rightarrow>
              Inr (s\<lparr>coder := f, tx := (tx s)\<lparr>nextGroupID := grpID + 1, pendingData := []\<rparr>\<rparr>)
          | (f, Inr parity) \<Rightarrow>
              (if k + m < 0 then Inl MakeSliceLen
               else if int (length parity) < m then Inl IndexOutOfRange
               else
                 let dps = data_packets (StreamID (par s)) grpID pd (nat k) 0 seqNum;
                     pps = parity_packets (StreamID (par s)) grpID k parity (nat m)
                 in Inr (s\<lparr>coder := f,
                      shp := EnqueueMany (marshal_all dps @ marshal_all pps) (shp s),
                      tx := (tx s)\<lparr>
                        nextGroupID := grpID + 1,
                        nextSeqNum := seqNum + of_nat (nat k),
                        harqCache := cache_packets dps (harqCache (tx s)),
                        txBlocks := (drop_stale grpID (txBlocks (tx s)))
                          (grpID \<mapsto> \<lparr>tx_GroupID = grpID, tx_M = m, tx_LQRRecved = False\<rparr>),
                        pendingData := []\<rparr>\<rparr>)))"

text \<open>The timer callback: the same under the lock.\<close>

definition flushPendingBlock ::
  "('enc, 'e) reedsolomon \<Rightarrow> 'enc Session \<Rightarrow> go_panic + 'enc Session" where
  "flushPendingBlock rs s = flushPendingBlockLocked rs s"

text \<open>One iteration of the read loop that obtained the bytes \<open>d\<close>.\<close>

definition tcp_read :: "('enc, 'e) reedsolomon \<Rightarrow> int \<Rightarrow> bytes \<Rightarrow> 'enc Session \<Rightarrow> go_panic + 'enc Session"
where
  "tcp_read rs now d s =
     (if d = [] then Inr s
      else
        let s1 = (updateLastActive now s)\<lparr>tcpIn := tcpIn s @ d\<rparr>;
            pending = pendingData (tx s1) @ [frame d];
            s2 = s1\<lparr>tx := (tx s1)\<lparr>pendingData := pending,
                    blockTimer := (length pending = 1 \<or> blockTimer (tx s1))\<rparr>\<rparr>
        in if int (length pending) \<ge> FEC_K (par s)
           then flushPendingBlockLocked rs (s2\<lparr>tx := (tx s2)\<lparr>blockTimer := False\<rparr>\<rparr>)
           else Inr s2)"

section \<open>Feedback\<close>

definition updateShaperParams :: "'enc Session \<Rightarrow> 'enc Session" where
  [session_defs]: "updateShaperParams s =
     (let n = FEC_K (par s) + curM (tx s) in
      s\<lparr>shp := UpdateParams n (burst_interval (LinkMTU (par s)) (Bandwidth (par s)) n) (shp s)\<rparr>)"

text \<open>
  The adaptation of the parity count to one report: the state after the count of clean
  reports and \<^verbatim>\<open>curM\<close> were updated, and whether the shaper parameters change.
\<close>

definition adapt :: "int \<Rightarrow> nat \<Rightarrow> SendState \<Rightarrow> SendState \<times> bool" where
  "adapt fecM lost t =
     (if lost = 0 then
        let ok = consecutiveOk t + 1 in
        if ok \<ge> 5 then
          (if curM t > 0 then (t\<lparr>curM := curM t - 1, consecutiveOk := 0\<rparr>, True)
           else (t\<lparr>consecutiveOk := 0\<rparr>, False))
        else (t\<lparr>consecutiveOk := ok\<rparr>, False)
      else
        let newM = (if int lost + 1 > fecM then fecM else int lost + 1) in
        if curM t < newM then (t\<lparr>curM := newM, consecutiveOk := 0\<rparr>, True)
        else (t\<lparr>consecutiveOk := 0\<rparr>, False))"

definition HandleLQR :: "int \<Rightarrow> Packet \<Rightarrow> 'enc Session \<Rightarrow> 'enc Session" where
  "HandleLQR now p s =
     (let s1 = updateLastActive now s in
      case txBlocks (tx s1) (pGroupID p) of
        None \<Rightarrow> s1
      | Some block \<Rightarrow>
          if tx_LQRRecved block then s1
          else
            let (t, changed) = adapt (FEC_M (par s1)) (unat (pLosses p)) (tx s1);
                s2 = s1\<lparr>cnt := (cnt s1)\<lparr>losses := ucast (pLosses p)\<rparr>, tx := t\<rparr>;
                s3 = (if changed then updateShaperParams s2 else s2)
            in s3\<lparr>tx := (tx s3)\<lparr>txBlocks := (txBlocks (tx s3))(pGroupID p := None)\<rparr>\<rparr>)"

definition HandleNak :: "int \<Rightarrow> Packet \<Rightarrow> 'enc Session \<Rightarrow> 'enc Session" where
  "HandleNak now p s =
     (let s1 = updateLastActive now s in
      case harqCache (tx s1) (pSeqNum p) of
        None \<Rightarrow> s1
      | Some cachedPkt \<Rightarrow>
          (case Marshal cachedPkt of
             Inl _ \<Rightarrow> s1
           | Inr buf \<Rightarrow> s1\<lparr>shp := Enqueue buf (shp s1),
               cnt := (cnt s1)\<lparr>txRetransmissions := txRetransmissions (cnt s1) + 1\<rparr>\<rparr>))"

text \<open>The poll of \<^verbatim>\<open>readTCPRun\<close> before it sends CLOSE.\<close>

definition allAcked :: "SendState \<Rightarrow> bool" where
  "allAcked t \<longleftrightarrow> (\<forall>b \<in> ran (txBlocks t). tx_LQRRecved b)"

section \<open>Adaptive parity\<close>

definition parity_inv :: "int \<Rightarrow> SendState \<Rightarrow> bool" where
  "parity_inv fecM t \<longleftrightarrow> 0 \<le> curM t \<and> curM t \<le> fecM \<and> 0 \<le> consecutiveOk t \<and> consecutiveOk t < 5"

lemma adapt_parity_inv: "parity_inv fecM t \<Longrightarrow> parity_inv fecM (fst (adapt fecM lost t))"
  by (auto simp: parity_inv_def adapt_def Let_def)

lemma adapt_frame:
  "nextGroupID (fst (adapt fecM lost t)) = nextGroupID t"
  "nextSeqNum (fst (adapt fecM lost t)) = nextSeqNum t"
  "pendingData (fst (adapt fecM lost t)) = pendingData t"
  "txBlocks (fst (adapt fecM lost t)) = txBlocks t"
  "harqCache (fst (adapt fecM lost t)) = harqCache t"
  by (auto simp: adapt_def Let_def)

lemma adapt_loss:
  "0 < lost \<Longrightarrow> curM (fst (adapt fecM lost t)) = max (curM t) (min (int lost + 1) fecM)"
  by (auto simp: adapt_def Let_def)

lemma adapt_unchanged: "\<not> snd (adapt fecM lost t) \<Longrightarrow> curM (fst (adapt fecM lost t)) = curM t"
  by (auto simp: adapt_def Let_def split: if_splits)

text \<open>Runs of reports without loss.\<close>

fun clean_reports :: "int \<Rightarrow> nat \<Rightarrow> SendState \<Rightarrow> SendState" where
  "clean_reports fecM 0 t = t"
| "clean_reports fecM (Suc n) t = clean_reports fecM n (fst (adapt fecM 0 t))"

lemma clean_reports_add:
  "clean_reports fecM (a + b) t = clean_reports fecM b (clean_reports fecM a t)"
  by (induction a arbitrary: t) simp_all

lemma clean_reports_five:
  assumes "consecutiveOk t = 0"
  shows "curM (clean_reports fecM 5 t) = (if curM t > 0 then curM t - 1 else curM t)"
    and "consecutiveOk (clean_reports fecM 5 t) = 0"
  using assms by (simp_all add: numeral_eq_Suc adapt_def)

lemma clean_reports_to_zero:
  assumes "consecutiveOk t = 0" and "curM t = int m"
  shows "curM (clean_reports fecM (5 * m) t) = 0"
  using assms
proof (induction m arbitrary: t)
  case (Suc m)
  let ?t = "clean_reports fecM 5 t"
  have "curM ?t = int m" "consecutiveOk ?t = 0"
    using clean_reports_five [OF Suc.prems(1), of fecM] Suc.prems(2) by simp_all
  then have "curM (clean_reports fecM (5 * m) ?t) = 0"
    by (intro Suc.IH)
  moreover have "clean_reports fecM (5 * Suc m) t = clean_reports fecM (5 * m) ?t"
    by (metis clean_reports_add mult_Suc_right)
  ultimately show ?case by (simp only:)
qed simp

section \<open>Packets of a block\<close>

lemma data_packets_map:
  "data_packets streamID grpID pd n i seqNum =
     map (\<lambda>j. data_packet streamID grpID (seqNum + of_nat j) (i + j) (pd ! (i + j))) [0..<n]"
proof (induction n arbitrary: i seqNum)
  case (Suc n)
  have "[0..<Suc n] = 0 # map Suc [0..<n]"
    by (simp add: map_Suc_upt upt_conv_Cons)
  with Suc show ?case
    by (simp add: add.assoc)
qed simp

lemma length_data_packets [simp]: "length (data_packets streamID grpID pd n i seqNum) = n"
  by (simp add: data_packets_map)

lemma length_pad_block [simp]: "length pending \<le> nat k \<Longrightarrow> length (pad_block k pending) = nat k"
  by (simp add: pad_block_def)

lemma cache_packets_notin:
  "q \<notin> pSeqNum ` set ps \<Longrightarrow> cache_packets ps c q = c q"
  by (induction ps arbitrary: c) (simp_all add: cache_packets_def)

lemma cache_packets_in:
  "distinct (map pSeqNum ps) \<Longrightarrow> p \<in> set ps \<Longrightarrow> cache_packets ps c (pSeqNum p) = Some p"
proof (induction ps arbitrary: c)
  case (Cons a ps)
  show ?case
  proof (cases "p = a")
    case True
    with Cons.prems have "pSeqNum a \<notin> pSeqNum ` set ps" by simp
    then show ?thesis
      using True cache_packets_notin [of "pSeqNum a" ps] by (simp add: cache_packets_def)
  next
    case False
    with Cons show ?thesis by (simp add: cache_packets_def)
  qed
qed simp

lemma data_packet_encodable:
  "streamID \<le> 0x0FFF \<Longrightarrow> \<exists>b. Marshal (data_packet streamID grpID seqNum i payload) = Inr b"
  by (simp add: Marshal_ok_iff encodable_def data_packet_def zero_packet_def packet_types)

lemma parity_packet_encodable:
  "streamID \<le> 0x0FFF \<Longrightarrow> \<exists>b. Marshal (parity_packet streamID grpID k j payload) = Inr b"
  by (simp add: Marshal_ok_iff encodable_def parity_packet_def zero_packet_def packet_types)

lemma marshal_all_encodable:
  "\<forall>p \<in> set ps. \<exists>b. Marshal p = Inr b \<Longrightarrow> length (marshal_all ps) = length ps"
  by (induction ps) (auto simp: marshal_all_def split: sum.splits)

lemma in_marshal_all: "b \<in> set (marshal_all ps) \<longleftrightarrow> (\<exists>p \<in> set ps. Marshal p = Inr b)"
  by (force simp: marshal_all_def split: sum.splits)

section \<open>Flushing, given the coder\<close>

text \<open>The packets of one block, data first.\<close>

definition block_packets ::
  "(bytes list \<Rightarrow> bytes list) \<Rightarrow> u16 \<Rightarrow> u16 \<Rightarrow> nat \<Rightarrow> nat \<Rightarrow> u8 \<Rightarrow> bytes list \<Rightarrow> Packet list" where
  "block_packets parity streamID grpID k m seqNum pd =
     data_packets streamID grpID pd k 0 seqNum
       @ parity_packets streamID grpID (int k) (block_parity parity k m pd) m"

lemma marshal_all_append [simp]: "marshal_all (ps @ qs) = marshal_all ps @ marshal_all qs"
  by (simp add: marshal_all_def)

text \<open>What a flush does when the codes exist: it succeeds, and every effect is explicit.\<close>

definition flushed ::
  "(bytes list \<Rightarrow> bytes list) \<Rightarrow> nat \<Rightarrow> nat \<Rightarrow> 'enc FEC \<Rightarrow> 'enc Session \<Rightarrow> 'enc Session" where
  "flushed parity k m f s =
     (let pd = pad_block (int k) (pendingData (tx s));
          g = nextGroupID (tx s);
          q = nextSeqNum (tx s)
      in s\<lparr>coder := f,
        shp := EnqueueMany (marshal_all (block_packets parity (StreamID (par s)) g k m q pd)) (shp s),
        tx := (tx s)\<lparr>nextGroupID := g + 1,
          nextSeqNum := q + of_nat k,
          harqCache := cache_packets (data_packets (StreamID (par s)) g pd k 0 q)
                         (harqCache (tx s)),
          txBlocks := (drop_stale g (txBlocks (tx s)))
            (g \<mapsto> \<lparr>tx_GroupID = g, tx_M = int m, tx_LQRRecved = False\<rparr>),
          pendingData := []\<rparr>\<rparr>)"

lemma flush_result:
  assumes fam: "rs_family rs k mx parity" and inv: "fec_inv rs (coder s)"
    and K: "FEC_K (par s) = int k" and M: "0 \<le> curM (tx s)" "curM (tx s) \<le> int mx"
    and ne: "pendingData (tx s) \<noteq> []"
  obtains m f where "curM (tx s) = int m" and "m \<le> mx" and "fec_inv rs f"
    and "flushPendingBlockLocked rs s = Inr (flushed parity k m f s)"
proof -
  obtain m where m: "curM (tx s) = int m" "m \<le> mx"
    using M by (metis nat_0_le nat_le_iff of_nat_le_iff)
  let ?pd = "pad_block (int k) (pendingData (tx s))"
  obtain f r where e: "Encode rs (coder s) (int k) (int m) ?pd = (f, r)"
    by fastforce
  with Encode_family [OF fam inv m(2), of ?pd] have r: "r = Inr (block_parity parity k m ?pd)"
    by simp
  from e fec_inv_Encode [OF inv, of "int k" "int m" ?pd] have f: "fec_inv rs f"
    by simp
  have "length (block_parity parity k m ?pd) = m"
    by (rule length_block_parity [OF fam m(2)])
  then have "flushPendingBlockLocked rs s = Inr (flushed parity k m f s)"
    using e r ne
    by (simp add: flushPendingBlockLocked_def flushed_def Let_def K m block_packets_def)
  with m f show thesis by (rule that)
qed

section \<open>Sequence numbers and the retransmission cache\<close>

text \<open>
  The history of a sender is the list of its flushed blocks, each with \<open>k\<close> padded shards.
  Data shard number \<open>a\<close> of the whole stream is shard \<open>a mod k\<close> of block \<open>a div k\<close>; its packet
  carries both numbers modulo their widths.
\<close>

definition hist_packet :: "u16 \<Rightarrow> nat \<Rightarrow> bytes list list \<Rightarrow> nat \<Rightarrow> Packet" where
  "hist_packet streamID k hist a =
     data_packet streamID (of_nat (a div k)) (of_nat a) (a mod k) (hist ! (a div k) ! (a mod k))"

text \<open>Counters follow the history, and the cache holds the last 256 data packets.\<close>

definition sender_hist :: "nat \<Rightarrow> 'enc Session \<Rightarrow> bytes list list \<Rightarrow> bool" where
  "sender_hist k s hist \<longleftrightarrow>
     list_all (\<lambda>pd. length pd = k) hist
     \<and> nextGroupID (tx s) = of_nat (length hist)
     \<and> nextSeqNum (tx s) = of_nat (length hist * k)
     \<and> (\<forall>a. a < length hist * k \<longrightarrow> length hist * k \<le> a + 256 \<longrightarrow>
          harqCache (tx s) (of_nat a) = Some (hist_packet (StreamID (par s)) k hist a))"

lemma of_nat_u8_eq: "(of_nat a :: u8) = of_nat b \<longleftrightarrow> a mod 256 = b mod 256"
  by (simp add: word_unat_eq_iff unat_of_nat)

lemma of_nat_u8_window:
  assumes "(of_nat a :: u8) = of_nat b" and "a \<le> b" and "b < a + 256"
  shows "a = b"
proof -
  from assms(1) have "a mod 256 = b mod 256"
    by (simp only: of_nat_u8_eq)
  then have "256 dvd b - a"
    using assms(2) by (metis mod_eq_dvd_iff_nat)
  then obtain q where "b - a = 256 * q" ..
  with assms(2,3) show ?thesis
    by (cases q) auto
qed

lemma data_packets_hist:
  assumes "list_all (\<lambda>pd. length pd = k) hist" and "length pd = k" and "0 < k"
  shows "data_packets streamID (of_nat (length hist)) pd k 0 (of_nat (length hist * k)) =
     map (hist_packet streamID k (hist @ [pd])) [length hist * k..<length hist * k + k]"
proof -
  have "[length hist * k..<length hist * k + k] = map (\<lambda>j. length hist * k + j) [0..<k]"
    by (simp add: map_add_upt add.commute)
  then show ?thesis
    by (auto simp: data_packets_map hist_packet_def)
qed

lemma hist_packet_append:
  assumes "a < length hist * k"
  shows "hist_packet streamID k (hist @ [pd]) a = hist_packet streamID k hist a"
proof -
  from assms have "a div k < length hist"
    by (simp add: less_mult_imp_div_less)
  then show ?thesis
    by (simp add: hist_packet_def nth_append)
qed

lemma cache_hist:
  assumes "list_all (\<lambda>pd. length pd = k) hist" and "length pd = k" and "0 < k" and "k \<le> 256"
    and old: "\<And>a. a < length hist * k \<Longrightarrow> length hist * k \<le> a + 256 \<Longrightarrow>
      c (of_nat a) = Some (hist_packet streamID k hist a)"
    and a: "a < length (hist @ [pd]) * k" "length (hist @ [pd]) * k \<le> a + 256"
  shows "cache_packets (data_packets streamID (of_nat (length hist)) pd k 0 (of_nat (length hist * k))) c
     (of_nat a) = Some (hist_packet streamID k (hist @ [pd]) a)"
proof -
  let ?T = "length hist * k"
  let ?ps = "map (hist_packet streamID k (hist @ [pd])) [?T..<?T + k]"
  have seq: "pSeqNum (hist_packet streamID k h b) = of_nat b" for h b
    by (simp add: hist_packet_def data_packet_def)
  have "inj_on (\<lambda>b. of_nat b :: u8) {?T..<?T + k}"
  proof (rule inj_onI)
    fix x y assume "x \<in> {?T..<?T + k}" "y \<in> {?T..<?T + k}" "(of_nat x :: u8) = of_nat y"
    then show "x = y"
      using of_nat_u8_window [of x y] of_nat_u8_window [of y x] assms(4)
      by (cases "x \<le> y") auto
  qed
  then have dist: "distinct (map pSeqNum ?ps)"
    by (simp add: comp_def seq distinct_map)
  show ?thesis
  proof (cases "a < ?T")
    case True
    have "(of_nat a :: u8) \<notin> pSeqNum ` set ?ps"
    proof
      assume "(of_nat a :: u8) \<in> pSeqNum ` set ?ps"
      then obtain b where "b \<in> {?T..<?T + k}" "(of_nat a :: u8) = of_nat b"
        by (auto simp: seq)
      with of_nat_u8_window [of a b] a True show False by auto
    qed
    then show ?thesis
      using True old [of a] a unfolding data_packets_hist [OF assms(1-3)]
      by (simp add: cache_packets_notin hist_packet_append)
  next
    case False
    then have "hist_packet streamID k (hist @ [pd]) a \<in> set ?ps"
      using a by auto
    from cache_packets_in [OF dist this, of c] show ?thesis
      unfolding data_packets_hist [OF assms(1-3)] seq .
  qed
qed

lemma flushed_hist:
  assumes "sender_hist k s hist" and "0 < k" and "k \<le> 256"
    and le: "length (pendingData (tx s)) \<le> k"
  shows "sender_hist k (flushed parity k m f s) (hist @ [pad_block (int k) (pendingData (tx s))])"
proof -
  let ?pd = "pad_block (int k) (pendingData (tx s))"
  have "length ?pd = k" using le by simp
  then show ?thesis
    using assms cache_hist [of k hist ?pd "harqCache (tx s)" "StreamID (par s)"]
    by (auto simp: sender_hist_def flushed_def Let_def algebra_simps)
qed

section \<open>Blocks awaiting a report\<close>

text \<open>
  Every tracked block is filed under its own number, is not yet reported, and is among the
  last 101 that were sent.
\<close>

definition tx_window :: "SendState \<Rightarrow> bool" where
  "tx_window t \<longleftrightarrow> (\<forall>g b. txBlocks t g = Some b \<longrightarrow>
     tx_GroupID b = g \<and> \<not> tx_LQRRecved b \<and> nextGroupID t - 1 - g \<le> 100)"

lemma not_stale_window:
  assumes "(n :: u16) - 1 - g \<le> 100" and "\<not> stale_block n g"
  shows "n - g \<le> 100"
proof -
  have "n - g - 1 \<le> 100"
    using assms(1) by (simp add: algebra_simps)
  then have "n - g \<le> 101"
    by unat_arith
  moreover have "\<not> (100 < n - g \<and> n - g < 60000)"
    using assms(2) by (simp add: stale_block_def Let_def)
  ultimately show ?thesis
    by unat_arith
qed

lemma tx_window_flushed: "tx_window (tx s) \<Longrightarrow> tx_window (tx (flushed parity k m f s))"
  by (auto simp: tx_window_def flushed_def Let_def drop_stale_def intro: not_stale_window
      split: if_splits)

lemma tx_window_card:
  assumes "tx_window t"
  shows "card (dom (txBlocks t)) \<le> 101"
proof -
  have "dom (txBlocks t) \<subseteq> (\<lambda>i. nextGroupID t - 1 - of_nat i) ` {..100}"
  proof
    fix g assume "g \<in> dom (txBlocks t)"
    with assms have "nextGroupID t - 1 - g \<le> 100"
      by (auto simp: tx_window_def)
    then have "unat (nextGroupID t - 1 - g) \<in> {..100}"
      by (simp add: word_le_nat_alt)
    moreover have "g = nextGroupID t - 1 - of_nat (unat (nextGroupID t - 1 - g))"
      by simp
    ultimately show "g \<in> (\<lambda>i. nextGroupID t - 1 - of_nat i) ` {..100}"
      by blast
  qed
  then have "card (dom (txBlocks t)) \<le> card ((\<lambda>i. nextGroupID t - 1 - of_nat i) ` {..100 :: nat})"
    by (intro card_mono) simp_all
  also have "\<dots> \<le> 101"
    using card_image_le [of "{..100 :: nat}" "\<lambda>i. nextGroupID t - 1 - of_nat i"] by simp
  finally show ?thesis .
qed

lemma allAcked_iff_empty: "tx_window t \<Longrightarrow> allAcked t \<longleftrightarrow> txBlocks t = Map.empty"
  by (auto simp: allAcked_def tx_window_def ran_def) (metis option.exhaust)

section \<open>Datagrams fit the link\<close>

text \<open>
  With a link MTU above the 36 bytes of overhead, what the session sends, plus 28 bytes of
  IP and UDP headers, fits.
\<close>

definition fits :: "SessionParams \<Rightarrow> bytes \<Rightarrow> bool" where
  "fits pr b \<longleftrightarrow> int (length b) + 28 \<le> LinkMTU pr"

definition pending_fits :: "SessionParams \<Rightarrow> SendState \<Rightarrow> bool" where
  "pending_fits pr t \<longleftrightarrow> list_all (\<lambda>d. int (length d) \<le> LinkMTU pr - 34) (pendingData t)"

definition cache_fits :: "SessionParams \<Rightarrow> SendState \<Rightarrow> bool" where
  "cache_fits pr t \<longleftrightarrow> (\<forall>q p. harqCache t q = Some p \<longrightarrow>
     pType p = TypeData \<and> int (slice_len (pPayload p)) \<le> LinkMTU pr - 34)"

lemma marshal_data_fits:
  assumes "Marshal p = Inr b" and "pType p = TypeData"
    and "int (slice_len (pPayload p)) \<le> LinkMTU pr - 34"
  shows "fits pr b"
  using length_Marshal_Data [OF assms(1,2)] assms(3) by (simp add: fits_def)

lemma shard_len_le:
  assumes "\<And>d. d \<in> set pd \<Longrightarrow> length d \<le> n" and "0 < n"
  shows "shard_len pd \<le> n"
  using max_len_attained [of pd 0] assms by (auto simp: shard_len_def Let_def)

lemma block_packets_fit:
  assumes "rs_family rs k mx parity" and "m \<le> mx" and "36 < LinkMTU pr" and "length pd = k"
    and pd: "\<And>d. d \<in> set pd \<Longrightarrow> int (length d) \<le> LinkMTU pr - 34"
    and p: "p \<in> set (block_packets parity streamID g k m q pd)"
  shows "pType p = TypeData" and "int (slice_len (pPayload p)) \<le> LinkMTU pr - 34"
proof -
  have "shard_len pd \<le> nat (LinkMTU pr - 34)"
  proof (rule shard_len_le)
    show "length d \<le> nat (LinkMTU pr - 34)" if "d \<in> set pd" for d
      using pd [OF that] by simp
  qed (use assms(3) in simp)
  then have par: "int (length x) \<le> LinkMTU pr - 34" if "x \<in> set (block_parity parity k m pd)" for x
    using length_block_parity(2) [OF assms(1,2) that] assms(3) by simp
  show "pType p = TypeData"
    using p by (auto simp: block_packets_def data_packets_map parity_packets_def data_packet_def
        parity_packet_def)
  show "int (slice_len (pPayload p)) \<le> LinkMTU pr - 34"
    using p assms(4) pd par length_block_parity(1) [OF assms(1,2)]
    by (auto simp: block_packets_def data_packets_map parity_packets_def data_packet_def
        parity_packet_def)
qed

section \<open>The sender invariant\<close>

definition sender_inv :: "('enc, 'e) reedsolomon \<Rightarrow> nat \<Rightarrow> nat \<Rightarrow> 'enc Session \<Rightarrow> bool" where
  "sender_inv rs k mx s \<longleftrightarrow> 0 < k \<and> FEC_K (par s) = int k \<and> FEC_M (par s) = int mx
     \<and> fec_inv rs (coder s) \<and> parity_inv (int mx) (tx s) \<and> tx_window (tx s)
     \<and> length (pendingData (tx s)) < k"

definition mtu_inv :: "'enc Session \<Rightarrow> bool" where
  "mtu_inv s \<longleftrightarrow> 36 < LinkMTU (par s) \<and> pending_fits (par s) (tx s) \<and> cache_fits (par s) (tx s)
     \<and> list_all (fits (par s)) (queue (shp s))"

lemma sender_inv_New:
  "0 < k \<Longrightarrow> sender_inv rs k mx (NewSession now streamID isServer mtu bandwidth (int k) (int mx))"
  by (simp add: sender_inv_def NewSession_def parity_inv_def tx_window_def)

lemma mtu_inv_New: "36 < mtu \<Longrightarrow> mtu_inv (NewSession now streamID isServer mtu bandwidth k m)"
  by (simp add: mtu_inv_def NewSession_def NewShaper_def pending_fits_def cache_fits_def)

text \<open>Flushing keeps both; it works on up to \<open>k\<close> pending shards.\<close>

lemma flushed_sender_inv:
  assumes "0 < k" "FEC_K (par s) = int k" "FEC_M (par s) = int mx"
    and "parity_inv (int mx) (tx s)" "tx_window (tx s)" "fec_inv rs f"
  shows "sender_inv rs k mx (flushed parity k m f s)"
  using assms tx_window_flushed [of s parity k m f]
  by (simp add: sender_inv_def parity_inv_def flushed_def Let_def)

lemma flushed_mtu_inv:
  assumes "mtu_inv s" and "rs_family rs k mx parity" and "m \<le> mx"
    and "length (pendingData (tx s)) \<le> k"
  shows "mtu_inv (flushed parity k m f s)"
proof -
  let ?pd = "pad_block (int k) (pendingData (tx s))"
  let ?ps = "block_packets parity (StreamID (par s)) (nextGroupID (tx s)) k m (nextSeqNum (tx s)) ?pd"
  have mtu: "36 < LinkMTU (par s)" and "length ?pd = k"
    using assms by (simp_all add: mtu_inv_def)
  moreover have "int (length d) \<le> LinkMTU (par s) - 34" if "d \<in> set ?pd" for d
    using that assms(1)
    by (auto simp: mtu_inv_def pending_fits_def pad_block_def padding_shard_def list_all_iff)
  ultimately have ps: "pType p = TypeData" "int (slice_len (pPayload p)) \<le> LinkMTU (par s) - 34"
    if "p \<in> set ?ps" for p
    using block_packets_fit [OF assms(2,3), of "par s" ?pd p] that by blast+
  have "list_all (fits (par s)) (marshal_all ?ps)"
    using ps marshal_data_fits by (fastforce simp: list_all_iff in_marshal_all)
  moreover have "cache_fits (par s) (tx (flushed parity k m f s))"
  proof -
    let ?ds = "data_packets (StreamID (par s)) (nextGroupID (tx s)) ?pd k 0 (nextSeqNum (tx s))"
    have "cache_packets ds c q = Some p \<Longrightarrow> p \<in> set ds \<or> c q = Some p" for ds c q and p :: Packet
      by (induction ds arbitrary: c) (fastforce simp: cache_packets_def split: if_splits)+
    moreover have "set ?ds \<subseteq> set ?ps"
      by (simp add: block_packets_def)
    ultimately show ?thesis
      using ps assms(1) unfolding cache_fits_def mtu_inv_def flushed_def Let_def
      by simp blast
  qed
  ultimately show ?thesis
    using assms(1)
    by (auto simp: mtu_inv_def flushed_def Let_def shq.contents_enq_many pending_fits_def)
qed

lemma flush_total:
  assumes "sender_inv rs k mx s" and "rs_family rs k mx parity" and "pendingData (tx s) \<noteq> []"
  obtains m f where "flushPendingBlock rs s = Inr (flushed parity k m f s)"
    and "m \<le> mx" and "fec_inv rs f" and "curM (tx s) = int m"
proof -
  have "fec_inv rs (coder s)" "FEC_K (par s) = int k" "0 \<le> curM (tx s)" "curM (tx s) \<le> int mx"
    using assms(1) by (simp_all add: sender_inv_def parity_inv_def)
  from flush_result [OF assms(2) this assms(3)] that show thesis
    by (metis flushPendingBlock_def)
qed

lemma flushPendingBlock_empty:
  "pendingData (tx s) = [] \<Longrightarrow> flushPendingBlock rs s = Inr s"
  by (simp add: flushPendingBlock_def flushPendingBlockLocked_def)

text \<open>A read appends a framed shard and flushes when the block is full.\<close>

definition buffered :: "int \<Rightarrow> bytes \<Rightarrow> bool \<Rightarrow> 'enc Session \<Rightarrow> 'enc Session" where
  "buffered now d timer s = (updateLastActive now s)
     \<lparr>tcpIn := tcpIn s @ d, tx := (tx s)\<lparr>pendingData := pendingData (tx s) @ [frame d], blockTimer := timer\<rparr>\<rparr>"

lemma tcp_read_cases:
  assumes inv: "sender_inv rs k mx s" and fam: "rs_family rs k mx parity" and "d \<noteq> []"
  obtains
    (buffer) timer where "length (pendingData (tx s)) + 1 < k"
      and "tcp_read rs now d s = Inr (buffered now d timer s)"
  | (flush) m f where "length (pendingData (tx s)) + 1 = k" and "m \<le> mx" and "fec_inv rs f"
      and "tcp_read rs now d s = Inr (flushed parity k m f (buffered now d False s))"
proof (cases "length (pendingData (tx s)) + 1 < k")
  case True
  then show thesis
    using inv assms(3)
    by (intro buffer [of "length (pendingData (tx s) @ [frame d]) = 1 \<or> blockTimer (tx s)"])
      (auto simp: tcp_read_def Let_def sender_inv_def buffered_def updateLastActive_def)
next
  case False
  let ?b = "buffered now d False s"
  have b: "fec_inv rs (coder ?b)" "FEC_K (par ?b) = int k" "0 \<le> curM (tx ?b)"
    "curM (tx ?b) \<le> int mx" "pendingData (tx ?b) \<noteq> []"
    using inv by (simp_all add: buffered_def sender_inv_def parity_inv_def)
  have len: "length (pendingData (tx s)) + 1 = k"
    using False inv by (simp add: sender_inv_def)
  then have "tcp_read rs now d s = flushPendingBlockLocked rs ?b"
    using inv assms(3)
    by (auto simp: tcp_read_def Let_def sender_inv_def buffered_def updateLastActive_def)
  with flush_result [OF fam b] len flush show thesis
    by metis
qed

lemma buffered_fields [simp]:
  "par (buffered now d timer s) = par s"
  "coder (buffered now d timer s) = coder s"
  "shp (buffered now d timer s) = shp s"
  "rx (buffered now d timer s) = rx s"
  "pendingData (tx (buffered now d timer s)) = pendingData (tx s) @ [frame d]"
  "txBlocks (tx (buffered now d timer s)) = txBlocks (tx s)"
  "harqCache (tx (buffered now d timer s)) = harqCache (tx s)"
  "nextGroupID (tx (buffered now d timer s)) = nextGroupID (tx s)"
  "nextSeqNum (tx (buffered now d timer s)) = nextSeqNum (tx s)"
  "curM (tx (buffered now d timer s)) = curM (tx s)"
  "consecutiveOk (tx (buffered now d timer s)) = consecutiveOk (tx s)"
  by (simp_all add: buffered_def)

lemma length_frame [simp]: "length (frame d) = 2 + length d"
  by (simp add: frame_def)

lemma buffered_mtu_inv:
  "mtu_inv s \<Longrightarrow> int (length d) \<le> maxPayload (par s) \<Longrightarrow> mtu_inv (buffered now d timer s)"
  by (auto simp: mtu_inv_def pending_fits_def cache_fits_def maxPayload_def Let_def split: if_splits)

lemma tcp_read_inv:
  assumes "sender_inv rs k mx s" and "rs_family rs k mx parity"
  shows "\<exists>s'. tcp_read rs now d s = Inr s' \<and> sender_inv rs k mx s'"
proof (cases "d = []")
  case True
  with assms(1) show ?thesis by (simp add: tcp_read_def)
next
  case False
  from assms False show ?thesis
  proof (cases rule: tcp_read_cases [where now = now])
    case (buffer timer)
    with assms(1) show ?thesis
      by (simp add: sender_inv_def parity_inv_def tx_window_def)
  next
    case (flush m f)
    with assms(1) flushed_sender_inv [of k "buffered now d False s" mx rs f parity m] show ?thesis
      by (simp add: sender_inv_def parity_inv_def tx_window_def)
  qed
qed

lemma flushPendingBlock_inv:
  assumes "sender_inv rs k mx s" and "rs_family rs k mx parity"
  shows "\<exists>s'. flushPendingBlock rs s = Inr s' \<and> sender_inv rs k mx s'"
proof (cases "pendingData (tx s) = []")
  case True
  with assms(1) show ?thesis by (simp add: flushPendingBlock_empty)
next
  case False
  from flush_total [OF assms False] obtain m f where
    "flushPendingBlock rs s = Inr (flushed parity k m f s)" and "fec_inv rs f"
    by metis
  with assms(1) flushed_sender_inv [of k s mx rs f parity m] show ?thesis
    by (simp add: sender_inv_def)
qed

text \<open>Reports and NAKs leave the counters, the cache and the pending data alone.\<close>

lemma HandleLQR_frame:
  "par (HandleLQR now p s) = par s"
  "coder (HandleLQR now p s) = coder s"
  "rx (HandleLQR now p s) = rx s"
  "queue (shp (HandleLQR now p s)) = queue (shp s)"
  "stopped (shp (HandleLQR now p s)) = stopped (shp s)"
  "nextGroupID (tx (HandleLQR now p s)) = nextGroupID (tx s)"
  "nextSeqNum (tx (HandleLQR now p s)) = nextSeqNum (tx s)"
  "pendingData (tx (HandleLQR now p s)) = pendingData (tx s)"
  "harqCache (tx (HandleLQR now p s)) = harqCache (tx s)"
  "tcpOut (HandleLQR now p s) = tcpOut s" "tcpIn (HandleLQR now p s) = tcpIn s"
  "udpOut (HandleLQR now p s) = udpOut s"
  using adapt_frame [of "FEC_M (par s)" "unat (pLosses p)" "tx s"]
  by (auto simp: HandleLQR_def Let_def updateShaperParams_def UpdateParams_def
      split: option.splits prod.splits)

lemma HandleLQR_txBlocks:
  "txBlocks (tx (HandleLQR now p s)) g = Some b \<Longrightarrow> txBlocks (tx s) g = Some b"
  using adapt_frame(4) [of "FEC_M (par s)" "unat (pLosses p)" "tx s"]
  by (auto simp: HandleLQR_def Let_def updateShaperParams_def
      split: option.splits prod.splits if_splits)

lemma HandleLQR_parity:
  "parity_inv (FEC_M (par s)) (tx s) \<Longrightarrow> parity_inv (FEC_M (par s)) (tx (HandleLQR now p s))"
  using adapt_parity_inv [of "FEC_M (par s)" "tx s" "unat (pLosses p)"]
  by (auto simp: HandleLQR_def Let_def updateShaperParams_def parity_inv_def
      split: option.splits prod.splits)

lemma HandleLQR_inv: "sender_inv rs k mx s \<Longrightarrow> sender_inv rs k mx (HandleLQR now p s)"
  using HandleLQR_parity [of s now p] HandleLQR_txBlocks [of now p s]
  by (fastforce simp: sender_inv_def HandleLQR_frame tx_window_def)

lemma HandleLQR_mtu_inv: "mtu_inv s \<Longrightarrow> mtu_inv (HandleLQR now p s)"
  by (simp add: mtu_inv_def HandleLQR_frame pending_fits_def cache_fits_def)

lemma HandleLQR_hist: "sender_hist k s hist \<Longrightarrow> sender_hist k (HandleLQR now p s) hist"
  by (simp add: sender_hist_def HandleLQR_frame)

lemma HandleNak_frame [simp]:
  "par (HandleNak now p s) = par s"
  "coder (HandleNak now p s) = coder s"
  "tx (HandleNak now p s) = tx s"
  "rx (HandleNak now p s) = rx s"
  "stopped (shp (HandleNak now p s)) = stopped (shp s)"
  "tcpOut (HandleNak now p s) = tcpOut s" "tcpIn (HandleNak now p s) = tcpIn s"
  "udpOut (HandleNak now p s) = udpOut s"
  by (simp_all add: HandleNak_def Let_def shq.closed_enq split: option.splits sum.splits)

lemma HandleNak_queue:
  "queue (shp (HandleNak now p s)) =
     queue (shp s) @ (if stopped (shp s) then [] else
       case harqCache (tx s) (pSeqNum p) of None \<Rightarrow> [] | Some c \<Rightarrow> marshal_all [c])"
  by (simp add: HandleNak_def Let_def shq.contents_enq marshal_all_def
      split: option.splits sum.splits)

lemma HandleNak_mtu_inv: "mtu_inv s \<Longrightarrow> mtu_inv (HandleNak now p s)"
proof (cases "harqCache (tx s) (pSeqNum p)")
  case None
  assume "mtu_inv s"
  with None show ?thesis by (simp add: mtu_inv_def HandleNak_queue)
next
  case (Some c)
  assume inv: "mtu_inv s"
  with Some have "pType c = TypeData" "int (slice_len (pPayload c)) \<le> LinkMTU (par s) - 34"
    unfolding mtu_inv_def cache_fits_def by blast+
  then have "list_all (fits (par s)) (marshal_all [c])"
    using marshal_data_fits by (auto simp: list_all_iff in_marshal_all)
  with inv Some show ?thesis by (simp add: mtu_inv_def HandleNak_queue)
qed

lemma HandleNak_inv: "sender_inv rs k mx s \<Longrightarrow> sender_inv rs k mx (HandleNak now p s)"
  by (simp add: sender_inv_def)

section \<open>Runs of reports\<close>

text \<open>Reports handled one after the other, and the part of the state they depend on.\<close>

definition handle_reports :: "int \<Rightarrow> Packet list \<Rightarrow> 'enc Session \<Rightarrow> 'enc Session" where
  "handle_reports now ps s = fold (HandleLQR now) ps s"

lemma adapt_cong:
  assumes "curM t = curM u" and "consecutiveOk t = consecutiveOk u"
  shows "curM (fst (adapt fecM n t)) = curM (fst (adapt fecM n u))"
    and "consecutiveOk (fst (adapt fecM n t)) = consecutiveOk (fst (adapt fecM n u))"
  using assms by (auto simp: adapt_def Let_def)

lemma clean_reports_cong:
  "curM t = curM u \<Longrightarrow> consecutiveOk t = consecutiveOk u \<Longrightarrow>
     curM (clean_reports fecM n t) = curM (clean_reports fecM n u)
     \<and> consecutiveOk (clean_reports fecM n t) = consecutiveOk (clean_reports fecM n u)"
proof (induction n arbitrary: t u)
  case (Suc n)
  show ?case unfolding clean_reports.simps by (rule Suc.IH [OF adapt_cong [OF Suc.prems]])
qed simp

definition awaited :: "'enc Session \<Rightarrow> u16 \<Rightarrow> bool" where
  "awaited s g \<longleftrightarrow> (\<exists>b. txBlocks (tx s) g = Some b \<and> \<not> tx_LQRRecved b)"

lemma HandleLQR_awaited:
  assumes "awaited s (pGroupID p)"
  shows "curM (tx (HandleLQR now p s)) = curM (fst (adapt (FEC_M (par s)) (unat (pLosses p)) (tx s)))"
    and "consecutiveOk (tx (HandleLQR now p s))
      = consecutiveOk (fst (adapt (FEC_M (par s)) (unat (pLosses p)) (tx s)))"
    and "txBlocks (tx (HandleLQR now p s)) = (txBlocks (tx s))(pGroupID p := None)"
  using assms adapt_frame(4) [of "FEC_M (par s)" "unat (pLosses p)" "tx s"]
  by (auto simp: awaited_def HandleLQR_def Let_def updateShaperParams_def split: prod.splits)

lemma handle_clean_reports:
  "distinct (map pGroupID ps) \<Longrightarrow> (\<And>p. p \<in> set ps \<Longrightarrow> awaited s (pGroupID p) \<and> pLosses p = 0) \<Longrightarrow>
     curM (tx (handle_reports now ps s)) = curM (clean_reports (FEC_M (par s)) (length ps) (tx s))"
proof (induction ps arbitrary: s)
  case (Cons p ps)
  let ?s = "HandleLQR now p s"
  have a: "awaited s (pGroupID p)" and "pLosses p = 0" using Cons.prems(2) by auto
  have "awaited ?s (pGroupID q) \<and> pLosses q = 0" if "q \<in> set ps" for q
  proof -
    have "pGroupID q \<noteq> pGroupID p" using Cons.prems(1) imageI [OF that, of pGroupID] by auto
    then show ?thesis using Cons.prems(2) [of q] that by (simp add: awaited_def HandleLQR_awaited(3) [OF a])
  qed
  then have "curM (tx (handle_reports now ps ?s)) = curM (clean_reports (FEC_M (par s)) (length ps) (tx ?s))"
    using Cons.IH [of ?s] Cons.prems(1) by (simp add: HandleLQR_frame)
  also have "\<dots> = curM (clean_reports (FEC_M (par s)) (length ps) (fst (adapt (FEC_M (par s)) 0 (tx s))))"
    by (rule clean_reports_cong [THEN conjunct1])
      (simp_all add: HandleLQR_awaited [OF a] \<open>pLosses p = 0\<close>)
  finally show ?case by (simp add: handle_reports_def)
qed (simp add: handle_reports_def)

section \<open>Properties of the sender\<close>

text \<open>A session that has sent one block, used to instantiate the properties.\<close>

definition sample_tx :: "unit Session" where
  "sample_tx = (let n = NewSession 0 7 False 1200 0 2 1 in
     n\<lparr>tx := (tx n)\<lparr>txBlocks := (\<lambda>g. if g < 5 then Some \<lparr>tx_GroupID = g, tx_M = 1, tx_LQRRecved = False\<rparr> else None)\<rparr>\<rparr>)"

definition report :: "u16 \<Rightarrow> u8 \<Rightarrow> Packet" where
  "report g n = zero_packet\<lparr>pType := TypeLqr, pStreamID := 7, pGroupID := g, pLosses := n\<rparr>"

text \<open>
  C26: a report of losses for a block still awaited raises the parity count to one more than
  the losses, capped at the configured maximum, never lowers it, restarts the count of clean
  reports and stops tracking the block.
\<close>
theorem loss_report_raises_parity:
  assumes "txBlocks (tx s) (pGroupID p) = Some b" and "\<not> tx_LQRRecved b" and "pLosses p \<noteq> 0"
  shows "curM (tx (HandleLQR now p s))
       = max (curM (tx s)) (min (int (unat (pLosses p)) + 1) (FEC_M (par s)))
     \<and> consecutiveOk (tx (HandleLQR now p s)) = 0
     \<and> txBlocks (tx (HandleLQR now p s)) (pGroupID p) = None"
proof -
  have a: "awaited s (pGroupID p)" using assms by (simp add: awaited_def)
  have "0 < unat (pLosses p)" using assms(3) by (simp add: unat_gt_0)
  then show ?thesis
    unfolding HandleLQR_awaited [OF a] by (auto simp: adapt_loss adapt_def Let_def)
qed

theorem loss_report_raises_parity_witness:
  "curM (tx (HandleLQR 0 (report 2 1) (sample_tx\<lparr>tx := (tx sample_tx)\<lparr>curM := 0\<rparr>\<rparr>))) = 1"
  using loss_report_raises_parity [of "sample_tx\<lparr>tx := (tx sample_tx)\<lparr>curM := 0\<rparr>\<rparr>" "report 2 1" _ 0]
  by (simp add: sample_tx_def report_def NewSession_def)

text \<open>
  C27: on a clean link parity decays to nothing: from a fresh count, five reports without loss
  for each parity shard in use bring the parity count to zero.
\<close>
theorem clean_reports_remove_parity:
  assumes "consecutiveOk (tx s) = 0" and "curM (tx s) = int m"
    and "distinct (map pGroupID ps)" and "length ps = 5 * m"
    and "\<And>p. p \<in> set ps \<Longrightarrow> awaited s (pGroupID p) \<and> pLosses p = 0"
  shows "curM (tx (handle_reports now ps s)) = 0"
  using handle_clean_reports [OF assms(3,5)] clean_reports_to_zero [OF assms(1,2)] assms(4) by simp

theorem clean_reports_remove_parity_witness:
  "curM (tx (handle_reports 0 (map (\<lambda>g. report g 0) [0, 1, 2, 3, 4]) sample_tx)) = 0"
  by (rule clean_reports_remove_parity [where m = 1])
    (auto simp: sample_tx_def report_def NewSession_def awaited_def)

text \<open>
  Reports are idempotent: a second report for the same block, whatever it says, only
  refreshes the activity time.
\<close>
lemma duplicate_report_ignored:
  assumes "pGroupID q = pGroupID p"
  shows "HandleLQR later q (HandleLQR now p s) = updateLastActive later (HandleLQR now p s)"
proof (cases "awaited s (pGroupID p)")
  case True
  then have "txBlocks (tx (HandleLQR now p s)) (pGroupID q) = None"
    using assms by (simp add: HandleLQR_awaited(3))
  then show ?thesis by (simp add: HandleLQR_def [of later])
next
  case False
  then have "HandleLQR t r s = updateLastActive t s" if "pGroupID r = pGroupID p" for t r
    using that by (auto simp: HandleLQR_def Let_def awaited_def split: option.splits)
  with False assms show ?thesis
    by (auto simp: HandleLQR_def Let_def awaited_def split: option.splits)
qed

text \<open>
  C25: flushing a non-empty buffer succeeds and hands exactly one datagram per data shard and
  per parity shard to the shaper, empties the buffer, advances the group number by one and
  the sequence number by \<open>k\<close>, and starts awaiting the block's report.
\<close>
theorem flush_effects:
  assumes "sender_inv rs k mx s" and "rs_family rs k mx parity" and "pendingData (tx s) \<noteq> []"
    and "\<not> stopped (shp s)" and "StreamID (par s) \<le> 0x0FFF"
  shows "\<exists>s'. flushPendingBlock rs s = Inr s'
     \<and> (\<exists>ds. queue (shp s') = queue (shp s) @ ds \<and> int (length ds) = int k + curM (tx s))
     \<and> pendingData (tx s') = [] \<and> nextGroupID (tx s') = nextGroupID (tx s) + 1
     \<and> nextSeqNum (tx s') = nextSeqNum (tx s) + of_nat k \<and> awaited s' (nextGroupID (tx s))"
proof -
  obtain m f where f: "flushPendingBlock rs s = Inr (flushed parity k m f s)" "curM (tx s) = int m"
    by (rule flush_total [OF assms(1-3)])
  let ?ps = "block_packets parity (StreamID (par s)) (nextGroupID (tx s)) k m (nextSeqNum (tx s))
      (pad_block (int k) (pendingData (tx s)))"
  have "length (marshal_all ?ps) = length ?ps"
    using data_packet_encodable [OF assms(5)] parity_packet_encodable [OF assms(5)]
    by (intro marshal_all_encodable) (auto simp: block_packets_def data_packets_map parity_packets_def)
  then have "length (marshal_all ?ps) = k + m"
    by (simp add: block_packets_def parity_packets_def)
  then show ?thesis
    using f assms(4)
    by (intro exI [of _ "flushed parity k m f s"] conjI exI [of _ "marshal_all ?ps"])
      (simp_all add: flushed_def Let_def shq.contents_enq_many awaited_def)
qed

theorem flush_effects_witness:
  "\<exists>s'. flushPendingBlock xor_rs (buffered 0 [33] True (NewSession 0 7 False 1200 0 2 1)) = Inr s'
     \<and> pendingData (tx s') = [] \<and> nextGroupID (tx s') = 1 \<and> nextSeqNum (tx s') = 2"
proof -
  let ?n = "NewSession 0 7 False 1200 0 (int 2) (int 1)"
  let ?s = "buffered 0 [33] True ?n"
  have "sender_inv xor_rs 2 1 ?n" by (rule sender_inv_New) simp
  then have "sender_inv xor_rs 2 1 ?s"
    by (simp add: sender_inv_def parity_inv_def tx_window_def) (simp add: NewSession_def)
  from flush_effects [OF this xor_rs_family] show ?thesis
    by (auto simp: NewSession_def NewShaper_def)
qed

end
