(* ===== verification/Receiver.thy ===== *)
theory Receiver
  imports Sender
begin

text \<open>
  The receiving half of \<^verbatim>\<open>proxy/session.go\<close>: receive blocks, \<^verbatim>\<open>HandleDataPacket\<close> with its
  duplicate and window checks, reconstruction, the link quality report and the periodic
  NAKs, and the loop that writes finished blocks to TCP. The lemmas show that no operation
  panics for a sane configuration, that received shards are never overwritten, when a block
  becomes decoded and with which contents, and what the reports count.
\<close>

section \<open>Receive blocks\<close>

text \<open>The sequence numbers a block's data shards carry, computed from its group number.\<close>

definition static_seqs :: "u16 \<Rightarrow> int \<Rightarrow> u8 list" where
  "static_seqs grpID k =
     (let firstSeq = (uint grpID * k) mod 256 in
      map (\<lambda>i. of_int ((firstSeq + int i) mod 256)) [0..<nat k])"

definition new_rx_block :: "SessionParams \<Rightarrow> u16 \<Rightarrow> go_panic + RxBlock" where
  "new_rx_block pr grpID =
     (let k = FEC_K pr; mSize = FEC_M pr in
      if k + mSize < 0 \<or> k < 0 then Inl MakeSliceLen
      else Inr \<lparr>rx_GroupID = grpID, rx_K = k, rx_M = mSize,
        rx_Packets = replicate (nat (k + mSize)) None, rx_SeqNums = static_seqs grpID k,
        rx_ReceivedCnt = 0, rx_LQRTimer = True, rx_LQRReported = False, rx_Decoded = False\<rparr>)"

section \<open>Reconstruction\<close>

definition all_data :: "RxBlock \<Rightarrow> bool" where
  "all_data b \<longleftrightarrow> int (length (filter (\<lambda>p. p \<noteq> None) (take (nat (rx_K b)) (rx_Packets b)))) = rx_K b"

fun slice_max :: "slice list \<Rightarrow> nat \<Rightarrow> nat" where
  "slice_max [] acc = acc"
| "slice_max (None # ss) acc = slice_max ss acc"
| "slice_max (Some p # ss) acc = slice_max ss (if length p > acc then length p else acc)"

definition pad_slice :: "nat \<Rightarrow> slice \<Rightarrow> slice" where
  "pad_slice n s = (case s of None \<Rightarrow> None
     | Some p \<Rightarrow> Some (if length p < n then padded n p else p))"

definition fill_data :: "nat \<Rightarrow> slice list \<Rightarrow> slice list \<Rightarrow> slice list" where
  "fill_data k shards ps =
     map (\<lambda>i. if i < k \<and> ps ! i = None then shards ! i else ps ! i) [0..<length ps]"

definition tryDecodeBlock ::
  "('enc, 'e) reedsolomon \<Rightarrow> 'enc FEC \<Rightarrow> RxBlock \<Rightarrow> 'enc FEC \<times> (go_panic + RxBlock)" where
  "tryDecodeBlock rs f b =
     (if int (length (rx_Packets b)) < rx_K b then (f, Inl IndexOutOfRange)
      else if all_data b then (f, Inr (b\<lparr>rx_Decoded := True\<rparr>))
      else
        let maxLen = slice_max (rx_Packets b) 0 in
        if maxLen = 0 then (f, Inr b)
        else
          let m = int (length (rx_Packets b)) - rx_K b;
              shards = map (pad_slice maxLen) (rx_Packets b)
          in case Reconstruct rs f (rx_K b) m shards of
               (f', Inl _) \<Rightarrow> (f', Inr b)
             | (f', Inr shards') \<Rightarrow>
                 (f', Inr (b\<lparr>rx_Packets := fill_data (nat (rx_K b)) shards' (rx_Packets b),
                             rx_Decoded := True\<rparr>)))"

section \<open>Incoming shards\<close>

definition note_group :: "u16 \<Rightarrow> RecvState \<Rightarrow> RecvState" where
  "note_group grpID r =
     (if \<not> hasRecv r then r\<lparr>maxRecvGrp := grpID, hasRecv := True\<rparr>
      else if grp_after grpID (maxRecvGrp r) then r\<lparr>maxRecvGrp := grpID\<rparr>
      else r)"

definition grow_block :: "nat \<Rightarrow> RxBlock \<Rightarrow> RxBlock" where
  "grow_block idx b =
     (if idx \<ge> length (rx_Packets b)
      then b\<lparr>rx_Packets := rx_Packets b @ replicate (idx + 1 - length (rx_Packets b)) None,
             rx_M := int idx + 1 - rx_K b\<rparr>
      else b)"

definition store_shard :: "nat \<Rightarrow> slice \<Rightarrow> RxBlock \<Rightarrow> RxBlock" where
  "store_shard idx payload b =
     (if rx_Packets b ! idx = None
      then b\<lparr>rx_Packets := (rx_Packets b)[idx := payload], rx_ReceivedCnt := rx_ReceivedCnt b + 1\<rparr>
      else b)"

definition HandleDataPacket ::
  "('enc, 'e) reedsolomon \<Rightarrow> int \<Rightarrow> Packet \<Rightarrow> 'enc Session \<Rightarrow> go_panic + 'enc Session" where
  "HandleDataPacket rs now p s =
     (let s1 = updateLastActive now s in
      if recvClosed (rx s1) then Inr s1
      else
        let grpID = pGroupID p;
            s2 = s1\<lparr>rx := note_group grpID (rx s1)\<rparr>
        in
        if grp_after (nextWriteGrp (rx s2)) grpID then Inr s2
        else
          case (case rxBlocks (rx s2) grpID of Some b \<Rightarrow> Inr b
                | None \<Rightarrow> new_rx_block (par s2) grpID) of
            Inl e \<Rightarrow> Inl e
          | Inr b \<Rightarrow>
              let idx = unat (pIdx p);
                  b2 = store_shard idx (pPayload p) (grow_block idx b);
                  (f, res) = (if rx_ReceivedCnt b2 \<ge> rx_K b2 \<and> \<not> rx_Decoded b2
                              then tryDecodeBlock rs (coder s2) b2 else (coder s2, Inr b2))
              in case res of
                   Inl e \<Rightarrow> Inl e
                 | Inr b3 \<Rightarrow> Inr (s2\<lparr>coder := f,
                     rx := (rx s2)\<lparr>rxBlocks := (rxBlocks (rx s2))(grpID \<mapsto> b3)\<rparr>\<rparr>))"

section \<open>Reports and NAKs\<close>

text \<open>The index of the last shard present, or \<open>-1\<close>.\<close>

fun last_present :: "slice list \<Rightarrow> int \<Rightarrow> int \<Rightarrow> int" where
  "last_present [] i acc = acc"
| "last_present (s # ss) i acc = last_present ss (i + 1) (if s \<noteq> None then i else acc)"

definition report_losses :: "RxBlock \<Rightarrow> int" where
  "report_losses b =
     (let maxIdx = last_present (rx_Packets b) 0 (-1);
          expectedTotal = (if maxIdx \<ge> rx_K b then maxIdx + 1 else rx_K b);
          n = expectedTotal - rx_ReceivedCnt b
      in if n < 0 then 0 else if n > 255 then 255 else n)"

definition lqr_packet :: "u16 \<Rightarrow> u16 \<Rightarrow> int \<Rightarrow> Packet" where
  "lqr_packet streamID grpID n =
     zero_packet\<lparr>pType := TypeLqr, pStreamID := streamID, pGroupID := grpID, pLosses := of_int n\<rparr>"

definition nak_packet :: "u16 \<Rightarrow> u8 \<Rightarrow> Packet" where
  "nak_packet streamID seqNum =
     zero_packet\<lparr>pType := TypeNak, pStreamID := streamID, pSeqNum := seqNum\<rparr>"

definition handleLQRTimeout :: "int \<Rightarrow> u16 \<Rightarrow> 'enc Session \<Rightarrow> 'enc Session" where
  "handleLQRTimeout now grpID s =
     (case rxBlocks (rx s) grpID of
        None \<Rightarrow> s
      | Some b \<Rightarrow>
          if rx_LQRReported b then s
          else
            let s1 = s\<lparr>rx := (rx s)\<lparr>rxBlocks := (rxBlocks (rx s))
                       (grpID \<mapsto> b\<lparr>rx_LQRReported := True\<rparr>)\<rparr>\<rparr>;
                s2 = sendPacketDirect now (lqr_packet (StreamID (par s)) grpID (report_losses b)) s1
            in s2\<lparr>nakTimers := nakTimers s2 @ [grpID]\<rparr>)"

text \<open>
  One iteration of the NAK loop. The lock is released around each NAK; a shard stored in the
  meantime only spares the NAKs that are still due.
\<close>

definition nak_one :: "int \<Rightarrow> RxBlock \<Rightarrow> nat \<Rightarrow> 'enc Session \<Rightarrow> 'enc Session" where
  "nak_one now b i s =
     (if rx_Packets b ! i = None
      then sendPacketDirect now (nak_packet (StreamID (par s)) (rx_SeqNums b ! i)) s
      else s)"

definition sendNakPeriodic :: "int \<Rightarrow> u16 \<Rightarrow> 'enc Session \<Rightarrow> go_panic + 'enc Session" where
  "sendNakPeriodic now grpID s =
     (let s0 = s\<lparr>nakTimers := remove1 grpID (nakTimers s)\<rparr> in
      if ctxDone s then Inr s0
      else case rxBlocks (rx s) grpID of
          None \<Rightarrow> Inr s0
        | Some b \<Rightarrow>
            if rx_Decoded b then Inr s0
            else if rx_ReceivedCnt b < rx_K b \<and> int (length (rx_Packets b)) < rx_K b
              then Inl IndexOutOfRange
            else
              let s1 = (if rx_ReceivedCnt b < rx_K b
                        then fold (nak_one now b) [0..<nat (rx_K b)] s0 else s0)
              in Inr (s1\<lparr>nakTimers := nakTimers s1 @ [grpID]\<rparr>))"

section \<open>Writing to TCP\<close>

text \<open>The bytes the write loop extracts from one data shard.\<close>

definition deframe :: "slice \<Rightarrow> bytes" where
  "deframe s = (case s of None \<Rightarrow> []
     | Some payload \<Rightarrow>
         if length payload < 2 then []
         else let dataLen = unat (Uint16 (payload ! 0) (payload ! 1)) in
           if dataLen > 0 \<and> 2 + dataLen \<le> length payload then take dataLen (drop 2 payload) else [])"

text \<open>
  The writes of one block. The next element of the list of outcomes says how \<^verbatim>\<open>Conn.Write\<close> ends:
  \<open>None\<close> (or no element left) is success, \<open>Some n\<close> an error after \<open>n\<close> bytes, which ends the loop.
\<close>

fun write_shards :: "nat option list \<Rightarrow> slice list \<Rightarrow> bytes list \<times> bool" where
  "write_shards res [] = ([], True)"
| "write_shards res (s # ss) =
     (if deframe s = [] then write_shards res ss
      else case res of
          Some n # _ \<Rightarrow> ([take n (deframe s)], False)
        | _ \<Rightarrow> (let (out, ok) = write_shards (tl res) ss in (deframe s # out, ok)))"

datatype write_choice = WriteExit | WriteBlock RxBlock | WriteWait

text \<open>The inner loop of \<^verbatim>\<open>writeTCPRun\<close>: what it does on waking up.\<close>

definition write_decide :: "'enc Session \<Rightarrow> write_choice" where
  "write_decide s =
     (if ctxDone s then WriteExit
      else case rxBlocks (rx s) (nextWriteGrp (rx s)) of
          Some b \<Rightarrow> if rx_Decoded b then WriteBlock b
                    else if closeRecv (tx s) \<and> (\<not> hasRecv (rx s)
                            \<or> grp_after (nextWriteGrp (rx s)) (maxRecvGrp (rx s)))
                      then WriteExit else WriteWait
        | None \<Rightarrow> if closeRecv (tx s) \<and> (\<not> hasRecv (rx s)
                      \<or> grp_after (nextWriteGrp (rx s)) (maxRecvGrp (rx s)))
                  then WriteExit else WriteWait)"

text \<open>The deferred function of \<^verbatim>\<open>writeTCPRun\<close>.\<close>

definition write_exit :: "'enc Session \<Rightarrow> 'enc Session" where
  "write_exit s = s\<lparr>rx := (rx s)\<lparr>recvClosed := True\<rparr>, connWriteClosed := True\<rparr>"

text \<open>After a block was written: report it if that is still due, drop it, move on.\<close>

definition write_finish :: "int \<Rightarrow> 'enc Session \<Rightarrow> 'enc Session" where
  "write_finish now s =
     (let s1 = updateLastActive now s;
          g = nextWriteGrp (rx s1);
          s2 = (case rxBlocks (rx s1) g of
                  Some b \<Rightarrow> if rx_LQRReported b then s1 else handleLQRTimeout now g s1
                | None \<Rightarrow> s1)
      in s2\<lparr>rx := (rx s2)\<lparr>rxBlocks := (rxBlocks (rx s2))(g := None), nextWriteGrp := g + 1\<rparr>\<rparr>)"

text \<open>One round of \<^verbatim>\<open>writeTCPRun\<close>.\<close>

definition write_step :: "nat option list \<Rightarrow> int \<Rightarrow> 'enc Session \<Rightarrow> go_panic + 'enc Session" where
  "write_step res now s =
     (case write_decide s of
        WriteExit \<Rightarrow> Inr (write_exit s)
      | WriteWait \<Rightarrow> Inr s
      | WriteBlock b \<Rightarrow>
          (if int (length (rx_Packets b)) < rx_K b then Inl IndexOutOfRange
           else
             let (out, ok) = write_shards res (take (nat (rx_K b)) (rx_Packets b));
                 s1 = s\<lparr>tcpOut := tcpOut s @ out\<rparr>
             in Inr (if ok then write_finish now s1 else write_exit s1)))"

section \<open>Shape of receive blocks\<close>

text \<open>
  A block of a session with \<open>k\<close> data shards: room for at least the configured shards, the
  static sequence numbers, and a count of received shards that matches the slots until the
  block is decoded.
\<close>

definition block_wf :: "nat \<Rightarrow> nat \<Rightarrow> u16 \<Rightarrow> RxBlock \<Rightarrow> bool" where
  "block_wf k mx g b \<longleftrightarrow> rx_GroupID b = g \<and> rx_K b = int k \<and> k + mx \<le> length (rx_Packets b)
     \<and> rx_SeqNums b = static_seqs g (int k) \<and> 0 \<le> rx_ReceivedCnt b
     \<and> (\<not> rx_Decoded b \<longrightarrow> rx_ReceivedCnt b = int (present (rx_Packets b)))"

definition recv_wf :: "nat \<Rightarrow> nat \<Rightarrow> 'enc Session \<Rightarrow> bool" where
  "recv_wf k mx s \<longleftrightarrow> FEC_K (par s) = int k \<and> FEC_M (par s) = int mx
     \<and> (\<forall>g b. rxBlocks (rx s) g = Some b \<longrightarrow> block_wf k mx g b)"

lemma length_static_seqs [simp]: "length (static_seqs g k) = nat k"
  by (simp add: static_seqs_def Let_def)

lemma new_rx_block_wf:
  assumes "FEC_K pr = int k" and "FEC_M pr = int mx"
  obtains b where "new_rx_block pr g = Inr b" and "block_wf k mx g b"
    and "rx_Packets b = replicate (k + mx) None" and "\<not> rx_Decoded b"
proof -
  have "filter (\<lambda>s. s \<noteq> None) (replicate n (None :: slice)) = []" for n
    by (simp add: filter_empty_conv)
  then show thesis
    using that assms by (simp add: new_rx_block_def block_wf_def Let_def present_def nat_add_distrib)
qed

lemma present_Nil [simp]: "present [] = 0"
  by (simp add: present_def)

lemma present_append [simp]: "present (xs @ ys) = present xs + present ys"
  by (simp add: present_def)

lemma present_replicate_None [simp]: "present (replicate n None) = 0"
  by (simp add: present_def filter_empty_conv)

lemma present_Cons [simp]: "present (s # ss) = (if s = None then 0 else 1) + present ss"
  by (simp add: present_def)

lemma present_update:
  "i < length ss \<Longrightarrow> ss ! i = None \<Longrightarrow> present (ss[i := Some p]) = present ss + 1"
proof (induction ss arbitrary: i)
  case (Cons s ss)
  then show ?case by (cases i) simp_all
qed simp

lemma grow_block_wf: "block_wf k mx g b \<Longrightarrow> block_wf k mx g (grow_block i b)"
  by (auto simp: grow_block_def block_wf_def)

lemma grow_block_length: "i < length (rx_Packets (grow_block i b))"
  by (simp add: grow_block_def)

lemma store_shard_wf:
  assumes "block_wf k mx g b" and "i < length (rx_Packets b)"
  shows "block_wf k mx g (store_shard i (Some p) b)"
  using assms by (auto simp: store_shard_def block_wf_def present_update)

lemma length_fill_data [simp]: "length (fill_data k shards ps) = length ps"
  by (simp add: fill_data_def)

lemma nth_fill_data:
  "i < length ps \<Longrightarrow> fill_data k shards ps ! i = (if i < k \<and> ps ! i = None then shards ! i else ps ! i)"
  by (simp add: fill_data_def)

lemma tryDecodeBlock_wf:
  assumes "block_wf k mx g b"
  shows "\<exists>f' b'. tryDecodeBlock rs f b = (f', Inr b') \<and> block_wf k mx g b'
     \<and> rx_LQRReported b' = rx_LQRReported b \<and> rx_ReceivedCnt b' = rx_ReceivedCnt b"
  using assms
  by (simp add: tryDecodeBlock_def block_wf_def Let_def split: prod.splits sum.splits)

lemma fec_inv_tryDecodeBlock: "fec_inv rs f \<Longrightarrow> fec_inv rs (fst (tryDecodeBlock rs f b))"
proof -
  assume inv: "fec_inv rs f"
  have "fec_inv rs f'" if "Reconstruct rs f (rx_K b) m ss = (f', r)" for m ss f' r
    using fec_inv_Reconstruct [OF inv, of "rx_K b" m ss] that by simp
  with inv show ?thesis
    by (auto simp: tryDecodeBlock_def Let_def split: prod.splits sum.splits)
qed

section \<open>Accepting a shard\<close>

text \<open>The block a shard goes to: the existing one or a fresh one.\<close>

definition target_block :: "'enc Session \<Rightarrow> u16 \<Rightarrow> go_panic + RxBlock" where
  "target_block s g = (case rxBlocks (rx s) g of Some b \<Rightarrow> Inr b | None \<Rightarrow> new_rx_block (par s) g)"

definition decode_due :: "RxBlock \<Rightarrow> bool" where
  "decode_due b \<longleftrightarrow> rx_ReceivedCnt b \<ge> rx_K b \<and> \<not> rx_Decoded b"

definition maybe_decode ::
  "('enc, 'e) reedsolomon \<Rightarrow> 'enc FEC \<Rightarrow> RxBlock \<Rightarrow> 'enc FEC \<times> (go_panic + RxBlock)" where
  "maybe_decode rs f b = (if decode_due b then tryDecodeBlock rs f b else (f, Inr b))"

lemma note_group_fields [simp]:
  "nextWriteGrp (note_group g r) = nextWriteGrp r"
  "rxBlocks (note_group g r) = rxBlocks r"
  "recvClosed (note_group g r) = recvClosed r"
  "hasRecv (note_group g r)"
  by (simp_all add: note_group_def)

lemma target_block_wf:
  assumes "recv_wf k mx s"
  obtains b where "target_block s g = Inr b" and "block_wf k mx g b"
proof (cases "rxBlocks (rx s) g")
  case None
  from assms have "FEC_K (par s) = int k" "FEC_M (par s) = int mx"
    by (simp_all add: recv_wf_def)
  then obtain b where "new_rx_block (par s) g = Inr b" "block_wf k mx g b"
    by (rule new_rx_block_wf)
  with None that show thesis by (simp add: target_block_def)
next
  case (Some b)
  with assms that show thesis by (simp add: target_block_def recv_wf_def)
qed

lemma maybe_decode_wf:
  assumes "block_wf k mx g b"
  shows "\<exists>f' b'. maybe_decode rs f b = (f', Inr b') \<and> block_wf k mx g b'
     \<and> rx_LQRReported b' = rx_LQRReported b \<and> rx_ReceivedCnt b' = rx_ReceivedCnt b"
  using tryDecodeBlock_wf [OF assms, of rs f] assms by (auto simp: maybe_decode_def)

lemma fec_inv_maybe_decode: "fec_inv rs f \<Longrightarrow> fec_inv rs (fst (maybe_decode rs f b))"
  by (simp add: maybe_decode_def fec_inv_tryDecodeBlock)

lemma HandleDataPacket_accept:
  assumes "\<not> recvClosed (rx s)" and "\<not> grp_after (nextWriteGrp (rx s)) (pGroupID p)"
    and "target_block s (pGroupID p) = Inr b"
    and "maybe_decode rs (coder s)
           (store_shard (unat (pIdx p)) (pPayload p) (grow_block (unat (pIdx p)) b)) = (f, Inr b')"
  shows "HandleDataPacket rs now p s = Inr ((updateLastActive now s)\<lparr>coder := f,
    rx := (note_group (pGroupID p) (rx s))\<lparr>rxBlocks := (rxBlocks (rx s))(pGroupID p \<mapsto> b')\<rparr>\<rparr>)"
proof -
  let ?b2 = "store_shard (unat (pIdx p)) (pPayload p) (grow_block (unat (pIdx p)) b)"
  have t: "(case rxBlocks (rx s) (pGroupID p) of None \<Rightarrow> new_rx_block (par s) (pGroupID p)
      | Some b \<Rightarrow> Inr b) = Inr b"
    using assms(3) by (simp add: target_block_def)
  show ?thesis
  proof (cases "decode_due ?b2")
    case True
    then have "rx_ReceivedCnt ?b2 \<ge> rx_K ?b2 \<and> \<not> rx_Decoded ?b2"
      and "tryDecodeBlock rs (coder s) ?b2 = (f, Inr b')"
      using assms(4) by (simp_all add: maybe_decode_def decode_due_def)
    with t assms(1,2) show ?thesis
      by (cases "rxBlocks (rx s) (pGroupID p)") (auto simp: HandleDataPacket_def Let_def)
  next
    case False
    then have "\<not> (rx_ReceivedCnt ?b2 \<ge> rx_K ?b2 \<and> \<not> rx_Decoded ?b2)" "f = coder s" "b' = ?b2"
      using assms(4) by (auto simp: maybe_decode_def decode_due_def)
    with t assms(1,2) show ?thesis
      by (cases "rxBlocks (rx s) (pGroupID p)") (auto simp: HandleDataPacket_def Let_def)
  qed
qed

text \<open>The three outcomes of \<^verbatim>\<open>HandleDataPacket\<close> on a well-formed receiver.\<close>

lemma HandleDataPacket_cases:
  assumes "recv_wf k mx s" and "pPayload p = Some q"
  obtains
    (closed) "recvClosed (rx s)" and "HandleDataPacket rs now p s = Inr (updateLastActive now s)"
  | (old) "\<not> recvClosed (rx s)" and "grp_after (nextWriteGrp (rx s)) (pGroupID p)"
      and "HandleDataPacket rs now p s =
        Inr ((updateLastActive now s)\<lparr>rx := note_group (pGroupID p) (rx s)\<rparr>)"
  | (accept) b f b' where "\<not> recvClosed (rx s)"
      and "\<not> grp_after (nextWriteGrp (rx s)) (pGroupID p)"
      and "target_block s (pGroupID p) = Inr b" and "block_wf k mx (pGroupID p) b"
      and "maybe_decode rs (coder s)
             (store_shard (unat (pIdx p)) (Some q) (grow_block (unat (pIdx p)) b)) = (f, Inr b')"
      and "block_wf k mx (pGroupID p) b'"
      and "rx_LQRReported b' = rx_LQRReported b"
      and "HandleDataPacket rs now p s =
        Inr ((updateLastActive now s)\<lparr>coder := f,
          rx := (note_group (pGroupID p) (rx s))
            \<lparr>rxBlocks := (rxBlocks (rx s))(pGroupID p \<mapsto> b')\<rparr>\<rparr>)"
proof (cases "recvClosed (rx s)")
  case True
  then show thesis using closed by (simp add: HandleDataPacket_def)
next
  case open': False
  let ?g = "pGroupID p" and ?i = "unat (pIdx p)"
  show thesis
  proof (cases "grp_after (nextWriteGrp (rx s)) ?g")
    case True
    with open' show thesis using old by (simp add: HandleDataPacket_def Let_def)
  next
    case False
    from assms(1) obtain b where b: "target_block s ?g = Inr b" "block_wf k mx ?g b"
      by (rule target_block_wf)
    let ?b2 = "store_shard ?i (Some q) (grow_block ?i b)"
    have "block_wf k mx ?g ?b2"
      using b(2) by (intro store_shard_wf grow_block_wf grow_block_length)
    then obtain f b' where d: "maybe_decode rs (coder s) ?b2 = (f, Inr b')" "block_wf k mx ?g b'"
      and "rx_LQRReported b' = rx_LQRReported ?b2"
      using maybe_decode_wf by blast
    then have "rx_LQRReported b' = rx_LQRReported b"
      by (simp add: store_shard_def grow_block_def)
    moreover have "HandleDataPacket rs now p s =
        Inr ((updateLastActive now s)\<lparr>coder := f,
          rx := (note_group ?g (rx s))\<lparr>rxBlocks := (rxBlocks (rx s))(?g \<mapsto> b')\<rparr>\<rparr>)"
      using open' False b(1) d(1) assms(2) by (intro HandleDataPacket_accept) simp_all
    ultimately show thesis
      using open' False b d by (intro accept) simp_all
  qed
qed

lemma HandleDataPacket_wf:
  assumes "recv_wf k mx s" and "pPayload p = Some q"
  shows "\<exists>s'. HandleDataPacket rs now p s = Inr s' \<and> recv_wf k mx s'"
  using assms
  by (cases rule: HandleDataPacket_cases [where rs = rs and now = now])
    (use assms(1) in \<open>auto simp: recv_wf_def\<close>)

section \<open>Decoding\<close>

text \<open>
  The shards of the block with padded data \<open>pd\<close> as they travel: data shards at their own
  length, parity shards at the length of the longest.
\<close>

definition code_shard :: "(bytes list \<Rightarrow> bytes list) \<Rightarrow> nat \<Rightarrow> nat \<Rightarrow> bytes list \<Rightarrow> nat \<Rightarrow> bytes" where
  "code_shard parity k mx pd i = (if i < k then pd ! i else block_parity parity k mx pd ! (i - k))"

text \<open>
  A receive block that holds only shards of that block. Reconstructed data shards come
  zero-padded, and appear in decoded blocks only.
\<close>

definition holds_shard ::
  "(bytes list \<Rightarrow> bytes list) \<Rightarrow> nat \<Rightarrow> nat \<Rightarrow> bytes list \<Rightarrow> bool \<Rightarrow> nat \<Rightarrow> slice \<Rightarrow> bool" where
  "holds_shard parity k mx pd decoded i s \<longleftrightarrow>
     s = None \<or> s = Some (code_shard parity k mx pd i)
     \<or> (decoded \<and> i < k \<and> s = Some (padded (shard_len pd) (pd ! i)))"

definition rx_matches ::
  "(bytes list \<Rightarrow> bytes list) \<Rightarrow> nat \<Rightarrow> nat \<Rightarrow> bytes list \<Rightarrow> RxBlock \<Rightarrow> bool" where
  "rx_matches parity k mx pd b \<longleftrightarrow> length (rx_Packets b) = k + mx
     \<and> (\<forall>i < k + mx. holds_shard parity k mx pd (rx_Decoded b) i (rx_Packets b ! i))
     \<and> (rx_Decoded b \<longrightarrow> (\<forall>i < k. rx_Packets b ! i \<noteq> None))"

lemma slice_max_ge_acc: "acc \<le> slice_max ss acc"
proof (induction ss arbitrary: acc)
  case (Cons s ss)
  show ?case
  proof (cases s)
    case (Some p)
    show ?thesis
      using Cons.IH [of acc] Cons.IH [of "length p"] Some by simp
  qed (simp add: Cons.IH)
qed simp

lemma slice_max_ge: "Some p \<in> set ss \<Longrightarrow> length p \<le> slice_max ss acc"
proof (induction ss arbitrary: acc)
  case (Cons s ss)
  show ?case
  proof (cases s)
    case None
    then show ?thesis using Cons by simp
  next
    case (Some r)
    show ?thesis
      using Cons slice_max_ge_acc [of "length p" ss] slice_max_ge_acc [of acc ss] Some by auto
  qed
qed simp

lemma slice_max_le:
  "(\<And>p. Some p \<in> set ss \<Longrightarrow> length p \<le> n) \<Longrightarrow> acc \<le> n \<Longrightarrow> slice_max ss acc \<le> n"
proof (induction ss arbitrary: acc)
  case (Cons s ss)
  show ?case
  proof (cases s)
    case None
    then show ?thesis using Cons by simp
  next
    case (Some r)
    then show ?thesis using Cons.IH [of "if length r > acc then length r else acc"] Cons.prems by simp
  qed
qed simp

lemma slice_max_eq:
  assumes "Some p \<in> set ss" and "length p = n" and "\<And>r. Some r \<in> set ss \<Longrightarrow> length r \<le> n"
  shows "slice_max ss 0 = n"
  using slice_max_ge [OF assms(1), of 0] slice_max_le [of ss n 0] assms by force

text \<open>With \<open>k\<close> shards present and a data shard missing, some parity shard is present.\<close>

lemma parity_present:
  assumes "k \<le> present ss" and "i < k" and "k \<le> length ss" and "ss ! i = None"
  obtains j where "k \<le> j" and "j < length ss" and "ss ! j \<noteq> None"
proof -
  have "present (take k ss) < k"
  proof -
    have "None \<in> set (take k ss)"
      using assms by (metis in_set_conv_nth length_take min.absorb2 nth_take)
    then have "length (filter (\<lambda>s. s \<noteq> None) (take k ss)) < length (take k ss)"
      by (intro length_filter_less) auto
    with assms(3) show ?thesis by (simp add: present_def)
  qed
  moreover have "present ss = present (take k ss) + present (drop k ss)"
    by (metis append_take_drop_id present_append)
  ultimately have "present (drop k ss) \<noteq> 0"
    using assms(1) by simp
  then have "\<exists>s \<in> set (drop k ss). s \<noteq> None"
    by (auto simp: present_def filter_empty_conv)
  then obtain j where "j < length (drop k ss)" "drop k ss ! j \<noteq> None"
    by (metis in_set_conv_nth)
  then show thesis
    using that [of "k + j"] assms(3) by simp
qed

lemma all_data_iff:
  assumes "rx_K b = int k" and "k \<le> length (rx_Packets b)"
  shows "all_data b \<longleftrightarrow> (\<forall>i < k. rx_Packets b ! i \<noteq> None)"
proof -
  have "length (filter P xs) = length xs \<longleftrightarrow> (\<forall>x \<in> set xs. P x)" for P and xs :: "slice list"
    using length_filter_less [of _ xs P] by (metis filter_True less_irrefl)
  from this [of "\<lambda>p. p \<noteq> None" "take k (rx_Packets b)"]
  have "length (filter (\<lambda>p. p \<noteq> None) (take k (rx_Packets b))) = k
      \<longleftrightarrow> (\<forall>p \<in> set (take k (rx_Packets b)). p \<noteq> None)"
    using assms(2) by simp
  also have "\<dots> \<longleftrightarrow> (\<forall>i < k. rx_Packets b ! i \<noteq> None)"
    using assms(2) by (auto simp: all_set_conv_all_nth)
  finally show ?thesis
    using assms(1) by (simp add: all_data_def)
qed

lemma code_shard_length:
  assumes "rs_family rs k mx parity" and "length pd = k" and "i < k + mx"
  shows "length (code_shard parity k mx pd i) \<le> shard_len pd"
    and "k \<le> i \<Longrightarrow> length (code_shard parity k mx pd i) = shard_len pd"
proof -
  have "length (code_shard parity k mx pd i) = shard_len pd" if "k \<le> i"
  proof -
    have "i - k < length (block_parity parity k mx pd)"
      using assms that length_block_parity(1) [OF assms(1) order_refl] by simp
    then show ?thesis
      using that length_block_parity(2) [OF assms(1) order_refl nth_mem]
      by (simp add: code_shard_def)
  qed
  moreover have "length (code_shard parity k mx pd i) \<le> shard_len pd" if "i < k"
    using that assms(2) length_le_shard_len [of "pd ! i" pd] by (simp add: code_shard_def)
  ultimately show "length (code_shard parity k mx pd i) \<le> shard_len pd"
    and "k \<le> i \<Longrightarrow> length (code_shard parity k mx pd i) = shard_len pd"
    by (cases "i < k"; simp)+
qed

text \<open>
  The core of reconstruction: \<open>k\<close> of the block's shards, however chosen, are padded to the
  block's code word with the missing shards erased.
\<close>

lemma padded_shards_erased:
  assumes fam: "rs_family rs k mx parity" and pd: "length pd = k"
    and len: "length ss = k + mx"
    and ss: "\<And>i. i < k + mx \<Longrightarrow> ss ! i = None \<or> ss ! i = Some (code_shard parity k mx pd i)"
  shows "erased_from (data_shards k (shard_len pd) pd @ block_parity parity k mx pd)
     (map (pad_slice (shard_len pd)) ss)"
proof -
  let ?n = "shard_len pd" and ?B = "block_parity parity k mx pd"
  have B: "length ?B = mx"
    by (rule length_block_parity(1) [OF fam order_refl])
  have "pad_slice ?n (ss ! i) = None \<or> pad_slice ?n (ss ! i) = Some ((data_shards k ?n pd @ ?B) ! i)"
    if i: "i < k + mx" for i
  proof (cases "ss ! i")
    case (Some p)
    with ss [OF i] have p: "p = code_shard parity k mx pd i" by simp
    have "length p \<le> ?n" and eq: "k \<le> i \<Longrightarrow> length p = ?n"
      using code_shard_length [OF fam pd i] p by simp_all
    then have "pad_slice ?n (Some p) = Some (padded ?n p)"
      by (simp add: pad_slice_def)
    moreover have "padded ?n p = (data_shards k ?n pd @ ?B) ! i"
      using p eq pd by (cases "i < k") (simp_all add: code_shard_def nth_append nth_data_shards)
    ultimately show ?thesis using Some by simp
  qed (simp add: pad_slice_def)
  with B len show ?thesis
    by (auto simp: erased_from_def list_all2_conv_all_nth)
qed

lemma present_pad_slice [simp]: "present (map (pad_slice n) ss) = present ss"
  by (induction ss) (auto simp: pad_slice_def split: option.splits)

lemma undecoded_holds:
  "rx_matches parity k mx pd b \<Longrightarrow> \<not> rx_Decoded b \<Longrightarrow> i < k + mx \<Longrightarrow>
     rx_Packets b ! i = None \<or> rx_Packets b ! i = Some (code_shard parity k mx pd i)"
  by (auto simp: rx_matches_def holds_shard_def)

lemma slice_max_block:
  assumes fam: "rs_family rs k mx parity" and pd: "length pd = k"
    and m: "rx_matches parity k mx pd b" "\<not> rx_Decoded b"
    and miss: "i < k" "rx_Packets b ! i = None" and cnt: "k \<le> present (rx_Packets b)"
  shows "slice_max (rx_Packets b) 0 = shard_len pd"
proof -
  let ?ss = "rx_Packets b"
  have len: "length ?ss = k + mx"
    using m(1) by (simp add: rx_matches_def)
  obtain j where j: "k \<le> j" "j < k + mx" "?ss ! j \<noteq> None"
    using parity_present [OF cnt miss(1) _ miss(2)] len by auto
  then have sj: "?ss ! j = Some (code_shard parity k mx pd j)"
    using undecoded_holds [OF m j(2)] by auto
  show ?thesis
  proof (rule slice_max_eq)
    show "Some (code_shard parity k mx pd j) \<in> set ?ss"
      using sj j(2) len by (metis nth_mem)
    show "length (code_shard parity k mx pd j) = shard_len pd"
      by (rule code_shard_length(2) [OF fam pd j(2,1)])
    fix r assume "Some r \<in> set ?ss"
    then obtain i where i: "i < k + mx" "?ss ! i = Some r"
      using len by (metis in_set_conv_nth)
    then have "r = code_shard parity k mx pd i"
      using undecoded_holds [OF m i(1)] by simp
    then show "length r \<le> shard_len pd"
      using code_shard_length(1) [OF fam pd i(1)] by simp
  qed
qed

text \<open>
  Once \<open>k\<close> shards are present, decoding succeeds, and the data shards it leaves in place are
  the block's own.
\<close>

lemma tryDecodeBlock_recovers:
  assumes fam: "rs_family rs k mx parity" and pd: "length pd = k" and inv: "fec_inv rs f"
    and wf: "block_wf k mx g b" and m: "rx_matches parity k mx pd b" and due: "decode_due b"
  obtains f' b' where "tryDecodeBlock rs f b = (f', Inr b')" and "rx_Decoded b'"
    and "rx_matches parity k mx pd b'" and "fec_inv rs f'"
proof -
  have und: "\<not> rx_Decoded b" and K: "rx_K b = int k" and len: "length (rx_Packets b) = k + mx"
    and cnt: "k \<le> present (rx_Packets b)"
    using wf m due by (auto simp: block_wf_def rx_matches_def decode_due_def)
  have kl: "k \<le> length (rx_Packets b)" using len by simp
  note ad = all_data_iff [OF K kl]
  have f': "fec_inv rs (fst (tryDecodeBlock rs f b))"
    by (rule fec_inv_tryDecodeBlock [OF inv])
  show thesis
  proof (cases "all_data b")
    case True
    then have t: "tryDecodeBlock rs f b = (f, Inr (b\<lparr>rx_Decoded := True\<rparr>))"
      using K len by (simp add: tryDecodeBlock_def)
    moreover have "rx_matches parity k mx pd (b\<lparr>rx_Decoded := True\<rparr>)"
      using m True ad by (auto simp: rx_matches_def holds_shard_def)
    ultimately show thesis using that inv by simp
  next
    case False
    then obtain i where i: "i < k" "rx_Packets b ! i = None"
      using ad by auto
    let ?D = "data_shards k (shard_len pd) pd" and ?n = "shard_len pd"
    let ?ss = "map (pad_slice ?n) (rx_Packets b)"
    have nz: "?n \<noteq> 0"
      using shard_len_pos [of pd] by linarith
    have max: "slice_max (rx_Packets b) 0 = ?n"
      by (rule slice_max_block [OF fam pd m und i cnt])
    have "0 < mx"
      using parity_present [OF cnt i(1) kl i(2)] len by fastforce
    then have code: "rs_code rs k mx (\<lambda>data. take mx (parity data))"
      using fam by (simp add: rs_family_def)
    have er: "erased_from (?D @ take mx (parity ?D)) ?ss"
      using padded_shards_erased [OF fam pd len undecoded_holds [OF m und]]
      by (simp add: block_parity_def)
    obtain f1 r where r: "Reconstruct rs f (int k) (int mx) ?ss = (f1, r)" by fastforce
    with Reconstruct_recovers [OF code inv \<open>0 < mx\<close> shard_len_pos _ uniform_data_shards er] cnt
    have rr: "r = Inr (map Some (?D @ take mx (parity ?D)))" by simp
    let ?ps = "fill_data k (map Some (?D @ take mx (parity ?D))) (rx_Packets b)"
    have t: "tryDecodeBlock rs f b = (f1, Inr (b\<lparr>rx_Packets := ?ps, rx_Decoded := True\<rparr>))"
      using False K len max r rr by (simp add: tryDecodeBlock_def Let_def nz)
    moreover have "rx_matches parity k mx pd (b\<lparr>rx_Packets := ?ps, rx_Decoded := True\<rparr>)"
      using m und pd len
      by (auto simp: rx_matches_def holds_shard_def nth_fill_data nth_append nth_data_shards)
    ultimately show thesis using that f' by simp
  qed
qed

section \<open>Framing\<close>

text \<open>
  The write loop extracts from a shard, padded or not, the bytes that were framed.
\<close>

lemma deframe_frame:
  assumes "length d < 65536"
  shows "deframe (Some (frame d @ replicate n 0)) = d"
proof -
  obtain v :: u16 where v: "v = of_nat (length d)" by blast
  then have "unat v = length d"
    using assms by (simp add: unat_of_nat)
  moreover have "frame d = ucast (drop_bit 8 v) # ucast v # d"
    by (simp add: frame_def PutUint16_def v)
  ultimately show ?thesis
    by (auto simp: deframe_def Let_def)
qed

lemma padding_is_frame: "padding_shard = frame []"
  by (simp add: padding_shard_def frame_def PutUint16_def)

text \<open>The shards a sender puts into a block, and the bytes they carry.\<close>

definition framed :: "bytes \<Rightarrow> bool" where
  "framed x \<longleftrightarrow> (\<exists>d. length d < 65536 \<and> x = frame d)"

definition block_bytes :: "bytes list \<Rightarrow> bytes" where
  "block_bytes pd = concat (map (\<lambda>x. deframe (Some x)) pd)"

lemma deframe_padded_framed:
  assumes "framed x" and "length x \<le> n"
  shows "deframe (Some (padded n x)) = deframe (Some x)"
proof -
  from assms(1) obtain d where d: "length d < 65536" "x = frame d"
    by (auto simp: framed_def)
  show ?thesis
    using deframe_frame [OF d(1), of "n - length x"] deframe_frame [OF d(1), of 0] assms(2)
    by (simp add: padded_ge d(2))
qed

lemma block_bytes_pad_block [simp]: "block_bytes (pad_block k pd) = block_bytes pd"
proof -
  have "deframe (Some padding_shard) = []"
    using deframe_frame [of "[]" 0] by (simp add: padding_is_frame)
  then show ?thesis
    by (simp add: block_bytes_def pad_block_def)
qed

lemma block_bytes_append: "block_bytes (xs @ ys) = block_bytes xs @ block_bytes ys"
  by (simp add: block_bytes_def)

lemma block_bytes_frame: "length d < 65536 \<Longrightarrow> block_bytes [frame d] = d"
  using deframe_frame [of d 0] by (simp add: block_bytes_def)

text \<open>A decoded block yields the bytes of its sender's block.\<close>

lemma decoded_deframe:
  assumes "rx_matches parity k mx pd b" and "rx_Decoded b" and "length pd = k"
    and "list_all framed pd"
  shows "map deframe (take k (rx_Packets b)) = map (\<lambda>x. deframe (Some x)) pd"
proof (rule nth_equalityI)
  show "length (map deframe (take k (rx_Packets b))) = length (map (\<lambda>x. deframe (Some x)) pd)"
    using assms by (simp add: rx_matches_def)
  fix i assume "i < length (map deframe (take k (rx_Packets b)))"
  then have i: "i < k" by simp
  have "deframe (rx_Packets b ! i) = deframe (Some (pd ! i))"
  proof -
    have "pd ! i \<in> set pd" using i assms(3) by simp
    then have "framed (pd ! i)" "length (pd ! i) \<le> shard_len pd"
      using assms(4) by (auto simp: list_all_iff length_le_shard_len)
    then have "deframe (Some (padded (shard_len pd) (pd ! i))) = deframe (Some (pd ! i))"
      by (rule deframe_padded_framed)
    moreover have "holds_shard parity k mx pd True i (rx_Packets b ! i)" "rx_Packets b ! i \<noteq> None"
      using assms(1,2) i by (auto simp: rx_matches_def)
    then have "rx_Packets b ! i = Some (pd ! i)
        \<or> rx_Packets b ! i = Some (padded (shard_len pd) (pd ! i))"
      using i by (auto simp: holds_shard_def code_shard_def)
    ultimately show ?thesis by auto
  qed
  then show "map deframe (take k (rx_Packets b)) ! i = map (\<lambda>x. deframe (Some x)) pd ! i"
    using i assms by (simp add: rx_matches_def)
qed


section \<open>Writing a block\<close>

lemma write_shards_ok:
  "deframe s \<noteq> [] \<Longrightarrow> res = [] \<or> hd res = None \<Longrightarrow> write_shards res (s # ss) =
     (deframe s # fst (write_shards (tl res) ss), snd (write_shards (tl res) ss))"
  by (cases res) (auto split: option.splits prod.splits)

lemma write_shards_prefix: "prefix (concat (fst (write_shards res ss))) (concat (map deframe ss))"
proof (induction ss arbitrary: res)
  case (Cons s ss)
  consider (skip) "deframe s = []" | (ok) "deframe s \<noteq> []" "res = [] \<or> hd res = None"
    | (fail) n r where "deframe s \<noteq> []" "res = Some n # r"
    by (cases res) auto
  then show ?case
  proof cases
    case fail
    then show ?thesis
      by (auto intro: prefixI [of _ _ "drop n (deframe s) @ concat (map deframe ss)"])
  qed (use Cons.IH write_shards_ok [of s res ss] in simp_all)
qed simp

lemma write_shards_complete:
  "snd (write_shards res ss) \<Longrightarrow> concat (fst (write_shards res ss)) = concat (map deframe ss)"
proof (induction res ss rule: write_shards.induct)
  case (2 res s ss)
  then show ?case
    by (auto split: list.splits option.splits prod.splits if_splits)
qed simp

lemma write_shards_succeed: "snd (write_shards [] ss)"
  by (induction ss) (auto split: prod.splits)

section \<open>Shards accumulate\<close>

lemma grow_block_id: "i < length (rx_Packets b) \<Longrightarrow> grow_block i b = b"
  by (simp add: grow_block_def)

lemma store_shard_matches:
  assumes "rx_matches parity k mx pd b" and "i < k + mx"
  shows "rx_matches parity k mx pd (store_shard i (Some (code_shard parity k mx pd i)) b)"
  using assms
  by (auto simp: rx_matches_def store_shard_def holds_shard_def nth_list_update)

text \<open>A block nothing was stored in yet matches every block of the sender.\<close>

definition blank :: "nat \<Rightarrow> nat \<Rightarrow> RxBlock \<Rightarrow> bool" where
  "blank k mx b \<longleftrightarrow> rx_Packets b = replicate (k + mx) None \<and> \<not> rx_Decoded b"

lemma blank_matches: "blank k mx b \<Longrightarrow> rx_matches parity k mx pd b"
  by (simp add: blank_def rx_matches_def holds_shard_def)

lemma maybe_decode_matches:
  assumes "rs_family rs k mx parity" and "length pd = k" and "fec_inv rs f"
    and "block_wf k mx g b" and "rx_matches parity k mx pd b"
    and "maybe_decode rs f b = (f', Inr b')"
  shows "rx_matches parity k mx pd b'" and "fec_inv rs f'" and "rx_ReceivedCnt b' \<ge> int k \<Longrightarrow> rx_Decoded b'"
proof -
  have "rx_matches parity k mx pd b' \<and> fec_inv rs f' \<and> (rx_ReceivedCnt b' \<ge> int k \<longrightarrow> rx_Decoded b')"
  proof (cases "decode_due b")
    case True
    with assms show ?thesis
      using tryDecodeBlock_recovers [OF assms(1-5) True]
      by (metis (no_types, lifting) Pair_inject maybe_decode_def sum.inject(2))
  next
    case False
    with assms show ?thesis
      by (auto simp: maybe_decode_def decode_due_def block_wf_def)
  qed
  then show "rx_matches parity k mx pd b'" and "fec_inv rs f'"
    and "rx_ReceivedCnt b' \<ge> int k \<Longrightarrow> rx_Decoded b'"
    by simp_all
qed

section \<open>Sequence numbers\<close>

lemma uint_of_nat_u16: "uint (of_nat n :: u16) = int n mod 65536"
  by (simp add: unsigned_of_nat take_bit_eq_mod zmod_int)

lemma of_int_mod_u8: "(of_int (a mod 256) :: u8) = of_int a"
  by (simp add: word_of_int_eq_iff take_bit_eq_mod)

text \<open>The receiver computes from a group number the sequence numbers the sender gave its shards.\<close>

lemma static_seqs_nth:
  assumes "i < k"
  shows "static_seqs (of_nat n) (int k) ! i = of_nat (n * k + i)"
proof -
  have "int n mod 65536 mod 256 = int n mod 256"
    by (rule mod_mod_cancel) simp
  then have "int n mod 65536 * int k mod 256 = int n * int k mod 256"
    by (metis mod_mult_left_eq)
  then have eq: "(int n mod 65536 * int k mod 256 + int i) mod 256 = int (n * k + i) mod 256"
    by (simp add: mod_add_left_eq)
  have "static_seqs (of_nat n) (int k) ! i
      = of_int ((int n mod 65536 * int k mod 256 + int i) mod 256)"
    using assms unfolding static_seqs_def Let_def uint_of_nat_u16 by simp
  also have "\<dots> = of_int (int (n * k + i))"
    unfolding eq by (rule of_int_mod_u8)
  finally show ?thesis by (simp only: of_int_of_nat_eq)
qed

section \<open>Loss reports\<close>

lemma last_present_snoc:
  "last_present (ss @ [s]) i acc = (if s \<noteq> None then i + int (length ss) else last_present ss i acc)"
  by (induction ss arbitrary: i acc) auto

lemma last_present_bounds:
  "-1 \<le> last_present ss 0 (-1)" "last_present ss 0 (-1) < int (length ss)"
  "j < length ss \<Longrightarrow> ss ! j \<noteq> None \<Longrightarrow> int j \<le> last_present ss 0 (-1)"
proof (induction ss arbitrary: j rule: rev_induct)
  case (snoc s ss)
  { case 1 then show ?case using snoc.IH(1) by (simp add: last_present_snoc) }
  { case 2 then show ?case using snoc.IH(2) by (simp add: last_present_snoc) }
  { case 3 then show ?case
      using snoc.IH(3) [of j] by (auto simp: last_present_snoc nth_append split: if_splits) }
qed simp_all

text \<open>The shards a report covers: the data shards and any parity up to the last one seen.\<close>

definition expected_shards :: "RxBlock \<Rightarrow> nat" where
  "expected_shards b =
     (let n = nat (last_present (rx_Packets b) 0 (-1) + 1) in if n > nat (rx_K b) then n else nat (rx_K b))"

definition lost_shards :: "RxBlock \<Rightarrow> nat" where
  "lost_shards b = length (filter (\<lambda>s. s = None) (take (expected_shards b) (rx_Packets b)))"

lemma present_plus_missing: "present ss + length (filter (\<lambda>s. s = None) ss) = length ss"
  by (induction ss) simp_all

lemma report_losses_eq:
  assumes "block_wf k mx g b" and "\<not> rx_Decoded b"
  shows "report_losses b = min 255 (int (lost_shards b))"
proof -
  let ?ss = "rx_Packets b" and ?e = "expected_shards b"
  have K: "rx_K b = int k" and le: "k + mx \<le> length ?ss"
    and cnt: "rx_ReceivedCnt b = int (present ?ss)"
    using assms by (auto simp: block_wf_def)
  have e: "?e \<le> length ?ss"
    using last_present_bounds(1,2) [of ?ss] K le by (auto simp: expected_shards_def Let_def)
  have "s = None" if "s \<in> set (drop ?e ?ss)" for s
  proof -
    from that obtain j where j: "?e \<le> j" "j < length ?ss" "s = ?ss ! j"
      by (auto simp: in_set_conv_nth) (metis add.commute le_add2 less_diff_conv)
    then show ?thesis
      using last_present_bounds(1) [of ?ss] last_present_bounds(3) [of j ?ss]
      by (cases "?ss ! j = None") (auto simp: expected_shards_def Let_def split: if_splits)
  qed
  then have "present (drop ?e ?ss) = 0"
    by (auto simp: present_def filter_empty_conv)
  then have "present ?ss = present (take ?e ?ss)"
    by (metis append_take_drop_id present_append add.right_neutral)
  moreover have "present (take ?e ?ss) + lost_shards b = ?e"
    using present_plus_missing [of "take ?e ?ss"] e by (simp add: lost_shards_def)
  moreover have "(if last_present ?ss 0 (-1) \<ge> rx_K b then last_present ?ss 0 (-1) + 1 else rx_K b) = int ?e"
    using last_present_bounds(1) [of ?ss] K by (auto simp: expected_shards_def Let_def)
  ultimately show ?thesis
    using cnt by (simp add: report_losses_def Let_def)
qed

lemma report_losses_bounds: "0 \<le> report_losses b" "report_losses b \<le> 255"
  by (simp_all add: report_losses_def Let_def)

section \<open>No receiver operation panics\<close>

lemma handleLQRTimeout_frame [simp]:
  "par (handleLQRTimeout now g s) = par s"
  "shp (handleLQRTimeout now g s) = shp s"
  "coder (handleLQRTimeout now g s) = coder s"
  "tx (handleLQRTimeout now g s) = tx s"
  "nextWriteGrp (rx (handleLQRTimeout now g s)) = nextWriteGrp (rx s)"
  "recvClosed (rx (handleLQRTimeout now g s)) = recvClosed (rx s)"
  "maxRecvGrp (rx (handleLQRTimeout now g s)) = maxRecvGrp (rx s)"
  "hasRecv (rx (handleLQRTimeout now g s)) = hasRecv (rx s)"
  "ctxDone (handleLQRTimeout now g s) = ctxDone s"
  "tcpOut (handleLQRTimeout now g s) = tcpOut s" "tcpIn (handleLQRTimeout now g s) = tcpIn s"
  by (simp_all add: handleLQRTimeout_def Let_def split: option.splits)

text \<open>A report changes nothing in a block but its mark.\<close>

lemma handleLQRTimeout_blocks:
  "rxBlocks (rx (handleLQRTimeout now g s)) h =
     (if h = g then map_option (\<lambda>b. b\<lparr>rx_LQRReported := True\<rparr>) (rxBlocks (rx s) g)
      else rxBlocks (rx s) h)"
  by (auto simp: handleLQRTimeout_def Let_def split: option.splits)

lemma handleLQRTimeout_wf: "recv_wf k mx s \<Longrightarrow> recv_wf k mx (handleLQRTimeout now g s)"
  by (auto simp: recv_wf_def handleLQRTimeout_blocks block_wf_def split: if_splits)

lemma write_finish_fields [simp]:
  "par (write_finish now s) = par s"
  "shp (write_finish now s) = shp s"
  "coder (write_finish now s) = coder s"
  "tx (write_finish now s) = tx s"
  "nextWriteGrp (rx (write_finish now s)) = nextWriteGrp (rx s) + 1"
  "recvClosed (rx (write_finish now s)) = recvClosed (rx s)"
  "ctxDone (write_finish now s) = ctxDone s"
  "tcpOut (write_finish now s) = tcpOut s" "tcpIn (write_finish now s) = tcpIn s"
  by (simp_all add: write_finish_def Let_def split: option.splits)

lemma write_finish_blocks:
  "rxBlocks (rx (write_finish now s)) h =
     (if h = nextWriteGrp (rx s) then None else rxBlocks (rx s) h)"
  by (auto simp: write_finish_def Let_def handleLQRTimeout_blocks split: option.splits)

lemma write_finish_wf: "recv_wf k mx s \<Longrightarrow> recv_wf k mx (write_finish now s)"
  by (auto simp: recv_wf_def write_finish_blocks split: if_splits)

lemma write_exit_fields [simp]:
  "par (write_exit s) = par s"
  "shp (write_exit s) = shp s"
  "coder (write_exit s) = coder s"
  "tx (write_exit s) = tx s"
  "rxBlocks (rx (write_exit s)) = rxBlocks (rx s)"
  "nextWriteGrp (rx (write_exit s)) = nextWriteGrp (rx s)"
  "recvClosed (rx (write_exit s))"
  "ctxDone (write_exit s) = ctxDone s"
  "tcpOut (write_exit s) = tcpOut s" "tcpIn (write_exit s) = tcpIn s"
  by (simp_all add: write_exit_def)

lemma write_decide_block:
  "write_decide s = WriteBlock b \<longleftrightarrow>
     \<not> ctxDone s \<and> rxBlocks (rx s) (nextWriteGrp (rx s)) = Some b \<and> rx_Decoded b"
  by (auto simp: write_decide_def split: option.splits if_splits)

text \<open>The outcomes of a round of the write loop.\<close>

lemma write_step_cases:
  assumes "recv_wf k mx s"
  obtains
    (exit) "write_step res now s = Inr (write_exit s)"
  | (wait) "write_step res now s = Inr s"
  | (written) b out where "rxBlocks (rx s) (nextWriteGrp (rx s)) = Some b" and "rx_Decoded b"
      and "write_shards res (take k (rx_Packets b)) = (out, True)"
      and "write_step res now s = Inr (write_finish now (s\<lparr>tcpOut := tcpOut s @ out\<rparr>))"
  | (failed) b out where "rxBlocks (rx s) (nextWriteGrp (rx s)) = Some b" and "rx_Decoded b"
      and "write_shards res (take k (rx_Packets b)) = (out, False)"
      and "write_step res now s = Inr (write_exit (s\<lparr>tcpOut := tcpOut s @ out\<rparr>))"
proof (cases "write_decide s")
  case (WriteBlock b)
  then have b: "rxBlocks (rx s) (nextWriteGrp (rx s)) = Some b" "rx_Decoded b"
    by (simp_all add: write_decide_block)
  with assms have "block_wf k mx (nextWriteGrp (rx s)) b"
    by (simp add: recv_wf_def)
  then have K: "rx_K b = int k" "k \<le> length (rx_Packets b)"
    by (simp_all add: block_wf_def)
  obtain out ok where w: "write_shards res (take k (rx_Packets b)) = (out, ok)"
    by fastforce
  with WriteBlock K have "write_step res now s =
      Inr (if ok then write_finish now (s\<lparr>tcpOut := tcpOut s @ out\<rparr>)
           else write_exit (s\<lparr>tcpOut := tcpOut s @ out\<rparr>))"
    by (simp add: write_step_def)
  with b w show thesis
    using written failed by (cases ok) simp_all
next
  case WriteExit
  then show thesis by (intro exit) (simp add: write_step_def)
next
  case WriteWait
  then show thesis by (intro wait) (simp add: write_step_def)
qed

lemma recv_wf_tcpOut [simp]: "recv_wf k mx (s\<lparr>tcpOut := out\<rparr>) = recv_wf k mx s"
  by (simp add: recv_wf_def)

lemma write_exit_wf: "recv_wf k mx s \<Longrightarrow> recv_wf k mx (write_exit s)"
  by (simp add: recv_wf_def)

lemma write_step_wf:
  assumes "recv_wf k mx s"
  shows "\<exists>s'. write_step res now s = Inr s' \<and> recv_wf k mx s'"
  by (rule write_step_cases [OF assms, of res now])
    (simp_all add: assms write_exit_wf write_finish_wf)

text \<open>The NAKs of one check: one per missing data shard, in order.\<close>

definition naks_for :: "u16 \<Rightarrow> RxBlock \<Rightarrow> nat list \<Rightarrow> Packet list" where
  "naks_for streamID b ixs =
     map (\<lambda>i. nak_packet streamID (rx_SeqNums b ! i)) (filter (\<lambda>i. rx_Packets b ! i = None) ixs)"

lemma nak_loop:
  "udpOut (fold (nak_one now b) ixs s) = udpOut s @ marshal_all (naks_for (StreamID (par s)) b ixs)
   \<and> par (fold (nak_one now b) ixs s) = par s \<and> rx (fold (nak_one now b) ixs s) = rx s
   \<and> tx (fold (nak_one now b) ixs s) = tx s \<and> coder (fold (nak_one now b) ixs s) = coder s
   \<and> shp (fold (nak_one now b) ixs s) = shp s \<and> tcpOut (fold (nak_one now b) ixs s) = tcpOut s
   \<and> tcpIn (fold (nak_one now b) ixs s) = tcpIn s"
proof (induction ixs arbitrary: s)
  case (Cons i ixs)
  let ?s = "nak_one now b i s"
  have "udpOut ?s = udpOut s @ marshal_all (naks_for (StreamID (par s)) b [i])"
    by (auto simp: nak_one_def naks_for_def marshal_all_def sendPacketDirect_def sendRawUDP_def
        split: sum.splits)
  moreover have "par ?s = par s \<and> rx ?s = rx s \<and> tx ?s = tx s \<and> coder ?s = coder s \<and> shp ?s = shp s
      \<and> tcpOut ?s = tcpOut s \<and> tcpIn ?s = tcpIn s"
    by (simp add: nak_one_def)
  ultimately show ?case
    using Cons [of ?s] by (simp add: naks_for_def marshal_all_def)
qed (simp add: naks_for_def marshal_all_def)

lemma sendNakPeriodic_sends:
  assumes "block_wf k mx g b" and "rxBlocks (rx s) g = Some b" and "\<not> ctxDone s"
    and "\<not> rx_Decoded b" and "rx_ReceivedCnt b < int k"
  obtains s' where "sendNakPeriodic now g s = Inr s'"
    and "udpOut s' = udpOut s @ marshal_all (naks_for (StreamID (par s)) b [0..<k])"
    and "g \<in> set (nakTimers s')" and "rx s' = rx s"
proof -
  let ?s0 = "s\<lparr>nakTimers := remove1 g (nakTimers s)\<rparr>"
  let ?s1 = "fold (nak_one now b) [0..<k] ?s0"
  have "sendNakPeriodic now g s = Inr (?s1\<lparr>nakTimers := nakTimers ?s1 @ [g]\<rparr>)"
    using assms by (simp add: sendNakPeriodic_def block_wf_def Let_def)
  with nak_loop [of now b "[0..<k]" ?s0] show thesis
    by (intro that [of "?s1\<lparr>nakTimers := nakTimers ?s1 @ [g]\<rparr>"]) simp_all
qed

lemma sendNakPeriodic_frame:
  assumes "recv_wf k mx s"
  shows "\<exists>s'. sendNakPeriodic now g s = Inr s' \<and> rx s' = rx s \<and> tx s' = tx s \<and> par s' = par s
     \<and> coder s' = coder s \<and> shp s' = shp s \<and> tcpOut s' = tcpOut s \<and> tcpIn s' = tcpIn s"
proof (cases "rxBlocks (rx s) g")
  case (Some b)
  with assms have "int (length (rx_Packets b)) \<ge> rx_K b"
    by (fastforce simp: recv_wf_def block_wf_def)
  then show ?thesis
    using Some nak_loop [of now b "[0..<nat (rx_K b)]" "s\<lparr>nakTimers := remove1 g (nakTimers s)\<rparr>"]
    by (simp add: sendNakPeriodic_def Let_def)
qed (simp add: sendNakPeriodic_def Let_def)

section \<open>Properties of the receiver\<close>

text \<open>A block with one of two data shards and the parity shard, used to instantiate the properties.\<close>

definition sample_rx_block :: RxBlock where
  "sample_rx_block = \<lparr>rx_GroupID = 3, rx_K = 2, rx_M = 1,
     rx_Packets = [None, Some (frame [7]), Some (xor_bytes (frame [9]) (frame [7]))],
     rx_SeqNums = static_seqs 3 2, rx_ReceivedCnt = 2, rx_LQRTimer = True, rx_LQRReported = False, rx_Decoded = False\<rparr>"

definition sample_rx :: "unit Session" where
  "sample_rx = (let n = NewSession 0 7 False 1200 0 2 1 in
     n\<lparr>rx := (rx n)\<lparr>rxBlocks := [3 \<mapsto> sample_rx_block]\<rparr>\<rparr>)"

lemma sample_rx_block_wf: "block_wf 2 1 3 sample_rx_block" "\<not> rx_Decoded sample_rx_block"
  by (simp_all add: block_wf_def sample_rx_block_def)

lemma sample_rx_wf: "recv_wf 2 1 sample_rx"
  using sample_rx_block_wf by (simp add: recv_wf_def sample_rx_def NewSession_def)

lemma sample_rx_blocks: "rxBlocks (rx sample_rx) 3 = Some sample_rx_block" "StreamID (par sample_rx) = 7"
  by (simp_all add: sample_rx_def NewSession_def)

lemma maybe_decode_keeps:
  "maybe_decode rs f b = (f', Inr b') \<Longrightarrow> i < length (rx_Packets b) \<Longrightarrow> rx_Packets b ! i = Some x
     \<Longrightarrow> rx_Packets b' ! i = Some x"
  by (auto simp: maybe_decode_def tryDecodeBlock_def Let_def nth_fill_data
      split: if_splits prod.splits sum.splits)

text \<open>
  C12: decoding is correct: once any \<open>k\<close> shards of a block are present, for a block whose
  data shards are framed, decoding succeeds and the bytes the write loop then extracts are
  the sender's bytes.
\<close>
theorem decoding_recovers_bytes:
  assumes "rs_family rs k mx parity" and "length pd = k" and "list_all framed pd" and "fec_inv rs f"
    and "block_wf k mx g b" and "rx_matches parity k mx pd b" and "decode_due b"
  shows "\<exists>f' b'. tryDecodeBlock rs f b = (f', Inr b') \<and> rx_Decoded b'
     \<and> concat (map deframe (take k (rx_Packets b'))) = block_bytes pd"
proof -
  obtain f' b' where "tryDecodeBlock rs f b = (f', Inr b')" "rx_Decoded b'" "rx_matches parity k mx pd b'"
    by (rule tryDecodeBlock_recovers [OF assms(1,2,4-7)])
  moreover from this(2,3) have "map deframe (take k (rx_Packets b')) = map (\<lambda>x. deframe (Some x)) pd"
    by (intro decoded_deframe assms)
  ultimately show ?thesis by (simp add: block_bytes_def)
qed

theorem decoding_recovers_bytes_witness:
  "\<exists>f' b'. tryDecodeBlock xor_rs NewFEC sample_rx_block = (f', Inr b') \<and> rx_Decoded b'
     \<and> concat (map deframe (take 2 (rx_Packets b'))) = [9, 7]"
proof -
  let ?pd = "[frame [9], frame [7]]"
  have "rx_matches xor_parity 2 1 ?pd sample_rx_block"
    by (simp add: rx_matches_def holds_shard_def code_shard_def sample_rx_block_def less_Suc_eq
        numeral_eq_Suc block_parity_def xor_parity_def data_shards_def frame_def PutUint16_def padded_def
        shard_len_def)
  moreover have "decode_due sample_rx_block" by (simp add: decode_due_def sample_rx_block_def)
  moreover have "list_all framed ?pd"
    by (auto simp: framed_def intro: exI [of _ "[9]"] exI [of _ "[7]"])
  ultimately have "\<exists>f' b'. tryDecodeBlock xor_rs NewFEC sample_rx_block = (f', Inr b') \<and> rx_Decoded b'
     \<and> concat (map deframe (take 2 (rx_Packets b'))) = block_bytes ?pd"
    by (intro decoding_recovers_bytes [OF xor_rs_family _ _ _ sample_rx_block_wf(1)]) simp_all
  moreover have "block_bytes ?pd = [9, 7]"
    using block_bytes_frame [of "[9]"] block_bytes_frame [of "[7]"]
      block_bytes_append [of "[frame [9]]" "[frame [7]]"] by simp
  ultimately show ?thesis by simp
qed

text \<open>
  C23: a shard, once stored, is never overwritten or lost by a later datagram, whatever its
  index or payload and whether or not it completes the block.
\<close>
theorem stored_shards_kept:
  assumes "recv_wf k mx s" and "pPayload p = Some q" and "rxBlocks (rx s) g = Some b"
    and "i < length (rx_Packets b)" and "rx_Packets b ! i = Some x"
  shows "\<exists>s' b'. HandleDataPacket rs now p s = Inr s' \<and> rxBlocks (rx s') g = Some b'
     \<and> rx_Packets b' ! i = Some x"
  using assms(1,2)
proof (cases rule: HandleDataPacket_cases [where rs = rs and now = now])
  case (accept b0 f b')
  show ?thesis
  proof (cases "g = pGroupID p")
    case True
    then have "b0 = b" using accept(3) assms(3) by (simp add: target_block_def)
    let ?b = "store_shard (unat (pIdx p)) (Some q) (grow_block (unat (pIdx p)) b)"
    have "rx_Packets ?b ! i = Some x" "i < length (rx_Packets ?b)"
      using assms(4,5) by (auto simp: store_shard_def grow_block_def nth_append nth_list_update)
    then have "rx_Packets b' ! i = Some x"
      using accept(5) \<open>b0 = b\<close> by (simp add: maybe_decode_keeps)
    with accept True show ?thesis by simp
  qed (use accept assms(3,5) in simp)
qed (use assms(3,5) in simp_all)

theorem stored_shards_kept_witness:
  "\<exists>s' b'. HandleDataPacket xor_rs 0 (zero_packet\<lparr>pGroupID := 3, pIdx := 1, pPayload := Some [5]\<rparr>) sample_rx
       = Inr s' \<and> rxBlocks (rx s') 3 = Some b' \<and> rx_Packets b' ! 1 = Some (frame [7])"
  by (rule stored_shards_kept [OF sample_rx_wf _ sample_rx_blocks(1)]) (simp_all add: sample_rx_block_def)



end
