(* ===== verification/Session.thy ===== *)
theory Session
  imports Receiver
begin

text \<open>
  The life of a session in \<^verbatim>\<open>proxy/session.go\<close>: \<^verbatim>\<open>Start\<close>, \<^verbatim>\<open>Close\<close>, \<^verbatim>\<open>HandleClose\<close>, the statistics
  snapshot, and the goroutines around them. The read loop with its deferred shutdown and
  the goroutine that retransmits CLOSE are machines whose steps interleave with each other,
  with the demultiplexer and with all timers. The lemmas show that no interleaving panics,
  that the invariants of both halves persist, that every datagram fits the link, that CLOSE
  follows the last data, and that a session with both directions closed is torn down.
\<close>

section \<open>Operations\<close>

text \<open>The first receive block, created before any shard arrives, as \<^verbatim>\<open>Start\<close> sets it up.\<close>

definition Start :: "'enc Session \<Rightarrow> go_panic + 'enc Session" where
  "Start s =
     (if rxBlocks (rx s) \<noteq> Map.empty then Inr s
      else
        let k = FEC_K (par s); mSize = FEC_M (par s) in
        if k + mSize < 0 \<or> k < 0 then Inl MakeSliceLen
        else Inr (s\<lparr>rx := (rx s)\<lparr>rxBlocks := [0 \<mapsto>
          \<lparr>rx_GroupID = 0, rx_K = k, rx_M = mSize, rx_Packets = replicate (nat (k + mSize)) None,
           rx_SeqNums = map (\<lambda>i. of_nat (i mod 256)) [0..<nat k], rx_ReceivedCnt = 0,
           rx_LQRTimer = True, rx_LQRReported = False, rx_Decoded = False\<rparr>]\<rparr>\<rparr>))"

definition Close :: "'enc Session \<Rightarrow> 'enc Session" where
  [session_defs]: "Close s = s\<lparr>ctxDone := True, shp := Stop (shp s), connClosed := True,
     tx := (tx s)\<lparr>blockTimer := False\<rparr>\<rparr>"

text \<open>The locked part of \<^verbatim>\<open>HandleClose\<close>, with the flag it computes, and the whole handler.\<close>

definition mark_closeRecv :: "'enc Session \<Rightarrow> 'enc Session \<times> bool" where
  [session_defs]: "mark_closeRecv s = (s\<lparr>tx := (tx s)\<lparr>closeRecv := True\<rparr>\<rparr>, closeSent (tx s))"

definition HandleClose :: "'enc Session \<Rightarrow> 'enc Session" where
  "HandleClose s = (let (s1, bothClosed) = mark_closeRecv s in if bothClosed then Close s1 else s1)"

definition close_packet :: "u16 \<Rightarrow> Packet" where
  "close_packet streamID = zero_packet\<lparr>pType := TypeClose, pStreamID := streamID\<rparr>"

definition reset_packet :: "u16 \<Rightarrow> Packet" where
  "reset_packet streamID = zero_packet\<lparr>pType := TypeReset, pStreamID := streamID\<rparr>"

definition send_close :: "int \<Rightarrow> 'enc Session \<Rightarrow> 'enc Session" where
  "send_close now s = sendPacketDirect now (close_packet (StreamID (par s))) s"

definition mark_closeSent :: "'enc Session \<Rightarrow> 'enc Session \<times> bool" where
  [session_defs]: "mark_closeSent s = (s\<lparr>tx := (tx s)\<lparr>closeSent := True\<rparr>\<rparr>, closeRecv (tx s))"

text \<open>The error path of the read loop: five RESETs, then \<^verbatim>\<open>Close\<close>.\<close>

definition read_failed :: "int \<Rightarrow> 'enc Session \<Rightarrow> 'enc Session" where
  "read_failed now s =
     Close (((\<lambda>s. sendPacketDirect now (reset_packet (StreamID (par s))) s) ^^ 5) s)"

section \<open>Statistics\<close>

record SessionStats =
  st_StreamID :: u16
  st_Mode :: string
  st_TargetAddr :: string
  st_CurM :: int
  st_FEC_K :: int
  st_FEC_M :: int
  st_TxBytes :: u64
  st_RxBytes :: u64
  st_TxPackets :: u64
  st_RxPackets :: u64
  st_Losses :: u32
  st_TxRetransmissions :: u64
  st_ConsecutiveOk :: int
  st_LastActive :: string

text \<open>
  The remote address of the connection, if it has one, and the formatter of the activity
  time, which depends on the local time zone, are arguments.
\<close>

definition GetMonitorStats :: "string option \<Rightarrow> (int \<Rightarrow> string) \<Rightarrow> 'enc Session \<Rightarrow> SessionStats" where
  "GetMonitorStats remoteAddr rfc3339 s =
     \<lparr>st_StreamID = StreamID (par s),
      st_Mode = (if IsServer (par s) then ''server'' else ''client''),
      st_TargetAddr = (case remoteAddr of None \<Rightarrow> '''' | Some a \<Rightarrow> a),
      st_CurM = curM (tx s), st_FEC_K = FEC_K (par s), st_FEC_M = FEC_M (par s),
      st_TxBytes = txBytes (cnt s), st_RxBytes = rxBytes (cnt s),
      st_TxPackets = txPackets (cnt s), st_RxPackets = rxPackets (cnt s),
      st_Losses = losses (cnt s), st_TxRetransmissions = txRetransmissions (cnt s),
      st_ConsecutiveOk = consecutiveOk (tx s),
      st_LastActive = rfc3339 (GetLastActive s)\<rparr>"

section \<open>Operations of the other goroutines\<close>

text \<open>
  What happens to a session besides its read loop and its shutdown: shards, reports and NAKs
  from the demultiplexer, the timers, the write loop, and the shaper, which takes a
  packet off its queue and sends it, and the end of the daemon's context. The result of each
  is a new session or a panic.
\<close>

inductive session_op_from ::
  "(Packet \<Rightarrow> bool) \<Rightarrow> ('enc, 'e) reedsolomon \<Rightarrow> 'enc Session \<Rightarrow> go_panic + 'enc Session \<Rightarrow> bool"
  for D :: "Packet \<Rightarrow> bool" and rs :: "('enc, 'e) reedsolomon" where
  flush_timer: "blockTimer (tx s) \<Longrightarrow>
     session_op_from D rs s (flushPendingBlock rs (s\<lparr>tx := (tx s)\<lparr>blockTimer := False\<rparr>\<rparr>))"
| data: "D p \<Longrightarrow> pPayload p = Some q \<Longrightarrow> session_op_from D rs s (HandleDataPacket rs now p s)"
| lqr: "session_op_from D rs s (Inr (HandleLQR now p s))"
| nak: "session_op_from D rs s (Inr (HandleNak now p s))"
| record_rx: "session_op_from D rs s (Inr (RecordRx n s))"
| lqr_timer: "session_op_from D rs s (Inr (handleLQRTimeout now g s))"
| nak_timer: "session_op_from D rs s (sendNakPeriodic now g s)"
| write_loop: "\<not> recvClosed (rx s) \<Longrightarrow> session_op_from D rs s (write_step res now s)"
| emit: "queue (shp s) = b # q \<Longrightarrow>
     session_op_from D rs s (Inr (sendRawUDP now b (s\<lparr>shp := (shp s)\<lparr>queue := q\<rparr>\<rparr>)))"
| external_close: "session_op_from D rs s (Inr (Close s))"
| parent_cancel: "session_op_from D rs s (Inr (s\<lparr>ctxDone := True\<rparr>))"

text \<open>Any data packet may arrive.\<close>

abbreviation session_op :: "('enc, 'e) reedsolomon \<Rightarrow> 'enc Session \<Rightarrow> go_panic + 'enc Session \<Rightarrow> bool" where
  "session_op \<equiv> session_op_from (\<lambda>p. True)"

section \<open>The read loop and its shutdown\<close>

text \<open>
  Control points of \<^verbatim>\<open>readTCPRun\<close>: before \<^verbatim>\<open>Start\<close> launches it (the demultiplexer can already
  deliver packets then; the other background operations are also allowed, which only adds
  behaviours), at the top of the loop, where it waits while the shaper
  queue is long, inside \<^verbatim>\<open>Conn.Read\<close>, at the stages of the deferred function (with the time
  at which waiting for reports began), and returned; of the goroutine that
  sends CLOSE; and of the demultiplexer inside \<^verbatim>\<open>HandleClose\<close>.
\<close>

datatype reader_pc = Unlaunched | Reading | InRead | Marking | CheckCtx | FlushRest | DrainQueue | AwaitReports int
  | ReaderReturned

datatype closer_pc = NotStarted | FirstClose | MarkSent | CloserCloses | Retransmitting | CloserReturned

datatype handler_pc = HandlerIdle | HandlerCloses

record 'enc life =
  sess :: "'enc Session"
  rpc :: reader_pc
  cpc :: closer_pc
  hpc :: handler_pc
  block0 :: bool  \<comment> \<open>\<^verbatim>\<open>Start\<close> has launched the goroutines and not yet set up block 0\<close>
  panicked :: bool

definition outcome :: "'enc life \<Rightarrow> go_panic + 'enc Session \<Rightarrow> 'enc life" where
  "outcome l r = (case r of Inl _ \<Rightarrow> l\<lparr>panicked := True\<rparr> | Inr s \<Rightarrow> l\<lparr>sess := s\<rparr>)"

inductive life_step_from ::
  "(Packet \<Rightarrow> bool) \<Rightarrow> ('enc, 'e) reedsolomon \<Rightarrow> 'enc life \<Rightarrow> 'enc life \<Rightarrow> bool"
  for D :: "Packet \<Rightarrow> bool" and rs :: "('enc, 'e) reedsolomon" where
  background: "session_op_from D rs (sess l) r \<Longrightarrow> life_step_from D rs l (outcome l r)"
| launch: "rpc l = Unlaunched \<Longrightarrow> life_step_from D rs l (l\<lparr>rpc := Reading, block0 := True\<rparr>)"
| init_block: "block0 l \<Longrightarrow> life_step_from D rs l ((outcome l (Start (sess l)))\<lparr>block0 := False\<rparr>)"
| read_ctx: "rpc l = Reading \<Longrightarrow> ctxDone (sess l) \<Longrightarrow> life_step_from D rs l (l\<lparr>rpc := Marking\<rparr>)"
| enter_read: "rpc l = Reading \<Longrightarrow> QueueLen (shp (sess l)) \<le> 10 \<Longrightarrow>
     life_step_from D rs l (l\<lparr>rpc := InRead\<rparr>)"
| read: "rpc l = InRead \<Longrightarrow> int (length d) \<le> maxPayload (par (sess l)) \<Longrightarrow>
     life_step_from D rs l ((outcome l (tcp_read rs now d (sess l)))\<lparr>rpc := Reading\<rparr>)"
| read_eof: "rpc l = InRead \<Longrightarrow> int (length d) \<le> maxPayload (par (sess l)) \<Longrightarrow>
     life_step_from D rs l ((outcome l (tcp_read rs now d (sess l)))\<lparr>rpc := Marking\<rparr>)"
| read_error: "rpc l = InRead \<Longrightarrow> int (length d) \<le> maxPayload (par (sess l)) \<Longrightarrow>
     l' = outcome l (tcp_read rs now d (sess l)) \<Longrightarrow>
     life_step_from D rs l (l'\<lparr>sess := read_failed now (sess l'), rpc := Marking\<rparr>)"
| mark: "rpc l = Marking \<Longrightarrow> life_step_from D rs l
     (l\<lparr>sess := (sess l)\<lparr>tx := (tx (sess l))\<lparr>sendClosed := True\<rparr>\<rparr>, rpc := CheckCtx\<rparr>)"
| check_ctx: "rpc l = CheckCtx \<Longrightarrow> life_step_from D rs l
     (l\<lparr>rpc := (if ctxDone (sess l) then ReaderReturned else FlushRest)\<rparr>)"
| flush_rest: "rpc l = FlushRest \<Longrightarrow> life_step_from D rs l
     ((outcome l (flushPendingBlockLocked rs (sess l)))\<lparr>rpc := DrainQueue\<rparr>)"
| drain_ctx: "rpc l = DrainQueue \<Longrightarrow> ctxDone (sess l) \<Longrightarrow> 0 < QueueLen (shp (sess l)) \<Longrightarrow>
     life_step_from D rs l (l\<lparr>rpc := ReaderReturned\<rparr>)"
| drained: "rpc l = DrainQueue \<Longrightarrow> QueueLen (shp (sess l)) = 0 \<Longrightarrow>
     life_step_from D rs l (l\<lparr>rpc := AwaitReports now\<rparr>)"
| await_ctx: "rpc l = AwaitReports start \<Longrightarrow> ctxDone (sess l) \<Longrightarrow> \<not> allAcked (tx (sess l)) \<Longrightarrow>
     life_step_from D rs l (l\<lparr>rpc := ReaderReturned\<rparr>)"
| await_done: "rpc l = AwaitReports start \<Longrightarrow>
     allAcked (tx (sess l)) \<or> now - start \<ge> 3000 * Millisecond \<Longrightarrow>
     life_step_from D rs l (l\<lparr>rpc := ReaderReturned, cpc := FirstClose\<rparr>)"
| first_close: "cpc l = FirstClose \<Longrightarrow>
     life_step_from D rs l (l\<lparr>sess := send_close now (sess l), cpc := MarkSent\<rparr>)"
| mark_sent: "cpc l = MarkSent \<Longrightarrow> mark_closeSent (sess l) = (s', both) \<Longrightarrow>
     life_step_from D rs l (l\<lparr>sess := s', cpc := (if both then CloserCloses else Retransmitting)\<rparr>)"
| closer_closes: "cpc l = CloserCloses \<Longrightarrow>
     life_step_from D rs l (l\<lparr>sess := Close (sess l), cpc := CloserReturned\<rparr>)"
| close_tick: "cpc l = Retransmitting \<Longrightarrow> \<not> closeRecv (tx (sess l)) \<Longrightarrow>
     life_step_from D rs l (l\<lparr>sess := send_close now (sess l)\<rparr>)"
| close_acked: "cpc l = Retransmitting \<Longrightarrow> closeRecv (tx (sess l)) \<or> ctxDone (sess l) \<Longrightarrow>
     life_step_from D rs l (l\<lparr>cpc := CloserReturned\<rparr>)"
| handle_close: "hpc l = HandlerIdle \<Longrightarrow> mark_closeRecv (sess l) = (s', both) \<Longrightarrow>
     life_step_from D rs l (l\<lparr>sess := s', hpc := (if both then HandlerCloses else HandlerIdle)\<rparr>)"
| handler_closes: "hpc l = HandlerCloses \<Longrightarrow>
     life_step_from D rs l (l\<lparr>sess := Close (sess l), hpc := HandlerIdle\<rparr>)"

abbreviation life_step :: "('enc, 'e) reedsolomon \<Rightarrow> 'enc life \<Rightarrow> 'enc life \<Rightarrow> bool" where
  "life_step \<equiv> life_step_from (\<lambda>p. True)"

lemma session_op_any: "session_op_from D rs s r \<Longrightarrow> session_op rs s r"
  by (induction rule: session_op_from.induct) (auto intro: session_op_from.intros)

lemma life_step_any: "life_step_from D rs l l' \<Longrightarrow> life_step rs l l'"
  by (induction rule: life_step_from.induct) (blast intro: life_step_from.intros session_op_any)+

definition life_start :: "'enc Session \<Rightarrow> 'enc life" where
  "life_start s = \<lparr>sess = s, rpc = Unlaunched, cpc = NotStarted, hpc = HandlerIdle, block0 = False,
     panicked = False\<rparr>"

section \<open>What background operations leave alone\<close>

text \<open>The fields that decide the shutdown: only closing changes them.\<close>

definition keeps :: "'enc Session \<Rightarrow> 'enc Session \<Rightarrow> bool" where
  "keeps s s' \<longleftrightarrow> par s' = par s \<and> closeSent (tx s') = closeSent (tx s)
     \<and> closeRecv (tx s') = closeRecv (tx s) \<and> sendClosed (tx s') = sendClosed (tx s)
     \<and> (ctxDone s \<longrightarrow> ctxDone s') \<and> (pendingData (tx s) = [] \<longrightarrow> pendingData (tx s') = [])"

lemma keeps_refl [simp]: "keeps s s"
  by (simp add: keeps_def)

lemma keeps_trans: "keeps s t \<Longrightarrow> keeps t u \<Longrightarrow> keeps s u"
  by (simp add: keeps_def)

lemma flush_keeps:
  "flushPendingBlockLocked rs s = Inr s' \<Longrightarrow> keeps s s' \<and> pendingData (tx s') = []"
  by (auto simp: flushPendingBlockLocked_def keeps_def Let_def
      split: if_splits prod.splits sum.splits go_failure.splits)

lemma HandleDataPacket_keeps: "HandleDataPacket rs now p s = Inr s' \<Longrightarrow> keeps s s'"
  by (auto simp: HandleDataPacket_def keeps_def Let_def
      split: if_splits prod.splits sum.splits option.splits)

lemma HandleLQR_keeps: "keeps s (HandleLQR now p s)"
proof -
  have "closeSent (fst (adapt a b t)) = closeSent t" "closeRecv (fst (adapt a b t)) = closeRecv t"
    "sendClosed (fst (adapt a b t)) = sendClosed t" for a b t
    by (auto simp: adapt_def Let_def)
  then show ?thesis
    using adapt_frame(3) [of "FEC_M (par s)" "unat (pLosses p)" "tx s"]
    by (auto simp: HandleLQR_def keeps_def Let_def updateShaperParams_def
        split: option.splits prod.splits) (metis fst_conv)+
qed

lemma HandleNak_keeps: "keeps s (HandleNak now p s)"
  by (simp add: keeps_def HandleNak_def Let_def split: option.splits sum.splits)

lemma nak_loop_keeps: "keeps s (fold (nak_one now b) ixs s)"
  by (induction ixs arbitrary: s) (auto simp: nak_one_def keeps_def)

lemma sendNakPeriodic_keeps: "sendNakPeriodic now g s = Inr s' \<Longrightarrow> keeps s s'"
  using nak_loop_keeps [of "s\<lparr>nakTimers := remove1 g (nakTimers s)\<rparr>" now]
  by (auto simp: sendNakPeriodic_def keeps_def Let_def split: if_splits option.splits)

lemma write_step_keeps: "write_step res now s = Inr s' \<Longrightarrow> keeps s s'"
  by (auto simp: write_step_def keeps_def Let_def split: if_splits prod.splits write_choice.splits)

lemma session_op_keeps: "session_op rs s r \<Longrightarrow> r = Inr s' \<Longrightarrow> keeps s s'"
proof (induction rule: session_op_from.induct)
  case (flush_timer s)
  then show ?case
    using flush_keeps [of rs "s\<lparr>tx := (tx s)\<lparr>blockTimer := False\<rparr>\<rparr>" s']
    by (simp add: flushPendingBlock_def keeps_def)
next
  case (data p q s now)
  then show ?case by (simp add: HandleDataPacket_keeps)
next
  case (lqr s now p)
  then show ?case using HandleLQR_keeps by auto
next
  case (nak s now p)
  then show ?case using HandleNak_keeps by auto
next
  case (nak_timer s now g)
  then show ?case by (simp add: sendNakPeriodic_keeps)
next
  case (write_loop s res now)
  then show ?case by (simp add: write_step_keeps)
qed (auto simp: keeps_def RecordRx_def sendRawUDP_def Close_def)

lemma Start_keeps: "Start s = Inr s' \<Longrightarrow> keeps s s'"
  by (auto simp: Start_def keeps_def Let_def split: if_splits)

text \<open>Reading keeps the marks as well, but adds pending data.\<close>

definition keeps_marks :: "'enc Session \<Rightarrow> 'enc Session \<Rightarrow> bool" where
  "keeps_marks s s' \<longleftrightarrow> closeSent (tx s') = closeSent (tx s) \<and> closeRecv (tx s') = closeRecv (tx s)
     \<and> (ctxDone s \<longrightarrow> ctxDone s')"

lemma keeps_marks: "keeps s s' \<Longrightarrow> keeps_marks s s'"
  by (simp add: keeps_def keeps_marks_def)

lemma tcp_read_keeps_marks: "tcp_read rs now d s = Inr s' \<Longrightarrow> keeps_marks s s' \<and> par s' = par s"
  using flush_keeps [of rs _ s']
  by (auto simp: tcp_read_def keeps_def keeps_marks_def Let_def split: if_splits)

lemmas session_keeps = session_op_keeps [THEN keeps_marks] tcp_read_keeps_marks [THEN conjunct1]
  flush_keeps [THEN conjunct1, THEN keeps_marks] Start_keeps [THEN keeps_marks]

lemma life_step_par: "life_step rs l l' \<Longrightarrow> par (sess l') = par (sess l)"
proof (induction rule: life_step_from.induct)
  case (background l r)
  then show ?case by (cases r) (auto simp: outcome_def keeps_def dest: session_op_keeps)
next
  case (init_block l)
  then show ?case by (cases "Start (sess l)") (auto simp: outcome_def keeps_def dest: Start_keeps)
next
  case (flush_rest l)
  then show ?case
    by (cases "flushPendingBlockLocked rs (sess l)") (auto simp: outcome_def keeps_def dest: flush_keeps)
next
  case (read l d now)
  then show ?case
    by (cases "tcp_read rs now d (sess l)") (auto simp: outcome_def dest: tcp_read_keeps_marks)
next
  case (read_eof l d now)
  then show ?case
    by (cases "tcp_read rs now d (sess l)") (auto simp: outcome_def dest: tcp_read_keeps_marks)
next
  case (read_error l d l' now)
  then show ?case
    by (cases "tcp_read rs now d (sess l)")
      (auto simp: outcome_def read_failed_def Close_def numeral_eq_Suc dest: tcp_read_keeps_marks)
qed (auto simp: send_close_def Close_def mark_closeSent_def mark_closeRecv_def)

section \<open>Both directions closed\<close>

text \<open>
  Each side sets its own mark and tests the other's under one lock, so whichever comes
  second closes the session.
\<close>

definition handshake_inv :: "'enc life \<Rightarrow> bool" where
  "handshake_inv l \<longleftrightarrow> (cpc l \<noteq> NotStarted \<longrightarrow> rpc l = ReaderReturned)
     \<and> (closeSent (tx (sess l)) \<and> closeRecv (tx (sess l)) \<longrightarrow>
          ctxDone (sess l) \<or> cpc l = CloserCloses \<or> hpc l = HandlerCloses)"

lemma outcome_fields [simp]:
  "block0 (outcome l r) = block0 l"
  "rpc (outcome l r) = rpc l" "cpc (outcome l r) = cpc l" "hpc (outcome l r) = hpc l"
  by (simp_all add: outcome_def split: sum.splits)

lemma read_failed_fields [simp]:
  "par (read_failed now s) = par s" "closeSent (tx (read_failed now s)) = closeSent (tx s)"
  "closeRecv (tx (read_failed now s)) = closeRecv (tx s)" "ctxDone (read_failed now s)"
  "pendingData (tx (read_failed now s)) = pendingData (tx s)"
  "sendClosed (tx (read_failed now s)) = sendClosed (tx s)"
  by (simp_all add: read_failed_def Close_def numeral_eq_Suc)

lemma send_close_frame [simp]:
  "par (send_close now s) = par s" "tx (send_close now s) = tx s"
  "rx (send_close now s) = rx s" "coder (send_close now s) = coder s"
  "shp (send_close now s) = shp s" "ctxDone (send_close now s) = ctxDone s"
  by (simp_all add: send_close_def)

lemma handshake_outcome:
  assumes "handshake_inv l" and "\<And>s'. r = Inr s' \<Longrightarrow> keeps_marks (sess l) s'"
  shows "handshake_inv (outcome l r)"
  using assms by (cases r) (auto simp: handshake_inv_def outcome_def keeps_marks_def)

lemma handshake_inv_rpc:
  "handshake_inv l \<Longrightarrow> rpc l \<noteq> ReaderReturned \<Longrightarrow> handshake_inv (l\<lparr>rpc := p\<rparr>)"
  by (auto simp: handshake_inv_def)

lemma handshake_step: "life_step rs l l' \<Longrightarrow> handshake_inv l \<Longrightarrow> handshake_inv l'"
proof (induction rule: life_step_from.induct)
  case (background l r)
  then show ?case by (blast intro: handshake_outcome session_keeps)
next
  case (init_block l)
  then have "handshake_inv (outcome l (Start (sess l)))"
    by (blast intro: handshake_outcome session_keeps)
  then show ?case by (simp add: handshake_inv_def)
next
  case (read l d now)
  then show ?case
    by (intro handshake_inv_rpc) (auto intro: handshake_outcome session_keeps)
next
  case (read_eof l d now)
  then show ?case
    by (intro handshake_inv_rpc) (auto intro: handshake_outcome session_keeps)
next
  case (flush_rest l)
  then show ?case
    by (intro handshake_inv_rpc) (auto intro: handshake_outcome session_keeps)
qed (auto simp: handshake_inv_def mark_closeSent_def mark_closeRecv_def Close_def)

section \<open>CLOSE follows the last data\<close>

definition shutting_down :: "'enc life \<Rightarrow> bool" where
  "shutting_down l \<longleftrightarrow> rpc l = DrainQueue \<or> (\<exists>t. rpc l = AwaitReports t) \<or> cpc l \<noteq> NotStarted"

definition shutdown_inv :: "'enc life \<Rightarrow> bool" where
  "shutdown_inv l \<longleftrightarrow> panicked l
     \<or> ((cpc l \<noteq> NotStarted \<longrightarrow> rpc l = ReaderReturned)
        \<and> (closeSent (tx (sess l)) \<longrightarrow> cpc l \<noteq> NotStarted \<and> cpc l \<noteq> FirstClose)
        \<and> (rpc l \<noteq> Unlaunched \<and> rpc l \<noteq> Reading \<and> rpc l \<noteq> InRead \<and> rpc l \<noteq> Marking \<longrightarrow> sendClosed (tx (sess l)))
        \<and> (shutting_down l \<longrightarrow> pendingData (tx (sess l)) = []))"

lemma panicked_outcome: "panicked l \<Longrightarrow> panicked (outcome l r)"
  by (simp add: outcome_def split: sum.splits)

lemma shutdown_background:
  assumes "shutdown_inv l" and "session_op rs (sess l) r"
  shows "shutdown_inv (outcome l r)"
proof (cases r)
  case (Inr s')
  from session_op_keeps [OF assms(2) this] assms(1) Inr show ?thesis
    by (auto simp: shutdown_inv_def shutting_down_def outcome_def keeps_def)
qed (simp add: shutdown_inv_def outcome_def)

lemma shutdown_read:
  assumes "shutdown_inv l" and "rpc l = InRead" and "p = Reading \<or> p = Marking"
  shows "shutdown_inv ((outcome l (tcp_read rs now d (sess l)))\<lparr>rpc := p\<rparr>)"
proof (cases "tcp_read rs now d (sess l)")
  case (Inr s')
  then have "keeps_marks (sess l) s'" using tcp_read_keeps_marks by blast
  with assms Inr show ?thesis
    by (auto simp: shutdown_inv_def shutting_down_def outcome_def keeps_marks_def)
qed (simp add: shutdown_inv_def outcome_def)

lemma shutdown_step: "life_step rs l l' \<Longrightarrow> shutdown_inv l \<Longrightarrow> shutdown_inv l'"
proof (induction rule: life_step_from.induct)
  case (background l r)
  then show ?case by (simp add: shutdown_background)
next
  case (init_block l)
  then show ?case
    by (cases "Start (sess l)")
      (auto simp: shutdown_inv_def shutting_down_def outcome_def keeps_def dest!: Start_keeps)
next
  case (read l d now)
  then show ?case by (simp add: shutdown_read)
next
  case (read_eof l d now)
  then show ?case by (simp add: shutdown_read)
next
  case (read_error l d l' now)
  then have "shutdown_inv (l'\<lparr>rpc := Marking\<rparr>)" by (simp add: shutdown_read)
  then show ?case by (simp add: shutdown_inv_def shutting_down_def)
next
  case (flush_rest l)
  then show ?case
    by (cases "flushPendingBlockLocked rs (sess l)")
      (auto simp: shutdown_inv_def shutting_down_def outcome_def keeps_def dest!: flush_keeps)
qed (auto simp: shutdown_inv_def shutting_down_def mark_closeSent_def mark_closeRecv_def Close_def)

section \<open>No interleaving panics, and every datagram fits\<close>

definition control :: "Packet \<Rightarrow> bool" where
  "control p \<longleftrightarrow> pType p = TypeClose \<or> pType p = TypeReset \<or> pType p = TypeNak \<or> pType p = TypeLqr"

lemma control_length: "control p \<Longrightarrow> Marshal p = Inr b \<Longrightarrow> length b \<le> 6"
  by (auto simp: control_def Marshal_def Let_def packet_types split: if_splits)

lemma control_packets [simp]:
  "control (close_packet sid)" "control (reset_packet sid)" "control (nak_packet sid q)"
  "control (lqr_packet sid g n)"
  by (simp_all add: control_def close_packet_def reset_packet_def nak_packet_def lqr_packet_def)

lemma control_fits: "list_all control ps \<Longrightarrow> 36 < LinkMTU pr \<Longrightarrow> list_all (fits pr) (marshal_all ps)"
  using control_length by (fastforce simp: list_all_iff in_marshal_all fits_def)

lemma udpOut_sendPacketDirect: "udpOut (sendPacketDirect now p s) = udpOut s @ marshal_all [p]"
  by (simp add: sendPacketDirect_def sendRawUDP_def marshal_all_def split: sum.splits)

definition session_inv :: "('enc, 'e) reedsolomon \<Rightarrow> nat \<Rightarrow> nat \<Rightarrow> 'enc Session \<Rightarrow> bool" where
  "session_inv rs k mx s \<longleftrightarrow> sender_inv rs k mx s \<and> recv_wf k mx s \<and> mtu_inv s
     \<and> list_all (fits (par s)) (udpOut s)"

lemma session_inv_sent:
  assumes "session_inv rs k mx s" and "par s' = par s" "tx s' = tx s" "shp s' = shp s" "coder s' = coder s"
    and "recv_wf k mx s'" and "udpOut s' = udpOut s @ marshal_all ps" and "list_all control ps"
  shows "session_inv rs k mx s'"
proof -
  have "36 < LinkMTU (par s)"
    using assms(1) by (simp add: session_inv_def mtu_inv_def)
  then have "list_all (fits (par s)) (marshal_all ps)"
    using control_fits assms(8) by blast
  with assms show ?thesis
    by (simp add: session_inv_def sender_inv_def mtu_inv_def)
qed

lemma sendPacketDirect_inv:
  assumes "session_inv rs k mx s" and "control p"
  shows "session_inv rs k mx (sendPacketDirect now p s)"
proof (rule session_inv_sent [OF assms(1)])
  show "recv_wf k mx (sendPacketDirect now p s)"
    using assms(1) by (simp add: session_inv_def recv_wf_def)
  show "udpOut (sendPacketDirect now p s) = udpOut s @ marshal_all [p]"
    by (rule udpOut_sendPacketDirect)
qed (simp_all add: assms(2))

lemma HandleDataPacket_frame:
  assumes "recv_wf k mx s" and "pPayload p = Some q" and "fec_inv rs (coder s)"
  shows "\<exists>s'. HandleDataPacket rs now p s = Inr s' \<and> recv_wf k mx s' \<and> fec_inv rs (coder s')
     \<and> par s' = par s \<and> tx s' = tx s \<and> shp s' = shp s \<and> udpOut s' = udpOut s \<and> tcpOut s' = tcpOut s
     \<and> tcpIn s' = tcpIn s"
proof -
  obtain s' where s': "HandleDataPacket rs now p s = Inr s'" "recv_wf k mx s'"
    using HandleDataPacket_wf [OF assms(1,2)] by blast
  from assms(1,2) have "fec_inv rs (coder s') \<and> par s' = par s \<and> tx s' = tx s \<and> shp s' = shp s
      \<and> udpOut s' = udpOut s \<and> tcpOut s' = tcpOut s
     \<and> tcpIn s' = tcpIn s"
  proof (cases rule: HandleDataPacket_cases [where rs = rs and now = now])
    case (accept b f b')
    then have "fec_inv rs f"
      using fec_inv_maybe_decode [OF assms(3)] by (metis fst_conv)
    with accept s'(1) show ?thesis by auto
  qed (use s'(1) assms(3) in auto)
  with s' show ?thesis by blast
qed

lemma handleLQRTimeout_sends:
  "\<exists>ps. list_all control ps \<and> udpOut (handleLQRTimeout now g s) = udpOut s @ marshal_all ps"
proof (cases "\<exists>b. rxBlocks (rx s) g = Some b \<and> \<not> rx_LQRReported b")
  case True
  then obtain b where "rxBlocks (rx s) g = Some b" "\<not> rx_LQRReported b" by blast
  then have "udpOut (handleLQRTimeout now g s) =
      udpOut s @ marshal_all [lqr_packet (StreamID (par s)) g (report_losses b)]"
    by (simp add: handleLQRTimeout_def Let_def udpOut_sendPacketDirect)
  then show ?thesis by (intro exI [of _ "[lqr_packet (StreamID (par s)) g (report_losses b)]"]) simp
next
  case False
  then have "handleLQRTimeout now g s = s"
    by (auto simp: handleLQRTimeout_def split: option.splits)
  then show ?thesis by (intro exI [of _ "[]"]) (simp add: marshal_all_def)
qed

lemma handleLQRTimeout_inv:
  assumes "session_inv rs k mx s"
  shows "session_inv rs k mx (handleLQRTimeout now g s)"
proof -
  obtain ps where "list_all control ps" "udpOut (handleLQRTimeout now g s) = udpOut s @ marshal_all ps"
    using handleLQRTimeout_sends by blast
  with assms show ?thesis
    by (intro session_inv_sent [OF assms]) (simp_all add: session_inv_def handleLQRTimeout_wf)
qed

lemma naks_control: "list_all control (naks_for sid b ixs)"
  by (simp add: naks_for_def list_all_iff)

lemma nak_timer_sends:
  assumes "recv_wf k mx s"
  obtains s' ps where "sendNakPeriodic now g s = Inr s'" and "rx s' = rx s" "tx s' = tx s" "par s' = par s"
    "coder s' = coder s" "shp s' = shp s" "tcpOut s' = tcpOut s" "tcpIn s' = tcpIn s"
    and "list_all control ps" and "udpOut s' = udpOut s @ marshal_all ps"
proof -
  obtain s' where s': "sendNakPeriodic now g s = Inr s'" "rx s' = rx s" "tx s' = tx s"
    "par s' = par s" "coder s' = coder s" "shp s' = shp s" "tcpOut s' = tcpOut s" "tcpIn s' = tcpIn s"
    using sendNakPeriodic_frame [OF assms] by blast
  have "udpOut s' = udpOut s @ marshal_all []
      \<or> (\<exists>b. udpOut s' = udpOut (fold (nak_one now b) [0..<nat (rx_K b)] (s\<lparr>nakTimers := remove1 g (nakTimers s)\<rparr>)))"
    using s'(1) by (auto simp: sendNakPeriodic_def Let_def marshal_all_def split: if_splits option.splits)
  then show thesis
  proof
    assume "udpOut s' = udpOut s @ marshal_all []"
    with that [OF s', of "[]"] show thesis by simp
  next
    assume "\<exists>b. udpOut s' = udpOut (fold (nak_one now b) [0..<nat (rx_K b)] (s\<lparr>nakTimers := remove1 g (nakTimers s)\<rparr>))"
    then obtain b where "udpOut s' = udpOut s @ marshal_all (naks_for (StreamID (par s)) b [0..<nat (rx_K b)])"
      by (auto simp: nak_loop [THEN conjunct1])
    with that [OF s' naks_control] show thesis .
  qed
qed

lemma sendNakPeriodic_inv:
  assumes "session_inv rs k mx s"
  shows "\<exists>s'. sendNakPeriodic now g s = Inr s' \<and> session_inv rs k mx s'"
proof -
  have wf: "recv_wf k mx s" using assms by (simp add: session_inv_def)
  obtain s' ps where s': "sendNakPeriodic now g s = Inr s'" "rx s' = rx s" "tx s' = tx s" "par s' = par s"
    "coder s' = coder s" "shp s' = shp s" "tcpOut s' = tcpOut s" "tcpIn s' = tcpIn s"
    "list_all control ps" "udpOut s' = udpOut s @ marshal_all ps"
    by (rule nak_timer_sends [OF wf])
  then have "session_inv rs k mx s'"
    using wf by (intro session_inv_sent [OF assms]) (simp_all add: recv_wf_def)
  with s'(1) show ?thesis by blast
qed

lemma session_inv_fields:
  assumes "session_inv rs k mx s" and "par s' = par s" "tx s' = tx s" "shp s' = shp s"
    "coder s' = coder s" "udpOut s' = udpOut s" and "recv_wf k mx s'"
  shows "session_inv rs k mx s'"
  using assms by (simp add: session_inv_def sender_inv_def mtu_inv_def)

lemma write_finish_inv:
  assumes "session_inv rs k mx s"
  shows "session_inv rs k mx (write_finish now s)"
proof -
  let ?s1 = "updateLastActive now s" and ?g = "nextWriteGrp (rx s)"
  let ?s2 = "case rxBlocks (rx s) ?g of
      Some b \<Rightarrow> if rx_LQRReported b then ?s1 else handleLQRTimeout now ?g ?s1 | None \<Rightarrow> ?s1"
  have wf: "recv_wf k mx s" using assms by (simp add: session_inv_def)
  then have "recv_wf k mx ?s1" by (simp add: recv_wf_def)
  then have "session_inv rs k mx ?s1"
    by (intro session_inv_fields [OF assms]) simp_all
  then have s2: "session_inv rs k mx ?s2"
    by (simp add: handleLQRTimeout_inv split: option.split)
  have eq: "write_finish now s = ?s2\<lparr>rx := (rx ?s2)\<lparr>rxBlocks := (rxBlocks (rx ?s2))(?g := None),
      nextWriteGrp := ?g + 1\<rparr>\<rparr>"
    unfolding write_finish_def Let_def updateLastActive_frame by (rule refl)
  show ?thesis
  proof (rule session_inv_fields [OF s2])
    show "recv_wf k mx (write_finish now s)"
      by (rule write_finish_wf [OF wf])
  qed (simp_all add: eq)
qed

lemma write_step_inv:
  assumes "session_inv rs k mx s"
  shows "\<exists>s'. write_step res now s = Inr s' \<and> session_inv rs k mx s'"
proof -
  have wf: "recv_wf k mx s" using assms by (simp add: session_inv_def)
  have out: "session_inv rs k mx (s\<lparr>tcpOut := out\<rparr>)" for out
    using wf by (intro session_inv_fields [OF assms]) simp_all
  have exit: "session_inv rs k mx (write_exit t)" if "session_inv rs k mx t" for t
    using that
    by (intro session_inv_fields [OF that]) (simp_all add: write_exit_def session_inv_def recv_wf_def)
  show ?thesis
    by (rule write_step_cases [OF wf, of res now])
      (simp_all add: assms out exit write_finish_inv)
qed

lemma flush_inv:
  assumes "session_inv rs k mx s" and "rs_family rs k mx parity"
  shows "\<exists>s'. flushPendingBlock rs s = Inr s' \<and> session_inv rs k mx s'"
proof (cases "pendingData (tx s) = []")
  case True
  with assms show ?thesis by (simp add: flushPendingBlock_empty)
next
  case False
  have inv: "sender_inv rs k mx s" "mtu_inv s" using assms(1) by (simp_all add: session_inv_def)
  obtain m f where r: "flushPendingBlock rs s = Inr (flushed parity k m f s)" and "m \<le> mx" "fec_inv rs f"
    by (rule flush_total [OF inv(1) assms(2) False])
  moreover have "sender_inv rs k mx (flushed parity k m f s)"
    using inv(1) \<open>fec_inv rs f\<close> by (intro flushed_sender_inv) (simp_all add: sender_inv_def)
  moreover have "mtu_inv (flushed parity k m f s)"
    using inv \<open>m \<le> mx\<close> assms(2)
    by (intro flushed_mtu_inv [of s rs k mx]) (simp_all add: sender_inv_def)
  ultimately show ?thesis
    using assms(1) by (auto simp: session_inv_def recv_wf_def flushed_def Let_def)
qed

lemma read_inv:
  assumes inv: "session_inv rs k mx s" and fam: "rs_family rs k mx parity"
    and d: "int (length d) \<le> maxPayload (par s)"
  shows "\<exists>s'. tcp_read rs now d s = Inr s' \<and> session_inv rs k mx s'"
proof (cases "d = []")
  case True
  with inv show ?thesis by (simp add: tcp_read_def)
next
  case False
  have si: "sender_inv rs k mx s" and mi: "mtu_inv s"
    using inv by (simp_all add: session_inv_def)
  obtain s' where s': "tcp_read rs now d s = Inr s'" "sender_inv rs k mx s'"
    using tcp_read_inv [OF si fam] by blast
  from si fam False have "mtu_inv s' \<and> udpOut s' = udpOut s \<and> rx s' = rx s \<and> par s' = par s"
  proof (cases rule: tcp_read_cases [where now = now])
    case (buffer timer)
    with s'(1) buffered_mtu_inv [OF mi d, of now timer] show ?thesis
      by (auto simp: buffered_def)
  next
    case (flush m f)
    have "mtu_inv (flushed parity k m f (buffered now d False s))"
      using flush buffered_mtu_inv [OF mi d, of now False]
      by (intro flushed_mtu_inv [OF _ fam]) simp_all
    with s'(1) flush show ?thesis
      by (auto simp: flushed_def buffered_def Let_def)
  qed
  with s' inv show ?thesis by (simp add: session_inv_def recv_wf_def)
qed

lemma Close_inv: "session_inv rs k mx s \<Longrightarrow> session_inv rs k mx (Close s)"
  by (simp add: session_inv_def Close_def sender_inv_def mtu_inv_def recv_wf_def parity_inv_def
      tx_window_def pending_fits_def cache_fits_def shq.contents_stop)

lemma session_op_inv:
  "session_op rs s r \<Longrightarrow> session_inv rs k mx s \<Longrightarrow> rs_family rs k mx parity \<Longrightarrow>
     \<exists>s'. r = Inr s' \<and> session_inv rs k mx s'"
proof (induction rule: session_op_from.induct)
  case (flush_timer s)
  let ?s = "s\<lparr>tx := (tx s)\<lparr>blockTimer := False\<rparr>\<rparr>"
  have "session_inv rs k mx ?s"
    using flush_timer(2)
    by (simp add: session_inv_def sender_inv_def mtu_inv_def recv_wf_def parity_inv_def tx_window_def
        pending_fits_def cache_fits_def)
  from flush_inv [OF this flush_timer(3)] show ?case .
next
  case (data p q s now)
  then have "recv_wf k mx s" "fec_inv rs (coder s)"
    by (simp_all add: session_inv_def sender_inv_def)
  from HandleDataPacket_frame [OF this(1) data(2) this(2), of now] data(3) show ?case
    by (auto simp: session_inv_def sender_inv_def mtu_inv_def)
next
  case (lqr s now p)
  then show ?case
    by (simp add: session_inv_def HandleLQR_inv HandleLQR_mtu_inv recv_wf_def HandleLQR_frame)
next
  case (nak s now p)
  then show ?case
    by (simp add: session_inv_def HandleNak_inv HandleNak_mtu_inv recv_wf_def)
next
  case (record_rx s n)
  then show ?case
    by (simp add: session_inv_def RecordRx_def sender_inv_def mtu_inv_def recv_wf_def)
next
  case (lqr_timer s now g)
  then show ?case by (simp add: handleLQRTimeout_inv)
next
  case (nak_timer s now g)
  then show ?case by (simp add: sendNakPeriodic_inv)
next
  case (write_loop s res now)
  then show ?case by (simp add: write_step_inv)
next
  case (emit s b q now)
  then show ?case
    by (simp add: session_inv_def sendRawUDP_def sender_inv_def mtu_inv_def recv_wf_def)
next
  case (external_close s)
  then show ?case by (simp add: Close_inv)
next
  case (parent_cancel s)
  then show ?case by (simp add: session_inv_def sender_inv_def mtu_inv_def recv_wf_def)
qed

definition safe_inv ::
  "('enc, 'e) reedsolomon \<Rightarrow> nat \<Rightarrow> nat \<Rightarrow> (bytes list \<Rightarrow> bytes list) \<Rightarrow> 'enc life \<Rightarrow> bool" where
  "safe_inv rs k mx parity l \<longleftrightarrow>
     rs_family rs k mx parity \<and> \<not> panicked l \<and> session_inv rs k mx (sess l)"

lemma safe_inv_fields [simp]:
  "safe_inv rs k mx parity (l\<lparr>rpc := a\<rparr>) = safe_inv rs k mx parity l"
  "safe_inv rs k mx parity (l\<lparr>cpc := b\<rparr>) = safe_inv rs k mx parity l"
  "safe_inv rs k mx parity (l\<lparr>hpc := c\<rparr>) = safe_inv rs k mx parity l"
  "safe_inv rs k mx parity (l\<lparr>block0 := d\<rparr>) = safe_inv rs k mx parity l"
  by (simp_all add: safe_inv_def)

lemma safe_outcome:
  assumes "safe_inv rs k mx parity l" and "\<exists>s'. r = Inr s' \<and> session_inv rs k mx s'"
  shows "safe_inv rs k mx parity (outcome l r)"
  using assms by (auto simp: safe_inv_def outcome_def)

lemma safe_read:
  assumes "safe_inv rs k mx parity l" and "int (length d) \<le> maxPayload (par (sess l))"
  shows "safe_inv rs k mx parity (outcome l (tcp_read rs now d (sess l)))"
proof (rule safe_outcome [OF assms(1)])
  show "\<exists>s'. tcp_read rs now d (sess l) = Inr s' \<and> session_inv rs k mx s'"
    using assms by (intro read_inv [where parity = parity]) (simp_all add: safe_inv_def)
qed

lemma safe_sess:
  "safe_inv rs k mx parity l \<Longrightarrow> session_inv rs k mx s \<Longrightarrow> safe_inv rs k mx parity (l\<lparr>sess := s\<rparr>)"
  by (simp add: safe_inv_def)

lemma marks_inv:
  assumes "session_inv rs k mx s"
  shows "session_inv rs k mx (s\<lparr>tx := (tx s)\<lparr>sendClosed := a\<rparr>\<rparr>)"
    and "session_inv rs k mx (s\<lparr>tx := (tx s)\<lparr>closeSent := b\<rparr>\<rparr>)"
    and "session_inv rs k mx (s\<lparr>tx := (tx s)\<lparr>closeRecv := c\<rparr>\<rparr>)"
  using assms
  by (simp_all add: session_inv_def sender_inv_def mtu_inv_def recv_wf_def parity_inv_def tx_window_def
      pending_fits_def cache_fits_def)

lemma send_close_inv: "session_inv rs k mx s \<Longrightarrow> session_inv rs k mx (send_close now s)"
  by (simp add: send_close_def sendPacketDirect_inv)

lemma read_failed_inv: "session_inv rs k mx s \<Longrightarrow> session_inv rs k mx (read_failed now s)"
  by (simp add: read_failed_def numeral_eq_Suc Close_inv sendPacketDirect_inv)

text \<open>\<^verbatim>\<open>Start\<close> leaves one blank block, for group 0, unless shards arrived before.\<close>

lemma static_seqs_zero: "static_seqs 0 (int k) = map (\<lambda>i. of_nat (i mod 256)) [0..<k]"
proof -
  have "(of_int (int i mod 256) :: u8) = of_nat (i mod 256)" for i
    by (metis of_int_of_nat_eq of_nat_mod of_nat_numeral)
  then show ?thesis
    by (simp add: static_seqs_def)
qed

lemma Start_fresh:
  assumes "rxBlocks (rx s) = Map.empty" and "FEC_K (par s) = int k" and "FEC_M (par s) = int mx"
  obtains b where "Start s = Inr (s\<lparr>rx := (rx s)\<lparr>rxBlocks := [0 \<mapsto> b]\<rparr>\<rparr>)"
    and "block_wf k mx 0 b" and "blank k mx b" and "\<not> rx_LQRReported b"
proof -
  let ?b = "\<lparr>rx_GroupID = 0, rx_K = int k, rx_M = int mx, rx_Packets = replicate (k + mx) None,
     rx_SeqNums = map (\<lambda>i. of_nat (i mod 256)) [0..<k], rx_ReceivedCnt = 0,
     rx_LQRTimer = True, rx_LQRReported = False, rx_Decoded = False\<rparr>"
  have "Start s = Inr (s\<lparr>rx := (rx s)\<lparr>rxBlocks := [0 \<mapsto> ?b]\<rparr>\<rparr>)"
    using assms by (simp add: Start_def Let_def nat_add_distrib)
  moreover have "block_wf k mx 0 ?b"
    by (simp add: block_wf_def static_seqs_zero)
  moreover have "blank k mx ?b"
    by (simp add: blank_def)
  ultimately show thesis by (rule that) simp
qed

lemma Start_inv:
  assumes "session_inv rs k mx s"
  shows "\<exists>s'. Start s = Inr s' \<and> session_inv rs k mx s'"
proof (cases "rxBlocks (rx s) = Map.empty")
  case True
  moreover have "FEC_K (par s) = int k" "FEC_M (par s) = int mx"
    using assms by (simp_all add: session_inv_def recv_wf_def)
  ultimately obtain b where b: "Start s = Inr (s\<lparr>rx := (rx s)\<lparr>rxBlocks := [0 \<mapsto> b]\<rparr>\<rparr>)" "block_wf k mx 0 b"
    by (rule Start_fresh)
  with assms show ?thesis
    by (auto simp: session_inv_def recv_wf_def sender_inv_def mtu_inv_def)
next
  case False
  with assms show ?thesis by (simp add: Start_def)
qed

lemma safe_step: "life_step rs l l' \<Longrightarrow> safe_inv rs k mx parity l \<Longrightarrow> safe_inv rs k mx parity l'"
proof (induction rule: life_step_from.induct)
  case (background l r)
  then have "\<exists>s'. r = Inr s' \<and> session_inv rs k mx s'"
    by (intro session_op_inv) (auto simp: safe_inv_def)
  with background(2) show ?case by (rule safe_outcome)
next
  case (init_block l)
  then have "\<exists>s'. Start (sess l) = Inr s' \<and> session_inv rs k mx s'"
    by (intro Start_inv) (simp add: safe_inv_def)
  with init_block(2) show ?case by (simp add: safe_outcome)
next
  case (read l d now)
  then show ?case by (simp add: safe_read)
next
  case (read_eof l d now)
  then show ?case by (simp add: safe_read)
next
  case (read_error l d l' now)
  then have "safe_inv rs k mx parity l'" by (simp add: safe_read)
  then show ?case
    by (simp add: safe_sess read_failed_inv safe_inv_def)
next
  case (flush_rest l)
  then have "\<exists>s'. flushPendingBlockLocked rs (sess l) = Inr s' \<and> session_inv rs k mx s'"
    using flush_inv [of rs k mx "sess l" parity] by (simp add: safe_inv_def flushPendingBlock_def)
  with flush_rest show ?case by (simp add: safe_outcome)
qed (auto simp: safe_inv_def mark_closeSent_def mark_closeRecv_def intro: Close_inv send_close_inv marks_inv)

section \<open>Sessions as the program creates them\<close>

definition life_init ::
  "('enc, 'e) reedsolomon \<Rightarrow> nat \<Rightarrow> nat \<Rightarrow> (bytes list \<Rightarrow> bytes list) \<Rightarrow> 'enc life \<Rightarrow> bool" where
  "life_init rs k mx parity l \<longleftrightarrow> rs_family rs k mx parity \<and> 0 < k
     \<and> (\<exists>now streamID isServer mtu bandwidth. 36 < mtu
         \<and> l = life_start (NewSession now streamID isServer mtu bandwidth (int k) (int mx)))"

lemma Start_NewSession:
  assumes "Start n = Inr s" and "n = NewSession now streamID isServer mtu bandwidth (int k) (int mx)"
  obtains b where "s = n\<lparr>rx := (rx n)\<lparr>rxBlocks := [0 \<mapsto> b]\<rparr>\<rparr>"
    and "block_wf k mx 0 b" and "blank k mx b"
proof -
  have "rxBlocks (rx n) = Map.empty" "FEC_K (par n) = int k" "FEC_M (par n) = int mx"
    by (simp_all add: assms(2) NewSession_def)
  then obtain b where b: "Start n = Inr (n\<lparr>rx := (rx n)\<lparr>rxBlocks := [0 \<mapsto> b]\<rparr>\<rparr>)"
    "block_wf k mx 0 b" "blank k mx b"
    by (rule Start_fresh)
  with assms(1) have "s = n\<lparr>rx := (rx n)\<lparr>rxBlocks := [0 \<mapsto> b]\<rparr>\<rparr>" by simp
  with b(2,3) show thesis by (intro that)
qed

lemma safe_inv_init:
  assumes "life_init rs k mx parity l"
  shows "safe_inv rs k mx parity l"
proof -
  from assms obtain n now streamID isServer mtu bandwidth where
    n: "n = NewSession now streamID isServer mtu bandwidth (int k) (int mx)" "36 < mtu"
    and l: "l = life_start n"
    by (auto simp: life_init_def)
  have fam: "rs_family rs k mx parity" "0 < k"
    using assms by (simp_all add: life_init_def)
  have "sender_inv rs k mx n" "mtu_inv n" "udpOut n = []" "recv_wf k mx n"
    using fam n by (simp_all add: sender_inv_New mtu_inv_New) (simp_all add: NewSession_def recv_wf_def)
  then show ?thesis
    using fam(1) by (simp add: safe_inv_def session_inv_def l life_start_def)
qed

lemma life_init_marks:
  assumes "life_init rs k mx parity l"
  shows "rpc l = Unlaunched" "cpc l = NotStarted" "\<not> closeSent (tx (sess l))"
  using assms by (auto simp: life_init_def life_start_def NewSession_def)

lemma handshake_inv_init: "life_init rs k mx parity l \<Longrightarrow> handshake_inv l"
  by (simp add: handshake_inv_def life_init_marks)

lemma shutdown_inv_init: "life_init rs k mx parity l \<Longrightarrow> shutdown_inv l"
  by (simp add: shutdown_inv_def shutting_down_def life_init_marks)

interpretation safe: invariant_of "life_init rs k mx parity" "life_step rs" "safe_inv rs k mx parity"
  for rs :: "('enc, 'e) reedsolomon" and k mx parity
  by unfold_locales (blast intro: safe_inv_init safe_step)+

interpretation handshake: invariant_of "life_init rs k mx parity" "life_step rs" handshake_inv
  for rs :: "('enc, 'e) reedsolomon" and k mx parity
  by unfold_locales (blast intro: handshake_inv_init handshake_step)+

interpretation shutdown: invariant_of "life_init rs k mx parity" "life_step rs" shutdown_inv
  for rs :: "('enc, 'e) reedsolomon" and k mx parity
  by unfold_locales (blast intro: shutdown_inv_init shutdown_step)+

section \<open>Properties of every run\<close>

text \<open>A session of a two-shard configuration, used to instantiate the properties.\<close>

definition sample_life :: "unit life" where
  "sample_life = life_start (NewSession 0 7 False 1200 128000 2 1)"

lemma sample_life_init: "life_init xor_rs 2 1 xor_parity sample_life"
  unfolding life_init_def sample_life_def using xor_rs_family
  by (intro conjI exI [of _ 0] exI [of _ 7] exI [of _ False] exI [of _ 1200] exI [of _ 128000]) simp_all

text \<open>The same session with its goroutines running.\<close>

lemma sample_started:
  obtains s b where "reach (life_init xor_rs 2 1 xor_parity) (life_step xor_rs)
      \<lparr>sess = s, rpc = Reading, cpc = NotStarted, hpc = HandlerIdle, block0 = False, panicked = False\<rparr>"
    and "s = (NewSession 0 7 False 1200 128000 2 1)\<lparr>rx := (rx (NewSession 0 7 False 1200 128000 2 1 :: unit Session))
      \<lparr>rxBlocks := [0 \<mapsto> b]\<rparr>\<rparr>" and "\<not> rx_LQRReported b"
proof -
  let ?R = "reach (life_init xor_rs 2 1 xor_parity) (life_step xor_rs)"
  let ?L = "\<lambda>s r b0. \<lparr>sess = s, rpc = r, cpc = NotStarted, hpc = HandlerIdle, block0 = b0, panicked = False\<rparr>"
  obtain n :: "unit Session" where n: "n = NewSession 0 7 False 1200 128000 (int 2) (int 1)" by blast
  obtain b where b: "Start n = Inr (n\<lparr>rx := (rx n)\<lparr>rxBlocks := [0 \<mapsto> b]\<rparr>\<rparr>)" "\<not> rx_LQRReported b"
    by (rule Start_fresh [of n 2 1]) (simp_all add: n NewSession_def)
  have "?R (?L n Unlaunched False)"
    using reach_init [of "life_init xor_rs 2 1 xor_parity", OF sample_life_init]
    by (simp add: sample_life_def life_start_def n)
  from reach_step [OF this life_step_from.launch] have "?R (?L n Reading True)" by simp
  from reach_step [OF this life_step_from.init_block] b(1)
  have "?R (?L (n\<lparr>rx := (rx n)\<lparr>rxBlocks := [0 \<mapsto> b]\<rparr>\<rparr>) Reading False)" by (simp add: outcome_def)
  then show thesis
    by (rule that) (use b(2) in \<open>simp_all add: n\<close>)
qed

text \<open>A run in which the peer closes after the end of the stream was read.\<close>

lemma sample_closing_run:
  "\<exists>l. reach (life_init xor_rs 2 1 xor_parity) (life_step xor_rs) l \<and> closeSent (tx (sess l))
     \<and> closeRecv (tx (sess l)) \<and> cpc l = Retransmitting \<and> hpc l = HandlerIdle"
proof -
  let ?R = "reach (life_init xor_rs 2 1 xor_parity) (life_step xor_rs)"
  let ?L = "\<lambda>s r c h. \<lparr>sess = s, rpc = r, cpc = c, hpc = h, block0 = False, panicked = False\<rparr>"
  obtain s b where 0: "?R (?L s Reading NotStarted HandlerIdle)"
    and sb: "s = (NewSession 0 7 False 1200 128000 2 1)\<lparr>rx := (rx (NewSession 0 7 False 1200 128000 2 1 :: unit Session))
      \<lparr>rxBlocks := [0 \<mapsto> b]\<rparr>\<rparr>"
    by (rule sample_started)
  have s: "pendingData (tx s) = []" "queue (shp s) = []" "txBlocks (tx s) = Map.empty"
    "\<not> ctxDone s" "\<not> closeRecv (tx s)"
    by (simp_all add: sb NewSession_def NewShaper_def)
  have 1: "?R (?L s InRead NotStarted HandlerIdle)"
    using reach_step [OF 0 life_step_from.enter_read] s(2) by (simp add: QueueLen_def)
  have 2: "?R (?L s Marking NotStarted HandlerIdle)"
    using reach_step [OF 1 life_step_from.read_eof [where d = "[]"]]
    by (simp add: outcome_def tcp_read_def maxPayload_def Let_def)
  obtain s1 where s1: "s1 = s\<lparr>tx := (tx s)\<lparr>sendClosed := True\<rparr>\<rparr>" by blast
  have 3: "?R (?L s1 CheckCtx NotStarted HandlerIdle)"
    using reach_step [OF 2 life_step_from.mark] by (simp add: s1)
  have 4: "?R (?L s1 FlushRest NotStarted HandlerIdle)"
    using reach_step [OF 3 life_step_from.check_ctx] s(4) by (simp add: s1)
  have 5: "?R (?L s1 DrainQueue NotStarted HandlerIdle)"
    using reach_step [OF 4 life_step_from.flush_rest] s(1)
    by (simp add: s1 outcome_def flushPendingBlockLocked_def)
  have 6: "?R (?L s1 (AwaitReports 0) NotStarted HandlerIdle)"
    using reach_step [OF 5 life_step_from.drained] s(2) by (simp add: s1 QueueLen_def)
  have 7: "?R (?L s1 ReaderReturned FirstClose HandlerIdle)"
    using reach_step [OF 6 life_step_from.await_done] s(3) by (simp add: s1 allAcked_def)
  obtain s2 where s2: "s2 = send_close 0 s1" by blast
  have 8: "?R (?L s2 ReaderReturned MarkSent HandlerIdle)"
    using reach_step [OF 7 life_step_from.first_close] by (simp add: s2)
  obtain s3 where s3: "s3 = s2\<lparr>tx := (tx s2)\<lparr>closeSent := True\<rparr>\<rparr>" by blast
  have 9: "?R (?L s3 ReaderReturned Retransmitting HandlerIdle)"
    using reach_step [OF 8 life_step_from.mark_sent [of _ s3 False]] s(5)
    by (simp add: s3 s2 s1 mark_closeSent_def)
  obtain s4 where s4: "s4 = s3\<lparr>tx := (tx s3)\<lparr>closeRecv := True\<rparr>\<rparr>" by blast
  have 10: "?R (?L s4 ReaderReturned Retransmitting HandlerCloses)"
    using reach_step [OF 9 life_step_from.handle_close [of _ s4 True]]
    by (simp add: s4 s3 mark_closeRecv_def)
  have "?R (?L (Close s4) ReaderReturned Retransmitting HandlerIdle)"
    using reach_step [OF 10 life_step_from.handler_closes] by simp
  then show ?thesis
    by (intro exI [of _ "?L (Close s4) ReaderReturned Retransmitting HandlerIdle"])
      (simp add: Close_def s4 s3)
qed

text \<open>
  C4: no interleaving of the read loop, the shutdown, the demultiplexer, the write loop, the
  shaper and the timers of a session makes any of them panic, for a configuration the
  erasure code supports and whatever packets arrive.
\<close>
theorem session_never_panics:
  assumes "reach (life_init rs k mx parity) (life_step rs) l"
  shows "\<not> panicked l"
  using safe.reach_inv [OF assms] by (simp add: safe_inv_def)

theorem session_never_panics_witness: "\<not> panicked sample_life"
  by (rule session_never_panics [OF reach_init, OF sample_life_init])

text \<open>
  C21: every datagram a session sends, data, parity, retransmission or control, fits the
  configured link MTU together with its 28 bytes of IP and UDP headers.
\<close>
theorem datagrams_fit:
  assumes "reach (life_init rs k mx parity) (life_step rs) l" and "b \<in> set (udpOut (sess l))"
  shows "int (length b) + 28 \<le> LinkMTU (par (sess l))"
  using safe.reach_inv [OF assms(1)] assms(2)
  by (simp add: safe_inv_def session_inv_def list_all_iff fits_def)

theorem datagrams_fit_witness:
  "\<exists>l b. reach (life_init xor_rs 2 1 xor_parity) (life_step xor_rs) l \<and> b \<in> set (udpOut (sess l))
     \<and> int (length b) + 28 \<le> LinkMTU (par (sess l))"
proof -
  let ?R = "reach (life_init xor_rs 2 1 xor_parity) (life_step xor_rs)"
  let ?L = "\<lambda>s. \<lparr>sess = s, rpc = Reading, cpc = NotStarted, hpc = HandlerIdle, block0 = False,
      panicked = False\<rparr>"
  obtain s b where l: "?R (?L s)"
    and s: "s = (NewSession 0 7 False 1200 128000 2 1)\<lparr>rx := (rx (NewSession 0 7 False 1200 128000 2 1 :: unit Session))
      \<lparr>rxBlocks := [0 \<mapsto> b]\<rparr>\<rparr>" and b: "\<not> rx_LQRReported b"
    by (rule sample_started)
  let ?t = "outcome (?L s) (Inr (handleLQRTimeout 0 0 s))"
  have r: "?R ?t"
    using l by (rule reach_step) (auto intro!: life_step_from.background session_op_from.lqr_timer)
  obtain d where d: "Marshal (lqr_packet (StreamID (par s)) 0 (report_losses b)) = Inr d"
    using Marshal_ok_iff [of "lqr_packet (StreamID (par s)) 0 (report_losses b)"]
    by (auto simp: encodable_def lqr_packet_def zero_packet_def s NewSession_def packet_types)
  then have "d \<in> set (udpOut (sess ?t))"
    using b s by (simp add: outcome_def handleLQRTimeout_def Let_def udpOut_sendPacketDirect marshal_all_def)
  with datagrams_fit [OF r this] r show ?thesis by blast
qed

text \<open>
  C13: once both sides' CLOSE have been recorded, whichever goroutine recorded its own second
  closes the session: outside the two windows in which a goroutine is about to call \<^verbatim>\<open>Close\<close>,
  the session is closed.
\<close>
theorem both_closed_is_closed:
  assumes "reach (life_init rs k mx parity) (life_step rs) l"
    and "closeSent (tx (sess l))" and "closeRecv (tx (sess l))"
    and "cpc l \<noteq> CloserCloses" and "hpc l = HandlerIdle"
  shows "IsClosed (sess l)"
  using handshake.reach_inv [OF assms(1)] assms(2-5)
  by (auto simp: handshake_inv_def IsClosed_def)

theorem both_closed_is_closed_witness:
  "\<exists>l. reach (life_init xor_rs 2 1 xor_parity) (life_step xor_rs) l \<and> closeSent (tx (sess l))
     \<and> closeRecv (tx (sess l)) \<and> cpc l = Retransmitting \<and> hpc l = HandlerIdle \<and> IsClosed (sess l)"
proof -
  obtain l where l: "reach (life_init xor_rs 2 1 xor_parity) (life_step xor_rs) l"
    "closeSent (tx (sess l))" "closeRecv (tx (sess l))" "cpc l = Retransmitting" "hpc l = HandlerIdle"
    using sample_closing_run by blast
  then have "IsClosed (sess l)"
    by (intro both_closed_is_closed [OF l(1)]) simp_all
  with l show ?thesis by blast
qed

text \<open>
  C14: a session that has sent CLOSE has stopped reading and has handed every byte it read to
  the shaper: no pending data is left behind.
\<close>
theorem close_after_last_data:
  assumes "reach (life_init rs k mx parity) (life_step rs) l" and "closeSent (tx (sess l))"
  shows "rpc l = ReaderReturned \<and> sendClosed (tx (sess l)) \<and> pendingData (tx (sess l)) = []"
  using shutdown.reach_inv [OF assms(1)] safe.reach_inv [OF assms(1)] assms(2)
  by (auto simp: shutdown_inv_def shutting_down_def safe_inv_def)

theorem close_after_last_data_witness:
  "\<exists>l. reach (life_init xor_rs 2 1 xor_parity) (life_step xor_rs) l \<and> closeSent (tx (sess l))
     \<and> rpc l = ReaderReturned \<and> pendingData (tx (sess l)) = []"
  using sample_closing_run close_after_last_data by metis

text \<open>
  C22: the parity count always stays between zero and the configured maximum, and the sender
  never tracks more than 101 unreported blocks, however many reports are lost.
\<close>
theorem sender_state_bounded:
  assumes "reach (life_init rs k mx parity) (life_step rs) l"
  shows "0 \<le> curM (tx (sess l)) \<and> curM (tx (sess l)) \<le> int mx
     \<and> card (dom (txBlocks (tx (sess l)))) \<le> 101"
  using safe.reach_inv [OF assms]
  by (auto simp: safe_inv_def session_inv_def sender_inv_def parity_inv_def intro: tx_window_card)

theorem sender_state_bounded_witness:
  "0 \<le> curM (tx (sess sample_life)) \<and> curM (tx (sess sample_life)) \<le> 1
     \<and> card (dom (txBlocks (tx (sess sample_life)))) \<le> 101"
  using sender_state_bounded [OF reach_init, OF sample_life_init] by simp

section \<open>Pacing and tracked blocks\<close>

text \<open>
  The shaper's burst follows the parity count in use, and every tracked block is one whose
  report is still missing.
\<close>

definition paced :: "'enc Session \<Rightarrow> bool" where
  "paced s \<longleftrightarrow> burstSize (shp s) = FEC_K (par s) + curM (tx s)
     \<and> burstInterval (shp s) =
         burst_interval (LinkMTU (par s)) (Bandwidth (par s)) (FEC_K (par s) + curM (tx s))
     \<and> (\<forall>g b. txBlocks (tx s) g = Some b \<longrightarrow> \<not> tx_LQRRecved b)"

text \<open>It depends on no other field.\<close>

definition same_pace :: "'enc Session \<Rightarrow> 'enc Session \<Rightarrow> bool" where
  "same_pace s s' \<longleftrightarrow> par s' = par s \<and> burstSize (shp s') = burstSize (shp s)
     \<and> burstInterval (shp s') = burstInterval (shp s) \<and> curM (tx s') = curM (tx s)
     \<and> (\<forall>g b. txBlocks (tx s') g = Some b \<longrightarrow> txBlocks (tx s) g = Some b \<or> \<not> tx_LQRRecved b)"

lemma same_pace_paced: "same_pace s s' \<Longrightarrow> paced s \<Longrightarrow> paced s'"
  unfolding same_pace_def paced_def by metis

lemma same_pace_refl: "same_pace s s"
  by (simp add: same_pace_def)

lemma flush_pace: "flushPendingBlockLocked rs s = Inr s' \<Longrightarrow> same_pace s s'"
  by (auto simp: flushPendingBlockLocked_def same_pace_def Let_def shaper_op_defs drop_stale_def
      split: if_splits prod.splits sum.splits go_failure.splits)

lemma tcp_read_pace: "tcp_read rs now d s = Inr s' \<Longrightarrow> same_pace s s'"
  by (fastforce simp: tcp_read_def Let_def same_pace_def split: if_splits dest!: flush_pace)

lemma HandleDataPacket_pace: "HandleDataPacket rs now p s = Inr s' \<Longrightarrow> same_pace s s'"
  by (auto simp: HandleDataPacket_def same_pace_def Let_def
      split: if_splits prod.splits sum.splits option.splits)

lemma HandleNak_pace: "same_pace s (HandleNak now p s)"
  by (simp add: same_pace_def HandleNak_def Let_def Enqueue_def split: option.splits sum.splits)

lemma sendNakPeriodic_pace: "sendNakPeriodic now g s = Inr s' \<Longrightarrow> same_pace s s'"
  using nak_loop [of now _ _ "s\<lparr>nakTimers := remove1 g (nakTimers s)\<rparr>"]
  by (auto simp: sendNakPeriodic_def same_pace_def Let_def split: if_splits option.splits)

lemma write_step_pace: "write_step res now s = Inr s' \<Longrightarrow> same_pace s s'"
  by (auto simp: write_step_def same_pace_def Let_def split: if_splits prod.splits write_choice.splits)

lemma HandleLQR_paced:
  assumes "paced s"
  shows "paced (HandleLQR now p s)"
proof (cases "awaited s (pGroupID p)")
  case True
  then show ?thesis
    using assms adapt_unchanged [of "FEC_M (par s)" "unat (pLosses p)" "tx s"]
      adapt_frame(4) [of "FEC_M (par s)" "unat (pLosses p)" "tx s"]
    by (auto simp: awaited_def HandleLQR_def paced_def Let_def updateShaperParams_def UpdateParams_def
        split: prod.splits if_splits)
next
  case False
  then have "HandleLQR now p s = updateLastActive now s"
    by (auto simp: HandleLQR_def Let_def awaited_def split: option.splits)
  with assms show ?thesis by (simp add: paced_def)
qed

lemma session_op_paced: "session_op rs s r \<Longrightarrow> r = Inr s' \<Longrightarrow> paced s \<Longrightarrow> paced s'"
proof (induction rule: session_op_from.induct)
  case (flush_timer s)
  then have "same_pace (s\<lparr>tx := (tx s)\<lparr>blockTimer := False\<rparr>\<rparr>) s'"
    by (simp add: flushPendingBlock_def flush_pace)
  then have "same_pace s s'" by (simp add: same_pace_def)
  then show ?case using flush_timer(3) by (rule same_pace_paced)
next
  case (data p q s now)
  then show ?case by (blast intro: same_pace_paced HandleDataPacket_pace)
next
  case (lqr s now p)
  then show ?case using HandleLQR_paced by auto
next
  case (nak s now p)
  then show ?case using same_pace_paced [OF HandleNak_pace] by auto
next
  case (nak_timer s now g)
  then show ?case by (blast intro: same_pace_paced sendNakPeriodic_pace)
next
  case (write_loop s res now)
  then show ?case by (blast intro: same_pace_paced write_step_pace)
qed (auto simp: paced_def RecordRx_def sendRawUDP_def Close_def Stop_def)

lemma Start_pace: "Start s = Inr s' \<Longrightarrow> same_pace s s'"
  by (auto simp: Start_def same_pace_def Let_def split: if_splits)

lemma outcome_paced:
  assumes "paced (sess l)" and "\<And>s'. r = Inr s' \<Longrightarrow> paced s'"
  shows "paced (sess (outcome l r))"
  using assms by (cases r) (auto simp: outcome_def)

lemma read_failed_pace: "same_pace s (read_failed now s)"
  by (simp add: same_pace_def read_failed_def Close_def Stop_def numeral_eq_Suc)

lemma paced_step: "life_step rs l l' \<Longrightarrow> paced (sess l) \<Longrightarrow> paced (sess l')"
proof (induction rule: life_step_from.induct)
  case (background l r)
  then show ?case by (blast intro: outcome_paced session_op_paced)
next
  case (init_block l)
  then have "paced (sess (outcome l (Start (sess l))))"
    by (blast intro: outcome_paced same_pace_paced Start_pace)
  then show ?case by simp
next
  case (read l d now)
  then have "paced (sess (outcome l (tcp_read rs now d (sess l))))"
    by (blast intro: outcome_paced same_pace_paced tcp_read_pace)
  then show ?case by simp
next
  case (read_eof l d now)
  then have "paced (sess (outcome l (tcp_read rs now d (sess l))))"
    by (blast intro: outcome_paced same_pace_paced tcp_read_pace)
  then show ?case by simp
next
  case (read_error l d l' now)
  then have "paced (sess l')"
    by (blast intro: outcome_paced same_pace_paced tcp_read_pace)
  then show ?case using same_pace_paced [OF read_failed_pace] by simp
next
  case (flush_rest l)
  then have "paced (sess (outcome l (flushPendingBlockLocked rs (sess l))))"
    by (blast intro: outcome_paced same_pace_paced flush_pace)
  then show ?case by simp
qed (auto simp: paced_def mark_closeSent_def mark_closeRecv_def Close_def Stop_def)

lemma paced_init: "life_init rs k mx parity l \<Longrightarrow> paced (sess l)"
  by (auto simp: life_init_def life_start_def paced_def NewSession_def NewShaper_def)

interpretation pace: invariant_of "life_init rs k mx parity" "life_step rs" "\<lambda>l. paced (sess l)"
  for rs :: "('enc, 'e) reedsolomon" and k mx parity
  by unfold_locales (blast intro: paced_init paced_step)+

text \<open>
  C30: the shaper is kept in step with the error correction. In every reachable state the
  burst size is the size of a block, data and parity shards in use, and the burst interval is
  the time such a block takes at the configured bandwidth.
\<close>
theorem shaper_follows_parity:
  assumes "reach (life_init rs k mx parity) (life_step rs) l"
  shows "burstSize (shp (sess l)) = FEC_K (par (sess l)) + curM (tx (sess l))
     \<and> burstInterval (shp (sess l)) = burst_interval (LinkMTU (par (sess l))) (Bandwidth (par (sess l)))
          (FEC_K (par (sess l)) + curM (tx (sess l)))"
  using pace.reach_inv [OF assms] by (simp add: paced_def)

theorem shaper_follows_parity_witness: "burstSize (shp (sess sample_life)) = 3"
proof -
  have "FEC_K (par (sess sample_life)) = 2" "curM (tx (sess sample_life)) = 1"
    by (simp_all add: sample_life_def life_start_def NewSession_def)
  then show ?thesis
    using shaper_follows_parity [OF reach_init, OF sample_life_init] by simp
qed

text \<open>
  The poll that delays CLOSE is exact. In every reachable state it says that all
  blocks are acknowledged exactly when no block is tracked.
\<close>
lemma all_acked_iff_none_tracked:
  assumes "reach (life_init rs k mx parity) (life_step rs) l"
  shows "allAcked (tx (sess l)) \<longleftrightarrow> txBlocks (tx (sess l)) = Map.empty"
proof -
  have "\<not> tx_LQRRecved b" if "txBlocks (tx (sess l)) g = Some b" for g b
    using pace.reach_inv [OF assms] that by (simp add: paced_def)
  then show ?thesis
    unfolding allAcked_def by (metis ranI ran_empty empty_iff not_None_eq ext)
qed

end
