(* ===== verification/Delivery.thy ===== *)
theory Delivery
  imports Session
begin

text \<open>
  The two ends of one direction of a stream, each relative to the history of blocks flushed
  by the sender: what the sender's counters, retransmission cache, queue and datagrams
  say about the history, and what the receiver's blocks and output say about it. One lemma
  per operation shows that it keeps the relation.
\<close>

section \<open>Blocks and datagrams\<close>

text \<open>The datagram is a shard of block \<open>n\<close>, as the receiver decodes it.\<close>

definition carries ::
  "(bytes list \<Rightarrow> bytes list) \<Rightarrow> nat \<Rightarrow> nat \<Rightarrow> bytes list list \<Rightarrow> nat \<Rightarrow> bytes \<Rightarrow> bool" where
  "carries parity k mx h n d \<longleftrightarrow> n < length h \<and> (\<exists>p i. Unmarshal d = Inr p \<and> i < k + mx
     \<and> pType p = TypeData \<and> pGroupID p = of_nat n \<and> unat (pIdx p) = i
     \<and> pPayload p = Some (code_shard parity k mx (h ! n) i))"

text \<open>
  The blocks that a read, or the flush timer, adds to the history.
\<close>

definition read_flushes :: "bytes \<Rightarrow> 'enc Session \<Rightarrow> bytes list list" where
  "read_flushes d s =
     (let pending = pendingData (tx s) @ [frame d] in
      if d \<noteq> [] \<and> int (length pending) \<ge> FEC_K (par s) then [pad_block (FEC_K (par s)) pending] else [])"

definition timer_flushes :: "'enc Session \<Rightarrow> bytes list list" where
  "timer_flushes s =
     (if pendingData (tx s) = [] then [] else [pad_block (FEC_K (par s)) (pendingData (tx s))])"

section \<open>Datagrams carry shards\<close>

lemma carries_append: "carries parity k mx h n d \<Longrightarrow> carries parity k mx (h @ h') n d"
  by (auto simp: carries_def nth_append)

lemma u8_idx:
  assumes "i < 32"
  shows "unat (of_nat i :: u8) = i" and "(of_nat i :: u8) AND 0x1F = of_nat i"
proof -
  show u: "unat (of_nat i :: u8) = i"
    using assms by (simp add: unat_of_nat)
  show "(of_nat i :: u8) AND 0x1F = of_nat i"
    by (rule idx_small) (use assms u in \<open>simp add: word_less_nat_alt\<close>)
qed

lemma data_packet_carries:
  assumes "Marshal (data_packet sid (of_nat n) q i (h ! n ! i)) = Inr d"
    and "n < length h" and "i < k" and "k + mx \<le> 32"
  shows "carries parity k mx h n d"
proof -
  have "i < 32" using assms(3,4) by simp
  have "Unmarshal d = Inr (wire_view (data_packet sid (of_nat n) q i (h ! n ! i)))"
    by (rule wire.dec_enc [OF assms(1)])
  then show ?thesis
    using assms(2-4) u8_idx [OF \<open>i < 32\<close>]
    by (simp add: carries_def wire_view_def data_packet_def code_shard_def zero_packet_def)
qed

lemma parity_packet_carries:
  assumes "Marshal (parity_packet sid (of_nat n) (int k) j (block_parity parity k m (h ! n) ! j)) = Inr d"
    and "n < length h" and "j < m" and "m \<le> mx" and "k + mx \<le> 32"
  shows "carries parity k mx h n d"
proof -
  let ?x = "block_parity parity k m (h ! n) ! j"
  have "k + j < 32" and eq: "(of_int (int k + int j) :: u8) = of_nat (k + j)"
    using assms(3-5) by simp_all
  have "?x = block_parity parity k mx (h ! n) ! j"
    using assms(3,4) by (simp add: block_parity_def)
  moreover have "Unmarshal d = Inr (wire_view (parity_packet sid (of_nat n) (int k) j ?x))"
    by (rule wire.dec_enc [OF assms(1)])
  ultimately show ?thesis
    using assms(2-5) u8_idx [OF \<open>k + j < 32\<close>] eq
    by (simp add: carries_def wire_view_def parity_packet_def code_shard_def zero_packet_def)
qed

lemma block_packets_carry:
  assumes "d \<in> set (marshal_all (block_packets parity sid (of_nat n) k m q (h ! n)))"
    and "n < length h" and "m \<le> mx" and "k + mx \<le> 32"
  shows "carries parity k mx h n d"
  using assms data_packet_carries parity_packet_carries
  by (fastforce simp: in_marshal_all block_packets_def data_packets_map parity_packets_def)

section \<open>The sending end\<close>

text \<open>
  Relative to a history \<open>h\<close>, the datagrams \<open>N\<close> in the network and the bytes \<open>rd\<close> read so far:
  counters and retransmission cache follow the history, its shards are frames, nothing that
  was read is missing, and everything queued or sent carries a shard of the history.
\<close>

definition tx_ok ::
  "(bytes list \<Rightarrow> bytes list) \<Rightarrow> nat \<Rightarrow> nat \<Rightarrow> 'enc Session \<Rightarrow> bytes list list \<Rightarrow> bytes set \<Rightarrow> bytes \<Rightarrow> bool"
where
  "tx_ok parity k mx s h N rd \<longleftrightarrow> sender_hist k s h
     \<and> list_all (list_all framed) h \<and> list_all framed (pendingData (tx s))
     \<and> rd = concat (map block_bytes h) @ block_bytes (pendingData (tx s))
     \<and> (\<forall>d \<in> set (queue (shp s)) \<union> N. \<exists>n. carries parity k mx h n d)
     \<and> (\<forall>q p. harqCache (tx s) q = Some p \<longrightarrow> (\<exists>n i. n < length h \<and> i < k
          \<and> p = data_packet (StreamID (par s)) (of_nat n) q i (h ! n ! i)))"

lemma cache_packets_Some: "cache_packets ps c q = Some p \<Longrightarrow> (p \<in> set ps \<and> pSeqNum p = q) \<or> c q = Some p"
  by (induction ps arbitrary: c) (fastforce simp: cache_packets_def split: if_splits)+

lemma framed_padding: "framed padding_shard"
  unfolding framed_def padding_is_frame by (intro exI [of _ "[]"]) simp

lemma framed_pad_block: "list_all framed pd \<Longrightarrow> list_all framed (pad_block k pd)"
  by (auto simp: pad_block_def list_all_iff framed_padding)

lemma flushed_cache:
  assumes cache: "\<And>q p. harqCache (tx s) q = Some p \<Longrightarrow> \<exists>n i. n < length h \<and> i < k
      \<and> p = data_packet (StreamID (par s)) (of_nat n) q i (h ! n ! i)"
    and g: "nextGroupID (tx s) = of_nat (length h)"
    and c: "harqCache (tx (flushed parity k m f s)) q = Some p"
  shows "\<exists>n i. n < Suc (length h) \<and> i < k \<and> p = data_packet (StreamID (par s)) (of_nat n) q i
      ((h @ [pad_block (int k) (pendingData (tx s))]) ! n ! i)"
proof -
  let ?pd = "pad_block (int k) (pendingData (tx s))"
  let ?ds = "data_packets (StreamID (par s)) (of_nat (length h)) ?pd k 0 (nextSeqNum (tx s))"
  from c have "cache_packets ?ds (harqCache (tx s)) q = Some p"
    by (simp add: flushed_def Let_def g)
  then consider (new) "p \<in> set ?ds" "pSeqNum p = q" | (old) "harqCache (tx s) q = Some p"
    using cache_packets_Some by blast
  then show ?thesis
  proof cases
    case new
    then obtain j where j: "j < k"
      "p = data_packet (StreamID (par s)) (of_nat (length h)) (nextSeqNum (tx s) + of_nat j) j (?pd ! j)"
      by (auto simp: data_packets_map)
    with \<open>pSeqNum p = q\<close> have "q = nextSeqNum (tx s) + of_nat j"
      by (simp add: data_packet_def)
    with j show ?thesis
      by (intro exI [of _ "length h"] exI [of _ j]) simp
  next
    case old
    from cache [OF old] obtain n i where "n < length h" "i < k"
      "p = data_packet (StreamID (par s)) (of_nat n) q i (h ! n ! i)" by blast
    then show ?thesis
      by (intro exI [of _ n] exI [of _ i]) (simp add: nth_append)
  qed
qed

lemma tx_ok_flushed:
  assumes ok: "tx_ok parity k mx s h N rd" and k: "0 < k" "k + mx \<le> 32" "m \<le> mx"
    and len: "length (pendingData (tx s)) \<le> k"
  shows "tx_ok parity k mx (flushed parity k m f s) (h @ [pad_block (int k) (pendingData (tx s))]) N rd"
proof -
  let ?pd = "pad_block (int k) (pendingData (tx s))" and ?s = "flushed parity k m f s"
  let ?h = "h @ [?pd]"
  have sh: "sender_hist k s h" and g: "nextGroupID (tx s) = of_nat (length h)"
    using ok by (simp_all add: tx_ok_def sender_hist_def)
  have "sender_hist k ?s ?h"
    using flushed_hist [OF sh k(1) _ len] k(2) by simp
  moreover have "list_all (list_all framed) ?h"
    using ok by (simp add: tx_ok_def framed_pad_block)
  moreover have "rd = concat (map block_bytes ?h) @ block_bytes (pendingData (tx ?s))"
    using ok by (simp add: tx_ok_def flushed_def Let_def block_bytes_def [of "[]"])
  moreover have "\<exists>n. carries parity k mx ?h n d" if "d \<in> set (queue (shp ?s)) \<union> N" for d
  proof -
    let ?ds = "marshal_all (block_packets parity (StreamID (par s)) (of_nat (length h)) k m
        (nextSeqNum (tx s)) ?pd)"
    from that have "d \<in> set (queue (shp s)) \<union> N \<or> d \<in> set ?ds"
      by (auto simp: flushed_def Let_def shq.contents_enq_many g split: if_splits)
    then show ?thesis
    proof
      assume "d \<in> set (queue (shp s)) \<union> N"
      then obtain n where "carries parity k mx h n d"
        using ok unfolding tx_ok_def by blast
      then show ?thesis using carries_append by blast
    next
      assume "d \<in> set ?ds"
      then have "carries parity k mx ?h (length h) d"
        using block_packets_carry [of d parity "StreamID (par s)" "length h" k m _ ?h mx] k by simp
      then show ?thesis by blast
    qed
  qed
  moreover have "\<exists>n i. n < length ?h \<and> i < k
      \<and> p = data_packet (StreamID (par ?s)) (of_nat n) q i (?h ! n ! i)"
    if "harqCache (tx ?s) q = Some p" for q p
    using flushed_cache [OF _ g that] ok by (simp add: tx_ok_def flushed_def Let_def)
  ultimately show ?thesis
    unfolding tx_ok_def by (simp add: flushed_def Let_def)
qed

lemma tx_ok_buffered:
  assumes "tx_ok parity k mx s h N rd" and "length d < 65536"
  shows "tx_ok parity k mx (buffered now d timer s) h N (rd @ d)"
  using assms
  by (auto simp: tx_ok_def sender_hist_def block_bytes_append block_bytes_frame framed_def)

lemma payload_small:
  "int (length d) \<le> maxPayload pr \<Longrightarrow> LinkMTU pr \<le> 65535 \<Longrightarrow> length d < 65536"
  by (auto simp: maxPayload_def Let_def split: if_splits)

lemma tx_ok_read:
  assumes inv: "sender_inv rs k mx s" and fam: "rs_family rs k mx parity" and k: "k + mx \<le> 32"
    and ok: "tx_ok parity k mx s h N rd" and d: "length d < 65536"
    and r: "tcp_read rs now d s = Inr s'"
  shows "tx_ok parity k mx s' (h @ read_flushes d s) N (rd @ d)"
proof (cases "d = []")
  case True
  with ok r show ?thesis by (simp add: tcp_read_def read_flushes_def)
next
  case False
  have K: "0 < k" "FEC_K (par s) = int k" using inv by (simp_all add: sender_inv_def)
  from inv fam False show ?thesis
  proof (cases rule: tcp_read_cases [where now = now])
    case (buffer timer)
    then have "read_flushes d s = []"
      using K by (simp add: read_flushes_def)
    with buffer r tx_ok_buffered [OF ok d] show ?thesis by simp
  next
    case (flush m f)
    then have fl: "read_flushes d s = [pad_block (int k) (pendingData (tx s) @ [frame d])]"
      using K False by (simp add: read_flushes_def)
    have "tx_ok parity k mx (flushed parity k m f (buffered now d False s))
        (h @ [pad_block (int k) (pendingData (tx (buffered now d False s)))]) N (rd @ d)"
      using flush k K(1) by (intro tx_ok_flushed tx_ok_buffered ok d) simp_all
    with flush r fl show ?thesis by simp
  qed
qed

lemma tx_ok_timer:
  assumes "sender_inv rs k mx s" and "rs_family rs k mx parity" and "k + mx \<le> 32"
    and "tx_ok parity k mx s h N rd" and r: "flushPendingBlock rs s = Inr s'"
  shows "tx_ok parity k mx s' (h @ timer_flushes s) N rd"
proof (cases "pendingData (tx s) = []")
  case True
  with assms(4) r show ?thesis by (simp add: flushPendingBlock_empty timer_flushes_def)
next
  case False
  obtain m f where f: "flushPendingBlock rs s = Inr (flushed parity k m f s)" "m \<le> mx"
    by (rule flush_total [OF assms(1,2) False])
  have "tx_ok parity k mx (flushed parity k m f s)
      (h @ [pad_block (int k) (pendingData (tx s))]) N rd"
    using assms(1,3) f(2) by (intro tx_ok_flushed assms(4)) (simp_all add: sender_inv_def)
  with f(1) r False assms(1) show ?thesis
    by (simp add: timer_flushes_def sender_inv_def)
qed

lemma tx_ok_nak:
  assumes "tx_ok parity k mx s h N rd" and "k + mx \<le> 32"
  shows "tx_ok parity k mx (HandleNak now p s) h N rd"
proof -
  have "\<exists>n. carries parity k mx h n d"
    if "harqCache (tx s) (pSeqNum p) = Some c" "d \<in> set (marshal_all [c])" for c d
  proof -
    from that(1) assms(1) obtain n i where "n < length h" "i < k"
      and c: "c = data_packet (StreamID (par s)) (of_nat n) (pSeqNum p) i (h ! n ! i)"
      unfolding tx_ok_def by blast
    moreover from that(2) have "Marshal c = Inr d" by (simp add: in_marshal_all)
    ultimately show ?thesis
      using data_packet_carries assms(2) by blast
  qed
  then have "\<exists>n. carries parity k mx h n d" if "d \<in> set (queue (shp (HandleNak now p s))) \<union> N" for d
    using that assms(1) unfolding tx_ok_def
    by (cases "harqCache (tx s) (pSeqNum p)") (auto simp: HandleNak_queue split: if_splits)
  with assms(1) show ?thesis
    by (simp add: tx_ok_def sender_hist_def)
qed

lemma tx_ok_lqr: "tx_ok parity k mx s h N rd \<Longrightarrow> tx_ok parity k mx (HandleLQR now p s) h N rd"
  by (simp add: tx_ok_def HandleLQR_frame HandleLQR_hist)

lemma tx_ok_emit:
  assumes "tx_ok parity k mx s h N rd" and "queue (shp s) = d # q"
  shows "tx_ok parity k mx (sendRawUDP now d (s\<lparr>shp := (shp s)\<lparr>queue := q\<rparr>\<rparr>)) h (insert d N) rd"
  using assms by (auto simp: tx_ok_def sender_hist_def sendRawUDP_def)

lemma tx_ok_close: "tx_ok parity k mx s h N rd \<Longrightarrow> tx_ok parity k mx (Close s) h N rd"
  by (simp add: tx_ok_def sender_hist_def Close_def shq.contents_stop)

section \<open>The receiving end\<close>

text \<open>A block in store: still blank, or the shards of one of the next 32768 blocks of the history.\<close>

definition block_ok ::
  "(bytes list \<Rightarrow> bytes list) \<Rightarrow> nat \<Rightarrow> nat \<Rightarrow> bytes list list \<Rightarrow> nat \<Rightarrow> u16 \<Rightarrow> RxBlock \<Rightarrow> bool" where
  "block_ok parity k mx h W g b \<longleftrightarrow> blank k mx b \<and> rx_ReceivedCnt b < int k \<or>
     (\<exists>n. W \<le> n \<and> n < W + 32768 \<and> g = of_nat n \<and> n < length h \<and> rx_matches parity k mx (h ! n) b
        \<and> (int k \<le> rx_ReceivedCnt b \<longrightarrow> rx_Decoded b))"

definition blocks_ok ::
  "(bytes list \<Rightarrow> bytes list) \<Rightarrow> nat \<Rightarrow> nat \<Rightarrow> bytes list list \<Rightarrow> nat \<Rightarrow> (u16 \<rightharpoonup> RxBlock) \<Rightarrow> bool" where
  "blocks_ok parity k mx h W B \<longleftrightarrow> (\<forall>g b. B g = Some b \<longrightarrow> block_ok parity k mx h W g b)"

lemma block_ok_append: "block_ok parity k mx h W g b \<Longrightarrow> block_ok parity k mx (h @ h') W g b"
  by (auto simp: block_ok_def nth_append intro: exI)

lemma block_ok_reported: "block_ok parity k mx h W g b \<Longrightarrow> block_ok parity k mx h W g (b\<lparr>rx_LQRReported := True\<rparr>)"
  by (simp add: block_ok_def blank_def rx_matches_def)

lemma block_ok_advance:
  assumes "block_ok parity k mx h W g b" and "g \<noteq> of_nat W"
  shows "block_ok parity k mx h (Suc W) g b"
  using assms unfolding block_ok_def
proof (elim disjE exE conjE)
  fix n
  assume n: "W \<le> n" "n < W + 32768" "g = of_nat n" "n < length h" "rx_matches parity k mx (h ! n) b"
    "int k \<le> rx_ReceivedCnt b \<longrightarrow> rx_Decoded b"
  then have "n \<noteq> W" using assms(2) by auto
  with n have "Suc W \<le> n" "n < Suc W + 32768" by simp_all
  with n show "blank k mx b \<and> rx_ReceivedCnt b < int k \<or>
      (\<exists>n. Suc W \<le> n \<and> n < Suc W + 32768 \<and> g = of_nat n \<and> n < length h \<and> rx_matches parity k mx (h ! n) b
        \<and> (int k \<le> rx_ReceivedCnt b \<longrightarrow> rx_Decoded b))" by blast
qed simp

text \<open>
  Relative to the history and the number \<open>W\<close> of blocks written: every block in store is
  blank, or is one of the next 32768, holds that block's shards only and is decoded once it
  has \<open>k\<close>; and what was written is exactly the
  first \<open>W\<close> blocks (plus part of the next if a write failed, after which the loop is over).
\<close>

definition rx_ok ::
  "('enc, 'e) reedsolomon \<Rightarrow> (bytes list \<Rightarrow> bytes list) \<Rightarrow> nat \<Rightarrow> nat \<Rightarrow> 'enc Session \<Rightarrow> bytes list list \<Rightarrow> nat
    \<Rightarrow> bool" where
  "rx_ok rs parity k mx r h W \<longleftrightarrow> recv_wf k mx r \<and> fec_inv rs (coder r)
     \<and> nextWriteGrp (rx r) = of_nat W \<and> W \<le> length h
     \<and> blocks_ok parity k mx h W (rxBlocks (rx r))
     \<and> (\<not> recvClosed (rx r) \<longrightarrow> concat (tcpOut r) = concat (map block_bytes (take W h)))
     \<and> prefix (concat (tcpOut r)) (concat (map block_bytes h))"

lemma rx_ok_append: "rx_ok rs parity k mx r h W \<Longrightarrow> rx_ok rs parity k mx r (h @ h') W"
proof -
  assume ok: "rx_ok rs parity k mx r h W"
  then have "blocks_ok parity k mx (h @ h') W (rxBlocks (rx r))"
    by (simp add: rx_ok_def blocks_ok_def block_ok_append)
  with ok show ?thesis
    by (auto simp: rx_ok_def intro: prefix_prefix)
qed

lemma of_nat_u16_window:
  assumes "(of_nat a :: u16) = of_nat b" and "a < b + 65536" and "b < a + 65536"
  shows "a = b"
proof -
  have le: "x = y" if "(of_nat x :: u16) = of_nat y" "y < x + 65536" "x \<le> y" for x y
  proof -
    from that(1) have "x mod 65536 = y mod 65536"
      by (simp add: word_unat_eq_iff unat_of_nat)
    then have "65536 dvd y - x"
      using that(3) by (metis mod_eq_dvd_iff_nat)
    then obtain q where "y - x = 65536 * q" ..
    with that(2,3) show ?thesis by (cases q) auto
  qed
  from le [of a b] le [of b a] assms show ?thesis
    by (cases "a \<le> b") auto
qed

lemma blocks_ok_lookup:
  assumes "blocks_ok parity k mx h W B" and "B (of_nat n) = Some b" and "W \<le> n" and "n < W + 32768"
  shows "blank k mx b \<or> n < length h \<and> rx_matches parity k mx (h ! n) b"
    and "int k \<le> rx_ReceivedCnt b \<Longrightarrow> rx_Decoded b"
proof -
  have "block_ok parity k mx h W (of_nat n) b" using assms(1,2) by (simp add: blocks_ok_def)
  moreover have "n' = n" if "W \<le> n'" "n' < W + 32768" "(of_nat n :: u16) = of_nat n'" for n'
    using of_nat_u16_window [OF that(3)] that(1,2) assms(3,4) by simp
  ultimately show "blank k mx b \<or> n < length h \<and> rx_matches parity k mx (h ! n) b"
    and "int k \<le> rx_ReceivedCnt b \<Longrightarrow> rx_Decoded b"
    by (auto simp: block_ok_def)
qed

lemma target_block_matches:
  assumes "recv_wf k mx s" and "target_block s g = Inr b"
    and "\<And>b. rxBlocks (rx s) g = Some b \<Longrightarrow> rx_matches parity k mx pd b"
  shows "rx_matches parity k mx pd b"
proof (cases "rxBlocks (rx s) g")
  case None
  with assms(1,2) have "blank k mx b"
    by (auto simp: target_block_def new_rx_block_def Let_def recv_wf_def blank_def nat_add_distrib)
  then show ?thesis by (rule blank_matches)
qed (use assms in \<open>simp add: target_block_def\<close>)

lemma rx_ok_data:
  assumes fam: "rs_family rs k mx parity" and ok: "rx_ok rs parity k mx r h W"
    and len: "list_all (\<lambda>pd. length pd = k) h"
    and car: "carries parity k mx h n d" and p: "Unmarshal d = Inr p"
    and win: "n < W + 32768" "W < n + 32768"
    and step: "HandleDataPacket rs now p r = Inr r'"
  shows "rx_ok rs parity k mx r' h W"
proof -
  let ?i = "unat (pIdx p)" and ?pd = "h ! n"
  have wf: "recv_wf k mx r" and inv: "fec_inv rs (coder r)"
    and bl: "blocks_ok parity k mx h W (rxBlocks (rx r))"
    using ok by (simp_all add: rx_ok_def)
  have n: "n < length h" and i: "?i < k + mx" and g: "pGroupID p = of_nat n"
    and pay: "pPayload p = Some (code_shard parity k mx ?pd ?i)"
    using car p by (auto simp: carries_def)
  have pd: "length ?pd = k" using len n by (simp add: list_all_length)
  from wf pay show ?thesis
  proof (cases rule: HandleDataPacket_cases [where rs = rs and now = now])
    case closed
    with ok step show ?thesis by (auto simp: rx_ok_def recv_wf_def)
  next
    case old
    with ok step show ?thesis by (auto simp: rx_ok_def recv_wf_def)
  next
    case (accept b f b')
    have "W \<le> n"
      using accept(2) grp_after_of_nat [OF win(2,1)] ok by (simp add: rx_ok_def g)
    have "rx_matches parity k mx ?pd b"
    proof (rule target_block_matches [OF wf accept(3)])
      fix b assume "rxBlocks (rx r) (pGroupID p) = Some b"
      then show "rx_matches parity k mx ?pd b"
        using blocks_ok_lookup(1) [OF bl _ \<open>W \<le> n\<close> win(1)] blank_matches g by auto
    qed
    moreover have "?i < length (rx_Packets b)"
      using i accept(4) by (simp add: block_wf_def)
    ultimately have m: "rx_matches parity k mx ?pd
        (store_shard ?i (Some (code_shard parity k mx ?pd ?i)) (grow_block ?i b))"
      using i by (simp add: grow_block_id store_shard_matches)
    have "block_wf k mx (pGroupID p)
        (store_shard ?i (Some (code_shard parity k mx ?pd ?i)) (grow_block ?i b))"
      using accept(4) by (intro store_shard_wf grow_block_wf grow_block_length)
    from maybe_decode_matches [OF fam pd inv this m accept(5)]
    have b': "rx_matches parity k mx ?pd b'" "fec_inv rs f" "int k \<le> rx_ReceivedCnt b' \<longrightarrow> rx_Decoded b'"
      by simp_all
    have "blocks_ok parity k mx h W ((rxBlocks (rx r))(pGroupID p \<mapsto> b'))"
      using bl b'(1,3) n \<open>W \<le> n\<close> win(1) by (auto simp: blocks_ok_def block_ok_def g)
    moreover have "recv_wf k mx r'"
      using HandleDataPacket_wf [OF wf pay, of rs now] step by simp
    ultimately show ?thesis
      using ok step accept(8) b'(2) by (auto simp: rx_ok_def)
  qed
qed

lemma next_block:
  assumes ok: "rx_ok rs parity k mx r h W" and h: "list_all (\<lambda>pd. length pd = k) h" "list_all (list_all framed) h"
    and b: "rxBlocks (rx r) (nextWriteGrp (rx r)) = Some b" "rx_Decoded b"
  shows "W < length h" and "concat (map deframe (take k (rx_Packets b))) = block_bytes (h ! W)"
proof -
  have "blank k mx b \<or> W < length h \<and> rx_matches parity k mx (h ! W) b"
    using ok b(1) by (intro blocks_ok_lookup(1) [where B = "rxBlocks (rx r)"]) (auto simp: rx_ok_def)
  then have W: "W < length h" and m: "rx_matches parity k mx (h ! W) b"
    using b(2) by (auto simp: blank_def)
  then show "W < length h" by simp
  have "length (h ! W) = k" "list_all framed (h ! W)"
    using h W by (simp_all add: list_all_length)
  with decoded_deframe [OF m b(2)]
  show "concat (map deframe (take k (rx_Packets b))) = block_bytes (h ! W)"
    by (simp add: block_bytes_def)
qed

lemma blocks_ok_advance:
  "blocks_ok parity k mx h W B \<Longrightarrow> blocks_ok parity k mx h (Suc W) (\<lambda>g. if g = of_nat W then None else B g)"
  by (simp add: blocks_ok_def block_ok_advance)

lemma take_blocks: "W < length h \<Longrightarrow>
    concat (map block_bytes (take (Suc W) h)) = concat (map block_bytes (take W h)) @ block_bytes (h ! W)"
  by (simp add: take_Suc_conv_app_nth)

lemma take_blocks_prefix: "prefix (concat (map block_bytes (take W h))) (concat (map block_bytes h))"
proof -
  have "concat (map block_bytes h) = concat (map block_bytes (take W h)) @ concat (map block_bytes (drop W h))"
    by (metis append_take_drop_id concat_append map_append)
  then show ?thesis by simp
qed

lemma rx_ok_write:
  assumes ok: "rx_ok rs parity k mx r h W" and h: "list_all (\<lambda>pd. length pd = k) h" "list_all (list_all framed) h"
    and op: "\<not> recvClosed (rx r)" and step: "write_step res now r = Inr r'"
  shows "rx_ok rs parity k mx r' h (if nextWriteGrp (rx r') = nextWriteGrp (rx r) then W else Suc W)"
proof -
  have wf: "recv_wf k mx r" and out: "concat (tcpOut r) = concat (map block_bytes (take W h))"
    and g: "nextWriteGrp (rx r) = of_nat W"
    using ok op by (simp_all add: rx_ok_def)
  from wf show ?thesis
  proof (cases rule: write_step_cases [where res = res and now = now])
    case exit
    with step have r': "r' = write_exit r" by simp
    with ok show ?thesis by (simp add: rx_ok_def write_exit_wf)
  next
    case wait
    with step ok show ?thesis by simp
  next
    case (written b o1)
    with step have r': "r' = write_finish now (r\<lparr>tcpOut := tcpOut r @ o1\<rparr>)" by simp
    have "concat o1 = block_bytes (h ! W)" and W: "W < length h"
      using written(3) write_shards_complete [of res "take k (rx_Packets b)"]
        next_block [OF ok h written(1,2)] by simp_all
    then have "concat (tcpOut r') = concat (map block_bytes (take (Suc W) h))"
      using out take_blocks [OF W] by (simp add: r')
    moreover from this have "prefix (concat (tcpOut r')) (concat (map block_bytes h))"
      using take_blocks_prefix by metis
    moreover have "rxBlocks (rx r') = (\<lambda>g. if g = of_nat W then None else rxBlocks (rx r) g)"
      by (auto simp: r' write_finish_blocks g)
    then have "blocks_ok parity k mx h (Suc W) (rxBlocks (rx r'))"
      using blocks_ok_advance ok by (simp add: rx_ok_def)
    moreover have "recv_wf k mx r'"
      using wf by (simp add: r' write_finish_wf)
    ultimately have "rx_ok rs parity k mx r' h (Suc W)"
      using ok W unfolding rx_ok_def by (simp add: r' del: concat_append)
    then show ?thesis by (simp add: r')
  next
    case (failed b o1)
    with step have r': "r' = write_exit (r\<lparr>tcpOut := tcpOut r @ o1\<rparr>)" by simp
    have W: "W < length h" and "prefix (concat o1) (block_bytes (h ! W))"
      using failed(3) write_shards_prefix [of res "take k (rx_Packets b)"]
        next_block [OF ok h failed(1,2)] by simp_all
    then have "prefix (concat (tcpOut r')) (concat (map block_bytes (take (Suc W) h)))"
      using out take_blocks [OF W] by (simp add: r')
    then have "prefix (concat (tcpOut r')) (concat (map block_bytes h))"
      using take_blocks_prefix prefix_order.trans by blast
    moreover have "recv_wf k mx r'"
      using wf by (simp add: r' write_exit_wf)
    ultimately show ?thesis
      using ok by (simp add: rx_ok_def r')
  qed
qed

lemma rx_ok_lqr_timer:
  assumes "rx_ok rs parity k mx r h W"
  shows "rx_ok rs parity k mx (handleLQRTimeout now g r) h W"
proof -
  have "blocks_ok parity k mx h W (rxBlocks (rx (handleLQRTimeout now g r)))"
    using assms by (auto simp: rx_ok_def blocks_ok_def handleLQRTimeout_blocks block_ok_reported split: if_splits)
  with assms show ?thesis
    by (simp add: rx_ok_def handleLQRTimeout_wf)
qed

text \<open>\<^verbatim>\<open>Start\<close> may add a blank block for group 0, even after group 0 was written.\<close>

lemma rx_ok_start:
  assumes "rx_ok rs parity k mx r h W" and "0 < k" and "Start r = Inr r'"
  shows "rx_ok rs parity k mx r' h W"
proof (cases "rxBlocks (rx r) = Map.empty")
  case True
  have "FEC_K (par r) = int k" "FEC_M (par r) = int mx"
    using assms(1) by (simp_all add: rx_ok_def recv_wf_def)
  then obtain b where "r' = r\<lparr>rx := (rx r)\<lparr>rxBlocks := [0 \<mapsto> b]\<rparr>\<rparr>" "block_wf k mx 0 b" "blank k mx b"
    using Start_fresh [OF True] assms(3) by (metis sum.inject(2))
  moreover from this(2,3) have "rx_ReceivedCnt b = 0" by (simp add: block_wf_def blank_def)
  ultimately show ?thesis
    using assms(1,2) by (simp add: rx_ok_def recv_wf_def blocks_ok_def block_ok_def)
qed (use assms in \<open>simp add: Start_def\<close>)

text \<open>What the receiving end does not depend on.\<close>

definition rx_quiet :: "'enc Session \<Rightarrow> 'enc Session \<Rightarrow> bool" where
  "rx_quiet s s' \<longleftrightarrow> par s' = par s \<and> rxBlocks (rx s') = rxBlocks (rx s) \<and> nextWriteGrp (rx s') = nextWriteGrp (rx s)
     \<and> recvClosed (rx s') = recvClosed (rx s) \<and> tcpOut s' = tcpOut s"

lemma rx_ok_quiet:
  "rx_ok rs parity k mx s h W \<Longrightarrow> rx_quiet s s' \<Longrightarrow> fec_inv rs (coder s') \<Longrightarrow> rx_ok rs parity k mx s' h W"
  by (simp add: rx_ok_def rx_quiet_def recv_wf_def)

section \<open>What a session has sent\<close>

text \<open>The data datagrams among those sent.\<close>

definition data_out :: "'enc Session \<Rightarrow> bytes set" where
  "data_out s = {d \<in> set (udpOut s). \<exists>p. Unmarshal d = Inr p \<and> pType p = TypeData}"

lemma control_not_data: "control p \<Longrightarrow> Marshal p = Inr d \<Longrightarrow> Unmarshal d = Inr q \<Longrightarrow> pType q \<noteq> TypeData"
  using wire.dec_enc [of p d] by (auto simp: control_def wire_view_def zero_packet_def packet_types split: if_splits)

lemma data_out_control:
  "udpOut s' = udpOut s @ marshal_all ps \<Longrightarrow> list_all control ps \<Longrightarrow> data_out s' = data_out s"
  using control_not_data by (fastforce simp: data_out_def in_marshal_all list_all_iff)

text \<open>The sending end as it is, and what it does not depend on.\<close>

definition sends_ok :: "(bytes list \<Rightarrow> bytes list) \<Rightarrow> nat \<Rightarrow> nat \<Rightarrow> 'enc Session \<Rightarrow> bytes list list \<Rightarrow> bool" where
  "sends_ok parity k mx s h \<longleftrightarrow> tx_ok parity k mx s h (data_out s) (tcpIn s)"

definition tx_quiet :: "'enc Session \<Rightarrow> 'enc Session \<Rightarrow> bool" where
  "tx_quiet s s' \<longleftrightarrow> par s' = par s \<and> nextGroupID (tx s') = nextGroupID (tx s) \<and> nextSeqNum (tx s') = nextSeqNum (tx s)
     \<and> harqCache (tx s') = harqCache (tx s) \<and> pendingData (tx s') = pendingData (tx s) \<and> tcpIn s' = tcpIn s
     \<and> set (queue (shp s')) \<subseteq> set (queue (shp s)) \<and> data_out s' \<subseteq> data_out s \<union> set (queue (shp s))"

lemma sends_ok_quiet: "sends_ok parity k mx s h \<Longrightarrow> tx_quiet s s' \<Longrightarrow> sends_ok parity k mx s' h"
  unfolding sends_ok_def tx_ok_def tx_quiet_def sender_hist_def by (simp add: subset_iff) blast

lemma tx_quiet_refl [simp]: "tx_quiet s s"
  by (simp add: tx_quiet_def)

lemma rx_quiet_refl [simp]: "rx_quiet s s"
  by (simp add: rx_quiet_def)

lemma tx_quiet_control:
  "par s' = par s \<Longrightarrow> tx s' = tx s \<Longrightarrow> shp s' = shp s \<Longrightarrow> tcpIn s' = tcpIn s \<Longrightarrow>
     udpOut s' = udpOut s @ marshal_all ps \<Longrightarrow> list_all control ps \<Longrightarrow> tx_quiet s s'"
  using data_out_control [of s' s ps] by (simp add: tx_quiet_def)

end
