(* ===== verification/EndToEnd.thy ===== *)
theory EndToEnd
  imports Delivery
begin

text \<open>
  Two complete sessions and the network between them. Each end runs the whole session
  machine of \<open>Session\<close>: its read loop and shutdown, the goroutine that sends CLOSE, the
  timers, the shaper, the write loop, and the daemon closing or cancelling it at any time.
  The network loses, duplicates and reorders datagrams, and feedback may even be forged. The
  lemmas show, for both directions at once, that the bytes written at one end are a prefix of
  the bytes read at the other, and that \<open>k\<close> shards of the next block suffice to extend it.
\<close>

section \<open>The system\<close>

text \<open>
  An end: its session, and two records of the past, the padded blocks it has flushed and the
  number of the peer's blocks it has written out.
\<close>

record 'enc endpoint =
  host :: "'enc life"
  hist :: "bytes list list"
  written :: nat

text \<open>The block flushed between two states of a session, if any.\<close>

definition new_blocks :: "'enc Session \<Rightarrow> 'enc Session \<Rightarrow> bytes list list" where
  "new_blocks s s' =
     (if nextGroupID (tx s') = nextGroupID (tx s) then []
      else [pad_block (FEC_K (par s)) (pendingData (tx s)
        @ (if tcpIn s' = tcpIn s then [] else [frame (drop (length (tcpIn s)) (tcpIn s'))]))])"

definition advance :: "nat \<Rightarrow> 'enc Session \<Rightarrow> 'enc Session \<Rightarrow> nat" where
  "advance W s s' = (if nextWriteGrp (rx s') = nextWriteGrp (rx s) then W else W + 1)"

definition observe :: "'enc life \<Rightarrow> 'enc endpoint \<Rightarrow> 'enc endpoint" where
  "observe l x = \<lparr>host = l, hist = hist x @ new_blocks (sess (host x)) (sess l),
     written = advance (written x) (sess (host x)) (sess l)\<rparr>"

text \<open>
  What can arrive at \<open>x\<close> from \<open>y\<close>: any data datagram that \<open>y\<close> has sent, any number of times and
  at any time, unless its group number would be ambiguous, that is, the block it carries a
  shard of is 32768 or more away from the next one to be written.
\<close>

definition arrives ::
  "(bytes list \<Rightarrow> bytes list) \<Rightarrow> nat \<Rightarrow> nat \<Rightarrow> 'enc endpoint \<Rightarrow> 'enc endpoint \<Rightarrow> Packet \<Rightarrow> bool" where
  "arrives parity k mx x y p \<longleftrightarrow>
     (\<exists>d \<in> set (udpOut (sess (host y))). Unmarshal d = Inr p
        \<and> (\<exists>n. carries parity k mx (hist y) n d \<and> n < written x + 32768 \<and> written x < n + 32768))"

inductive pair_step ::
  "('enc, 'e) reedsolomon \<Rightarrow> (bytes list \<Rightarrow> bytes list) \<Rightarrow> nat \<Rightarrow> nat \<Rightarrow> 'enc endpoint \<times> 'enc endpoint
    \<Rightarrow> 'enc endpoint \<times> 'enc endpoint \<Rightarrow> bool"
  for rs :: "('enc, 'e) reedsolomon" and parity :: "bytes list \<Rightarrow> bytes list" and k mx :: nat where
  left: "life_step_from (arrives parity k mx x y) rs (host x) l \<Longrightarrow>
     pair_step rs parity k mx (x, y) (observe l x, y)"
| right: "life_step_from (arrives parity k mx y x) rs (host y) l \<Longrightarrow>
     pair_step rs parity k mx (x, y) (x, observe l y)"

definition start_end :: "'enc Session \<Rightarrow> 'enc endpoint" where
  "start_end s = \<lparr>host = life_start s, hist = [], written = 0\<rparr>"

definition pair_init ::
  "('enc, 'e) reedsolomon \<Rightarrow> (bytes list \<Rightarrow> bytes list) \<Rightarrow> nat \<Rightarrow> nat \<Rightarrow> 'enc endpoint \<times> 'enc endpoint \<Rightarrow> bool" where
  "pair_init rs parity k mx z \<longleftrightarrow> rs_family rs k mx parity \<and> 0 < k \<and> k + mx \<le> 32
     \<and> (\<exists>now now' streamID isServer mtu mtu' bandwidth bandwidth'. streamID \<le> 0x0FFF
         \<and> 36 < mtu \<and> mtu \<le> 65535 \<and> 36 < mtu' \<and> mtu' \<le> 65535
         \<and> z = (start_end (NewSession now streamID isServer mtu bandwidth (int k) (int mx)),
                start_end (NewSession now' streamID (\<not> isServer) mtu' bandwidth' (int k) (int mx))))"

section \<open>One end\<close>

text \<open>
  A session relative to its own history \<open>h\<close>, its peer's \<open>hp\<close> and the number \<open>W\<close> of the peer's
  blocks it has written.
\<close>

definition end_ok ::
  "('enc, 'e) reedsolomon \<Rightarrow> (bytes list \<Rightarrow> bytes list) \<Rightarrow> nat \<Rightarrow> nat \<Rightarrow> bytes list list \<Rightarrow> bytes list list \<Rightarrow> nat
    \<Rightarrow> 'enc Session \<Rightarrow> bool" where
  "end_ok rs parity k mx hp h W s \<longleftrightarrow> rs_family rs k mx parity \<and> 0 < k \<and> k + mx \<le> 32 \<and> session_inv rs k mx s
     \<and> LinkMTU (par s) \<le> 65535 \<and> StreamID (par s) \<le> 0x0FFF
     \<and> list_all (\<lambda>pd. length pd = k) hp \<and> list_all (list_all framed) hp
     \<and> sends_ok parity k mx s h \<and> rx_ok rs parity k mx s hp W"

text \<open>The same after a step, with the records of the past brought up to date.\<close>

definition end_next ::
  "('enc, 'e) reedsolomon \<Rightarrow> (bytes list \<Rightarrow> bytes list) \<Rightarrow> nat \<Rightarrow> nat \<Rightarrow> bytes list list \<Rightarrow> bytes list list \<Rightarrow> nat
    \<Rightarrow> 'enc Session \<Rightarrow> 'enc Session \<Rightarrow> bool" where
  "end_next rs parity k mx hp h W s s' \<longleftrightarrow> end_ok rs parity k mx hp (h @ new_blocks s s') (advance W s s') s'"

lemma end_okD:
  assumes "end_ok rs parity k mx hp h W s"
  shows "sender_inv rs k mx s" "recv_wf k mx s" "fec_inv rs (coder s)" "rs_family rs k mx parity" "k + mx \<le> 32"
    "0 < k" "session_inv rs k mx s"
  using assms by (simp_all add: end_ok_def session_inv_def sender_inv_def)

lemma tx_quiet_blocks: "tx_quiet s s' \<Longrightarrow> new_blocks s s' = []"
  by (simp add: new_blocks_def tx_quiet_def)

lemma rx_quiet_advance: "rx_quiet s s' \<Longrightarrow> advance W s s' = W"
  by (simp add: advance_def rx_quiet_def)

lemma fec_session: "session_inv rs k mx s \<Longrightarrow> fec_inv rs (coder s)"
  by (simp add: session_inv_def sender_inv_def)

text \<open>A step that only receives, one that only sends, and one that does neither.\<close>

lemma end_receive:
  assumes "end_ok rs parity k mx hp h W s" and "tx_quiet s s'" and "session_inv rs k mx s'"
    and "rx_ok rs parity k mx s' hp (advance W s s')"
  shows "end_next rs parity k mx hp h W s s'"
  using assms sends_ok_quiet [OF _ assms(2)] tx_quiet_blocks [OF assms(2)]
  by (simp add: end_next_def end_ok_def) (simp add: tx_quiet_def)

lemma end_send:
  assumes "end_ok rs parity k mx hp h W s" and "rx_quiet s s'" and "session_inv rs k mx s'"
    and "sends_ok parity k mx s' (h @ new_blocks s s')"
  shows "end_next rs parity k mx hp h W s s'"
  using assms rx_ok_quiet [OF _ assms(2) fec_session [OF assms(3)]] rx_quiet_advance [OF assms(2)]
  by (simp add: end_next_def end_ok_def) (simp add: rx_quiet_def)

lemma end_quiet:
  assumes "end_ok rs parity k mx hp h W s" and "tx_quiet s s'" and "rx_quiet s s'" and "session_inv rs k mx s'"
  shows "end_next rs parity k mx hp h W s s'"
  using assms(1) sends_ok_quiet [OF _ assms(2)] tx_quiet_blocks [OF assms(2)]
  by (intro end_send [OF assms(1,3,4)]) (simp add: end_ok_def)

text \<open>A quiet step may follow any other.\<close>

lemma end_then_quiet:
  assumes "end_next rs parity k mx hp h W s t" and "tx_quiet t u" and "rx_quiet t u" and "session_inv rs k mx u"
  shows "end_next rs parity k mx hp h W s u"
proof -
  have "new_blocks s u = new_blocks s t" "advance W s u = advance W s t"
    using assms(2,3) by (simp_all add: new_blocks_def advance_def tx_quiet_def rx_quiet_def)
  with end_quiet [OF assms(1) [unfolded end_next_def] assms(2-4)] tx_quiet_blocks [OF assms(2)] rx_quiet_advance [OF assms(3)]
  show ?thesis by (simp add: end_next_def)
qed

text \<open>And any other may follow a quiet step.\<close>

lemma end_after_quiet:
  assumes "tx_quiet s t" and "rx_quiet s t" and "end_next rs parity k mx hp h W t u"
  shows "end_next rs parity k mx hp h W s u"
proof -
  have "new_blocks s u = new_blocks t u" "advance W s u = advance W t u"
    using assms(1,2) by (simp_all add: new_blocks_def advance_def tx_quiet_def rx_quiet_def)
  with assms(3) show ?thesis by (simp add: end_next_def)
qed

section \<open>Sending\<close>

lemma data_out_eq: "udpOut s' = udpOut s \<Longrightarrow> data_out s' = data_out s"
  by (simp add: data_out_def)

lemma end_flush:
  assumes ok: "end_ok rs parity k mx hp h W s" and r: "flushPendingBlock rs s = Inr s'" and inv: "session_inv rs k mx s'"
  shows "end_next rs parity k mx hp h W s s'"
proof (cases "pendingData (tx s) = []")
  case True
  with r have "s' = s" by (simp add: flushPendingBlock_empty)
  with ok inv show ?thesis by (intro end_quiet) simp_all
next
  case False
  note d = end_okD [OF ok]
  obtain m f where f: "flushPendingBlock rs s = Inr (flushed parity k m f s)"
    by (rule flush_total [OF d(1,4) False])
  with r have s': "s' = flushed parity k m f s" by simp
  have "tx_ok parity k mx s' (h @ timer_flushes s) (data_out s) (tcpIn s)"
    using ok by (intro tx_ok_timer [OF d(1,4,5) _ r]) (simp add: end_ok_def sends_ok_def)
  moreover have "timer_flushes s = new_blocks s s'" "tcpIn s' = tcpIn s" "data_out s' = data_out s"
    using False by (simp_all add: timer_flushes_def new_blocks_def s' flushed_def Let_def data_out_def)
  ultimately show ?thesis
    by (intro end_send [OF ok _ inv]) (simp_all add: sends_ok_def rx_quiet_def s' flushed_def Let_def)
qed

lemma end_read:
  assumes ok: "end_ok rs parity k mx hp h W s" and d: "int (length d) \<le> maxPayload (par s)"
    and r: "tcp_read rs now d s = Inr s'" and inv: "session_inv rs k mx s'"
  shows "end_next rs parity k mx hp h W s s'"
proof (cases "d = []")
  case True
  with r have "s' = s" by (simp add: tcp_read_def)
  with ok inv show ?thesis by (intro end_quiet) simp_all
next
  case False
  note e = end_okD [OF ok]
  have "length d < 65536" using d ok payload_small by (auto simp: end_ok_def)
  then have "tx_ok parity k mx s' (h @ read_flushes d s) (data_out s) (tcpIn s @ d)"
    using ok by (intro tx_ok_read [OF e(1,4,5) _ _ r]) (simp_all add: end_ok_def sends_ok_def)
  moreover have q: "new_blocks s s' = read_flushes d s \<and> tcpIn s' = tcpIn s @ d \<and> udpOut s' = udpOut s \<and> rx_quiet s s'"
    using e(1,4) False
  proof (cases rule: tcp_read_cases [where now = now])
    case (buffer timer)
    with r e(1) show ?thesis
      by (auto simp: buffered_def read_flushes_def new_blocks_def rx_quiet_def sender_inv_def)
  next
    case (flush m f)
    with r e(1) False show ?thesis
      by (auto simp: flushed_def buffered_def Let_def read_flushes_def new_blocks_def rx_quiet_def sender_inv_def)
  qed
  moreover have "data_out s' = data_out s" using q by (intro data_out_eq) simp
  ultimately show ?thesis
    by (intro end_send [OF ok _ inv]) (simp_all add: sends_ok_def)
qed

lemma end_nak:
  assumes "end_ok rs parity k mx hp h W s" and "session_inv rs k mx (HandleNak now p s)"
  shows "end_next rs parity k mx hp h W s (HandleNak now p s)"
proof (rule end_send [OF assms(1) _ assms(2)])
  show "rx_quiet s (HandleNak now p s)" by (simp add: rx_quiet_def)
  have "tx_ok parity k mx (HandleNak now p s) h (data_out s) (tcpIn s)"
    using assms(1) by (intro tx_ok_nak) (simp_all add: end_ok_def sends_ok_def)
  then show "sends_ok parity k mx (HandleNak now p s) (h @ new_blocks s (HandleNak now p s))"
    by (simp add: sends_ok_def new_blocks_def data_out_def)
qed

section \<open>Receiving\<close>

lemma write_finish_sends:
  "\<exists>ps. list_all control ps \<and> udpOut (write_finish now s) = udpOut s @ marshal_all ps"
proof -
  let ?s1 = "updateLastActive now s" and ?g = "nextWriteGrp (rx s)"
  have "udpOut (write_finish now s) = udpOut ?s1 \<or> udpOut (write_finish now s) = udpOut (handleLQRTimeout now ?g ?s1)"
    by (auto simp: write_finish_def Let_def split: option.splits)
  then show ?thesis
    using handleLQRTimeout_sends [of now ?g ?s1] by (auto simp: marshal_all_def intro: exI [of _ "[]"])
qed

lemma write_finish_quiet: "tx_quiet s (write_finish now s)"
  using write_finish_sends [of now s] by (auto intro: tx_quiet_control)

lemma end_write:
  assumes ok: "end_ok rs parity k mx hp h W s" and op: "\<not> recvClosed (rx s)" and r: "write_step res now s = Inr s'"
    and inv: "session_inv rs k mx s'"
  shows "end_next rs parity k mx hp h W s s'"
proof (rule end_receive [OF ok _ inv])
  show "rx_ok rs parity k mx s' hp (advance W s s')"
    using rx_ok_write [OF _ _ _ op r, of rs parity k mx hp W] ok by (simp add: end_ok_def advance_def split: if_splits)
  have out: "tx_quiet (s\<lparr>tcpOut := out\<rparr>) t \<Longrightarrow> tx_quiet s t" for out t
    by (simp add: tx_quiet_def data_out_def)
  have exit: "tx_quiet t (write_exit t)" for t :: "'a Session"
    by (simp add: tx_quiet_def data_out_def write_exit_def)
  show "tx_quiet s s'"
    by (rule write_step_cases [OF end_okD(2) [OF ok], of res now])
      (use r in \<open>auto intro: exit out [OF exit] out [OF write_finish_quiet]\<close>)
qed

lemma end_data:
  assumes ok: "end_ok rs parity k mx hp h W s" and p: "Unmarshal d = Inr p"
    and n: "carries parity k mx hp n d" and win: "n < W + 32768" "W < n + 32768"
    and r: "HandleDataPacket rs now p s = Inr s'" and inv: "session_inv rs k mx s'"
  shows "end_next rs parity k mx hp h W s s'"
proof -
  from n obtain q where q: "pPayload p = Some q" using p by (auto simp: carries_def)
  note e = end_okD [OF ok]
  have "rx_ok rs parity k mx s' hp W"
    using ok by (intro rx_ok_data [OF e(4) _ _ n p win r]) (simp_all add: end_ok_def)
  moreover from this have "advance W s s' = W"
    using ok by (simp add: advance_def end_ok_def rx_ok_def)
  moreover have "tx_quiet s s'"
    using HandleDataPacket_frame [OF e(2) q e(3), of now] r by (auto simp: tx_quiet_def data_out_def)
  ultimately show ?thesis
    using ok inv by (intro end_receive) simp_all
qed

section \<open>Every step of an end\<close>

lemma quiet_trans: "tx_quiet s t \<Longrightarrow> tx_quiet t u \<Longrightarrow> tx_quiet s u" "rx_quiet s t \<Longrightarrow> rx_quiet t u \<Longrightarrow> rx_quiet s u"
  by (auto simp: tx_quiet_def rx_quiet_def)

lemma direct_quiet: "control p \<Longrightarrow> tx_quiet s (sendPacketDirect now p s)" "rx_quiet s (sendPacketDirect now p s)"
  using udpOut_sendPacketDirect [of now p s] by (auto simp: rx_quiet_def intro!: tx_quiet_control)

lemma close_quiet: "tx_quiet s (Close s)" "rx_quiet s (Close s)"
  by (simp_all add: tx_quiet_def rx_quiet_def Close_def data_out_def shq.contents_stop)

lemma resets_quiet:
  "tx_quiet s (((\<lambda>s. sendPacketDirect now (reset_packet (StreamID (par s))) s) ^^ n) s)
     \<and> rx_quiet s (((\<lambda>s. sendPacketDirect now (reset_packet (StreamID (par s))) s) ^^ n) s)"
proof (induction n)
  case (Suc n)
  then show ?case
    using quiet_trans direct_quiet(1) [OF control_packets(2)] direct_quiet(2) by simp blast
qed simp

lemma failed_quiet: "tx_quiet s (read_failed now s)" "rx_quiet s (read_failed now s)"
  unfolding read_failed_def
  by (rule quiet_trans(1) [OF resets_quiet [THEN conjunct1] close_quiet(1)])
    (rule quiet_trans(2) [OF resets_quiet [THEN conjunct2] close_quiet(2)])

lemma lqr_quiet: "tx_quiet s (HandleLQR now p s)" "rx_quiet s (HandleLQR now p s)"
  by (simp_all add: tx_quiet_def rx_quiet_def HandleLQR_frame data_out_def)

lemma lqr_timer_quiet: "tx_quiet s (handleLQRTimeout now g s)"
  using handleLQRTimeout_sends [of now g s] by (auto intro: tx_quiet_control)

lemma mark_quiet:
  "tx_quiet s (RecordRx n s)" "rx_quiet s (RecordRx n s)" "tx_quiet s (s\<lparr>ctxDone := c\<rparr>)" "rx_quiet s (s\<lparr>ctxDone := c\<rparr>)"
  "tx_quiet s (s\<lparr>tx := (tx s)\<lparr>sendClosed := c\<rparr>\<rparr>)" "rx_quiet s (s\<lparr>tx := (tx s)\<lparr>sendClosed := c\<rparr>\<rparr>)"
  "tx_quiet s (s\<lparr>tx := (tx s)\<lparr>closeSent := c\<rparr>\<rparr>)" "rx_quiet s (s\<lparr>tx := (tx s)\<lparr>closeSent := c\<rparr>\<rparr>)"
  "tx_quiet s (s\<lparr>tx := (tx s)\<lparr>closeRecv := c\<rparr>\<rparr>)" "rx_quiet s (s\<lparr>tx := (tx s)\<lparr>closeRecv := c\<rparr>\<rparr>)"
  by (simp_all add: tx_quiet_def rx_quiet_def RecordRx_def data_out_def)

lemma emit_quiet:
  assumes "queue (shp s) = b # q"
  shows "tx_quiet s (sendRawUDP now b (s\<lparr>shp := (shp s)\<lparr>queue := q\<rparr>\<rparr>))" "rx_quiet s (sendRawUDP now b (s\<lparr>shp := (shp s)\<lparr>queue := q\<rparr>\<rparr>))"
  using assms by (auto simp: tx_quiet_def rx_quiet_def sendRawUDP_def data_out_def)

text \<open>Every packet that may arrive carries a recent shard.\<close>

definition shards_from ::
  "(bytes list \<Rightarrow> bytes list) \<Rightarrow> nat \<Rightarrow> nat \<Rightarrow> bytes list list \<Rightarrow> nat \<Rightarrow> (Packet \<Rightarrow> bool) \<Rightarrow> bool" where
  "shards_from parity k mx hp W D \<longleftrightarrow> (\<forall>p. D p \<longrightarrow>
     (\<exists>d n. Unmarshal d = Inr p \<and> carries parity k mx hp n d \<and> n < W + 32768 \<and> W < n + 32768))"

lemma end_timer_off:
  assumes "end_ok rs parity k mx hp h W s"
  shows "end_ok rs parity k mx hp h W (s\<lparr>tx := (tx s)\<lparr>blockTimer := False\<rparr>\<rparr>)" (is "end_ok _ _ _ _ _ _ _ ?s")
proof -
  have "session_inv rs k mx ?s"
    using end_okD(7) [OF assms] by (simp add: session_inv_def sender_inv_def mtu_inv_def recv_wf_def parity_inv_def
        tx_window_def pending_fits_def cache_fits_def)
  moreover have "tx_quiet s ?s" "rx_quiet s ?s" by (simp_all add: tx_quiet_def rx_quiet_def data_out_def)
  ultimately have "end_next rs parity k mx hp h W s ?s" by (intro end_quiet [OF assms])
  then show ?thesis by (simp add: end_next_def new_blocks_def advance_def)
qed

lemma end_op:
  assumes op: "session_op_from D rs s (Inr s')" and ok: "end_ok rs parity k mx hp h W s"
    and D: "shards_from parity k mx hp W D"
  shows "end_next rs parity k mx hp h W s s'"
proof -
  note e = end_okD [OF ok]
  have inv: "session_inv rs k mx s'"
    using session_op_inv [OF session_op_any [OF op] e(7,4)] by simp
  from op show ?thesis
  proof (cases rule: session_op_from.cases)
    case flush_timer
    let ?s = "s\<lparr>tx := (tx s)\<lparr>blockTimer := False\<rparr>\<rparr>"
    have q: "tx_quiet s ?s" "rx_quiet s ?s" by (simp_all add: tx_quiet_def rx_quiet_def data_out_def)
    from end_flush [OF end_timer_off [OF ok] _ inv] flush_timer show ?thesis
      by (intro end_after_quiet [OF q]) simp
  next
    case (data p q now)
    with D obtain d n where "Unmarshal d = Inr p" "carries parity k mx hp n d" "n < W + 32768" "W < n + 32768"
      by (auto simp: shards_from_def)
    with data show ?thesis by (intro end_data [OF ok _ _ _ _ _ inv]) auto
  next
    case (nak_timer now g)
    obtain t ps where t: "sendNakPeriodic now g s = Inr t" "rx t = rx s" "tx t = tx s" "par t = par s" "coder t = coder s"
      "shp t = shp s" "tcpOut t = tcpOut s" "tcpIn t = tcpIn s" "list_all control ps" "udpOut t = udpOut s @ marshal_all ps"
      by (rule nak_timer_sends [OF e(2)])
    then have "tx_quiet s t" "rx_quiet s t" by (auto simp: rx_quiet_def intro: tx_quiet_control)
    with t(1) nak_timer inv show ?thesis by (simp add: end_quiet [OF ok])
  next
    case (lqr_timer now g)
    moreover have "rx_ok rs parity k mx (handleLQRTimeout now g s) hp W"
      using ok by (intro rx_ok_lqr_timer) (simp add: end_ok_def)
    ultimately show ?thesis
      using inv by (intro end_receive [OF ok]) (simp_all add: lqr_timer_quiet advance_def)
  next
    case (write_loop res now)
    then show ?thesis by (intro end_write [OF ok _ _ inv]) auto
  next
    case (nak now p)
    then show ?thesis using end_nak [OF ok] inv by simp
  next
    case (emit b q now)
    then show ?thesis using inv by (simp add: end_quiet [OF ok] emit_quiet)
  qed (use inv in \<open>simp_all add: end_quiet [OF ok] lqr_quiet close_quiet mark_quiet\<close>)
qed

lemma end_outcome:
  assumes "end_ok rs parity k mx hp h W (sess l)" and "\<exists>s'. r = Inr s' \<and> session_inv rs k mx s'"
    and "\<And>s'. r = Inr s' \<Longrightarrow> session_inv rs k mx s' \<Longrightarrow> end_next rs parity k mx hp h W (sess l) s'"
  shows "end_next rs parity k mx hp h W (sess l) (sess (outcome l r))"
  using assms(2,3) by (auto simp: outcome_def)

lemma end_start:
  assumes ok: "end_ok rs parity k mx hp h W s" and r: "Start s = Inr s'" and inv: "session_inv rs k mx s'"
  shows "end_next rs parity k mx hp h W s s'"
proof (rule end_receive [OF ok _ inv])
  have rx: "rx_ok rs parity k mx s' hp W"
    using ok by (intro rx_ok_start [OF _ _ r]) (simp_all add: end_ok_def)
  then show "rx_ok rs parity k mx s' hp (advance W s s')"
    using ok by (simp add: advance_def end_ok_def rx_ok_def)
  show "tx_quiet s s'" using r by (auto simp: Start_def Let_def tx_quiet_def data_out_def split: if_splits)
qed

lemma end_outcome_read:
  assumes "end_ok rs parity k mx hp h W (sess l)" and "int (length d) \<le> maxPayload (par (sess l))"
  shows "end_next rs parity k mx hp h W (sess l) (sess (outcome l (tcp_read rs now d (sess l))))"
  by (intro end_outcome [OF assms(1)] read_inv [OF end_okD(7) [OF assms(1)] end_okD(4) [OF assms(1)] assms(2)]
      end_read [OF assms(1,2)])

lemma end_life:
  assumes "life_step_from D rs l l'" and "end_ok rs parity k mx hp h W (sess l)" and "shards_from parity k mx hp W D"
  shows "end_next rs parity k mx hp h W (sess l) (sess l')"
  using assms
proof (induction rule: life_step_from.induct)
  case (background l r)
  note e = end_okD [OF background(2)]
  show ?case
    using session_op_inv [OF session_op_any [OF background(1)] e(7,4)] background
    by (intro end_outcome) (auto intro: end_op)
next
  case (init_block l)
  have "end_next rs parity k mx hp h W (sess l) (sess (outcome l (Start (sess l))))"
    by (intro end_outcome [OF init_block(2)] Start_inv end_okD(7) [OF init_block(2)] end_start [OF init_block(2)])
  then show ?case by simp
next
  case (read l d now)
  then show ?case using end_outcome_read [of rs parity k mx hp h W l d now] by simp
next
  case (read_eof l d now)
  then show ?case using end_outcome_read [of rs parity k mx hp h W l d now] by simp
next
  case (read_error l d l' now)
  note e = end_okD [OF read_error(4)]
  have "session_inv rs k mx (sess l')"
    using read_inv [OF e(7,4) read_error(2), of now] by (auto simp: read_error(3) outcome_def)
  with end_outcome_read [OF read_error(4,2), of now] show ?case
    by (simp add: read_error(3) end_then_quiet failed_quiet read_failed_inv)
next
  case (flush_rest l)
  note e = end_okD [OF flush_rest(2)]
  have "end_next rs parity k mx hp h W (sess l) (sess (outcome l (flushPendingBlock rs (sess l))))"
    by (intro end_outcome [OF flush_rest(2)] flush_inv [OF e(7,4)] end_flush [OF flush_rest(2)])
  then show ?case by (simp add: flushPendingBlock_def)
next
  case (mark_sent l s' both)
  then show ?case
    by (auto simp: mark_closeSent_def intro!: end_quiet mark_quiet marks_inv dest: end_okD(7))
next
  case (handle_close l s' both)
  then show ?case
    by (auto simp: mark_closeRecv_def intro!: end_quiet mark_quiet marks_inv dest: end_okD(7))
qed (auto simp: send_close_def intro!: end_quiet mark_quiet marks_inv close_quiet direct_quiet Close_inv sendPacketDirect_inv
    dest: end_okD(7))

section \<open>The invariant of the system\<close>

definition pair_inv ::
  "('enc, 'e) reedsolomon \<Rightarrow> (bytes list \<Rightarrow> bytes list) \<Rightarrow> nat \<Rightarrow> nat \<Rightarrow> 'enc endpoint \<times> 'enc endpoint \<Rightarrow> bool" where
  "pair_inv rs parity k mx z \<longleftrightarrow> (case z of (x, y) \<Rightarrow>
     end_ok rs parity k mx (hist y) (hist x) (written x) (sess (host x))
     \<and> end_ok rs parity k mx (hist x) (hist y) (written y) (sess (host y)))"

lemma end_hist:
  "end_ok rs parity k mx hp h W s \<Longrightarrow> list_all (\<lambda>pd. length pd = k) h \<and> list_all (list_all framed) h"
  by (simp add: end_ok_def sends_ok_def tx_ok_def sender_hist_def)

lemma end_peer:
  assumes "end_ok rs parity k mx hp h W s" and "end_ok rs parity k mx h' (hp @ hs) W' s'"
  shows "end_ok rs parity k mx (hp @ hs) h W s"
  using assms(1) end_hist [OF assms(2)] by (simp add: end_ok_def rx_ok_append)

lemma arrivals: "shards_from parity k mx (hist y) (written x) (arrives parity k mx x y)"
  by (auto simp: shards_from_def arrives_def)

lemma end_observe:
  assumes "end_ok rs parity k mx (hist y) (hist x) (written x) (sess (host x))"
    and "end_ok rs parity k mx (hist x) (hist y) (written y) (sess (host y))"
    and "life_step_from (arrives parity k mx x y) rs (host x) l"
  shows "end_ok rs parity k mx (hist y) (hist (observe l x)) (written (observe l x)) (sess (host (observe l x)))"
    and "end_ok rs parity k mx (hist (observe l x)) (hist y) (written y) (sess (host y))"
proof -
  have "end_next rs parity k mx (hist y) (hist x) (written x) (sess (host x)) (sess l)"
    by (rule end_life [OF assms(3,1) arrivals])
  then show new: "end_ok rs parity k mx (hist y) (hist (observe l x)) (written (observe l x)) (sess (host (observe l x)))"
    by (simp add: end_next_def observe_def)
  show "end_ok rs parity k mx (hist (observe l x)) (hist y) (written y) (sess (host y))"
    using end_peer [OF assms(2)] new by (simp add: observe_def)
qed

lemma pair_inv_step: "pair_step rs parity k mx z z' \<Longrightarrow> pair_inv rs parity k mx z \<Longrightarrow> pair_inv rs parity k mx z'"
  by (induction rule: pair_step.induct) (simp_all add: pair_inv_def end_observe)

lemma end_ok_init:
  fixes rs :: "('a, 'e) reedsolomon"
  assumes "rs_family rs k mx parity" and "0 < k" and "k + mx \<le> 32" and "36 < mtu" and "mtu \<le> 65535" and "streamID \<le> 0x0FFF"
  shows "end_ok rs parity k mx [] [] 0 (NewSession now streamID isServer mtu bandwidth (int k) (int mx))"
proof -
  obtain n :: "'a Session" where n: "n = NewSession now streamID isServer mtu bandwidth (int k) (int mx)" by blast
  have "life_init rs k mx parity (life_start n)"
    unfolding life_init_def n using assms(1,2,4) by blast
  then have "session_inv rs k mx n"
    using safe_inv_init [of rs k mx parity "life_start n"] by (simp add: safe_inv_def life_start_def)
  moreover have "sends_ok parity k mx n []"
    by (simp add: sends_ok_def tx_ok_def sender_hist_def n NewSession_def NewShaper_def block_bytes_def data_out_def)
  moreover have "rx_ok rs parity k mx n [] 0"
    using calculation(1) by (auto simp: rx_ok_def n NewSession_def session_inv_def sender_inv_def blocks_ok_def)
  ultimately show ?thesis
    using assms by (simp add: end_ok_def n) (simp add: NewSession_def)
qed

lemma pair_inv_init: "pair_init rs parity k mx z \<Longrightarrow> pair_inv rs parity k mx z"
  by (auto simp: pair_init_def pair_inv_def start_end_def life_start_def intro: end_ok_init)

interpretation stream: invariant_of "pair_init rs parity k mx" "pair_step rs parity k mx" "pair_inv rs parity k mx"
  for rs :: "('enc, 'e) reedsolomon" and parity k mx
  by unfold_locales (blast intro: pair_inv_init pair_inv_step)+

lemma sent_carries:
  "pair_inv rs parity k mx (x, y) \<Longrightarrow> d \<in> data_out (sess (host x)) \<Longrightarrow> \<exists>n. carries parity k mx (hist x) n d"
  by (simp add: pair_inv_def end_ok_def sends_ok_def tx_ok_def)

section \<open>Writing the next block\<close>

lemma write_next:
  assumes inv: "pair_inv rs parity k mx (x, y)" and op: "\<not> ctxDone (sess (host y))"
    and b: "rxBlocks (rx (sess (host y))) (nextWriteGrp (rx (sess (host y)))) = Some b" and dec: "rx_Decoded b"
  obtains out where "write_step [] now (sess (host y)) =
      Inr (write_finish now ((sess (host y))\<lparr>tcpOut := tcpOut (sess (host y)) @ out\<rparr>))"
    and "concat out = block_bytes (hist x ! written y)" and "written y < length (hist x)"
proof -
  let ?s = "sess (host y)"
  have ok: "rx_ok rs parity k mx ?s (hist x) (written y)"
    and h: "list_all (\<lambda>pd. length pd = k) (hist x)" "list_all (list_all framed) (hist x)"
    using inv end_hist by (auto simp: pair_inv_def end_ok_def)
  have "write_decide ?s = WriteBlock b"
    using op b dec by (simp add: write_decide_block)
  moreover obtain out where out: "write_shards [] (take k (rx_Packets b)) = (out, True)"
    using write_shards_succeed [of "take k (rx_Packets b)"] by (cases "write_shards [] (take k (rx_Packets b))") simp
  moreover have "block_wf k mx (nextWriteGrp (rx ?s)) b"
    using ok b by (simp add: rx_ok_def recv_wf_def)
  ultimately have "write_step [] now ?s = Inr (write_finish now (?s\<lparr>tcpOut := tcpOut ?s @ out\<rparr>))"
    by (simp add: write_step_def block_wf_def)
  moreover have "concat out = block_bytes (hist x ! written y)" "written y < length (hist x)"
    using out write_shards_complete [of "[]" "take k (rx_Packets b)"] next_block [OF ok h b dec]
    by simp_all
  ultimately show thesis by (rule that)
qed

text \<open>A block with \<open>k\<close> shards is decoded; when all are written, all that was flushed has arrived.\<close>

lemma next_decoded:
  assumes "pair_inv rs parity k mx (x, y)" and "int k \<le> rx_ReceivedCnt b"
    and "rxBlocks (rx (sess (host y))) (nextWriteGrp (rx (sess (host y)))) = Some b"
  shows "rx_Decoded b"
proof -
  have "rx_ok rs parity k mx (sess (host y)) (hist x) (written y)"
    using assms(1) by (simp add: pair_inv_def end_ok_def)
  with blocks_ok_lookup(2) [of parity k mx "hist x" "written y" "rxBlocks (rx (sess (host y)))" "written y" b] assms(2,3)
  show ?thesis by (simp add: rx_ok_def)
qed

lemma all_written:
  assumes "pair_inv rs parity k mx (x, y)" and "written y = length (hist x)" and "pendingData (tx (sess (host x))) = []"
    and "\<not> recvClosed (rx (sess (host y)))"
  shows "concat (tcpOut (sess (host y))) = tcpIn (sess (host x))"
  using assms by (simp add: pair_inv_def end_ok_def sends_ok_def tx_ok_def rx_ok_def block_bytes_def [of "[]"])

section \<open>A run with a lost datagram\<close>

text \<open>
  Two data shards and their exclusive or: three bytes are read, the first of the three
  datagrams is lost, and the receiver rebuilds the block from the other two.
\<close>

definition sample_session :: "bool \<Rightarrow> unit Session" where
  "sample_session isServer = NewSession 0 7 isServer 1200 0 2 1"

definition sample_pair :: "unit endpoint \<times> unit endpoint" where
  "sample_pair = (start_end (sample_session False), start_end (sample_session True))"

definition sample_reads :: "go_panic + unit Session" where
  "sample_reads = (case tcp_read xor_rs 0 [72, 105] (sample_session False) of
     Inl e \<Rightarrow> Inl e | Inr s \<Rightarrow> tcp_read xor_rs 0 [33] s)"

definition shard1 :: bytes where "shard1 = [48, 7, 1, 0, 0, 9, 0, 1, 33]"
definition shard2 :: bytes where "shard2 = [48, 7, 0, 0, 0, 18, 0, 3, 105, 105]"

definition sample_deliveries :: "go_panic + unit Session" where
  "sample_deliveries = (case (Unmarshal shard1, Unmarshal shard2) of
     (Inr p, Inr q) \<Rightarrow> (case HandleDataPacket xor_rs 0 p (sample_session True) of
         Inl e \<Rightarrow> Inl e | Inr r \<Rightarrow> HandleDataPacket xor_rs 0 q r)
   | _ \<Rightarrow> Inl IndexOutOfRange)"

lemma sample_reads_queue:
  "(case sample_reads of Inl _ \<Rightarrow> None | Inr s \<Rightarrow> Some (stopped (shp s), pendingData (tx s), tcpIn s, udpOut s, queue (shp s), nextWriteGrp (rx s))) =
     Some (False, [], [72, 105, 33], [], [[48, 7, 0, 0, 0, 1, 0, 2, 72, 105], shard1, shard2], 0)"
  by code_simp

lemma sample_reads_flush:
  "(case tcp_read xor_rs 0 [72, 105] (sample_session False) of Inl _ \<Rightarrow> None
    | Inr s \<Rightarrow> Some (nextGroupID (tx s), nextWriteGrp (rx s), length (queue (shp s)),
        case tcp_read xor_rs 0 [33] s of Inl _ \<Rightarrow> 0 | Inr t \<Rightarrow> nextGroupID (tx t))) =
     Some (0, 0, 0, 1)"
  by code_simp

lemma sample_deliveries_written:
  "(case sample_deliveries of Inl _ \<Rightarrow> None | Inr r \<Rightarrow> (case write_step [] 0 r of Inl _ \<Rightarrow> None
     | Inr t \<Rightarrow> Some (tcpOut t, nextWriteGrp (rx t), recvClosed (rx t), recvClosed (rx r), ctxDone r,
         nextWriteGrp (rx r), map_option rx_ReceivedCnt (rxBlocks (rx r) 0)))) =
     Some ([[72, 105], [33]], 1, False, False, False, 0, Some 2)"
  by code_simp

lemma sample_deliveries_marks:
  "(case (Unmarshal shard1, Unmarshal shard2) of
     (Inr p, Inr q) \<Rightarrow> (case HandleDataPacket xor_rs 0 p (sample_session True) of
         Inl e \<Rightarrow> None | Inr r \<Rightarrow> (case HandleDataPacket xor_rs 0 q r of Inl e \<Rightarrow> None | Inr t \<Rightarrow>
           Some ((pType p, pPayload p), (pType q, pPayload q),
             map (\<lambda>s. (nextGroupID (tx s), nextWriteGrp (rx s))) [sample_session True, r, t])))
   | _ \<Rightarrow> None) =
     Some ((TypeData, Some [0, 1, 33]), (TypeData, Some [0, 3, 105, 105]), [(0, 0), (0, 0), (0, 0)])"
  by code_simp

lemma sample_pair_init: "pair_init xor_rs xor_parity 2 1 sample_pair"
  unfolding pair_init_def
  by (intro conjI xor_rs_family exI [of _ "0 :: int"] exI [of _ "7 :: u16"] exI [of _ False] exI [of _ "1200 :: int"])
    (simp_all add: sample_pair_def sample_session_def)

abbreviation sample_reach :: "unit endpoint \<times> unit endpoint \<Rightarrow> bool" where
  "sample_reach \<equiv> reach (pair_init xor_rs xor_parity 2 1) (pair_step xor_rs xor_parity 2 1)"

abbreviation reader_life :: "'enc Session \<Rightarrow> reader_pc \<Rightarrow> 'enc life" where
  "reader_life s r \<equiv> \<lparr>sess = s, rpc = r, cpc = NotStarted, hpc = HandlerIdle, block0 = True, panicked = False\<rparr>"

abbreviation reader_end :: "'enc Session \<Rightarrow> reader_pc \<Rightarrow> bytes list list \<Rightarrow> 'enc endpoint" where
  "reader_end s r h \<equiv> \<lparr>host = reader_life s r, hist = h, written = 0\<rparr>"

abbreviation emitted :: "bytes \<Rightarrow> bytes list \<Rightarrow> 'enc Session \<Rightarrow> 'enc Session" where
  "emitted d q s \<equiv> sendRawUDP 0 d (s\<lparr>shp := (shp s)\<lparr>queue := q\<rparr>\<rparr>)"

lemma sample_step:
  assumes "sample_reach (reader_end s r h, y)" and "nextWriteGrp (rx s') = nextWriteGrp (rx s)"
    and "life_step_from (arrives xor_parity 2 1 (reader_end s r h) y) xor_rs (reader_life s r) (reader_life s' r')"
  shows "sample_reach (reader_end s' r' (h @ new_blocks s s'), y)"
  using reach_step [OF assms(1) pair_step.left [of _ _ _ _ _ _ "reader_life s' r'"]] assms(2,3)
  by (simp add: observe_def advance_def)

lemma sample_read:
  assumes "sample_reach (reader_end s Reading h, y)" and "QueueLen (shp s) \<le> 10" and "int (length d) \<le> maxPayload (par s)"
    and "tcp_read xor_rs 0 d s = Inr s'" and "nextWriteGrp (rx s') = nextWriteGrp (rx s)"
  shows "sample_reach (reader_end s' Reading (h @ new_blocks s s'), y)"
proof -
  have "sample_reach (reader_end s InRead h, y)"
    using sample_step [OF assms(1), of s InRead] life_step_from.enter_read [of "reader_life s Reading"] assms(2)
    by (auto simp: new_blocks_def)
  from sample_step [OF this, of s' Reading] life_step_from.read [of "reader_life s InRead" d _ xor_rs 0] assms(3-5)
  show ?thesis by (auto simp: outcome_def)
qed

lemma sample_emit:
  assumes "sample_reach (reader_end s r h, y)" and "queue (shp s) = d # q"
  shows "sample_reach (reader_end (emitted d q s) r h, y)"
  using sample_step [OF assms(1), of "emitted d q s" r] tx_quiet_blocks [OF emit_quiet(1) [OF assms(2), of 0]]
    life_step_from.background [of _ xor_rs "reader_life s r" "Inr (emitted d q s)"] session_op_from.emit [OF assms(2)]
  by (auto simp: outcome_def sendRawUDP_def)

lemma sample_deliver:
  assumes "sample_reach (x, start_end s)" and "d \<in> set (udpOut (sess (host x)))" and "length (hist x) = 1"
    and "Unmarshal d = Inr p" and "HandleDataPacket xor_rs 0 p s = Inr s'" and "pType p = TypeData" and "pPayload p \<noteq> None"
    and "nextGroupID (tx s') = nextGroupID (tx s)" and "nextWriteGrp (rx s') = nextWriteGrp (rx s)"
  shows "sample_reach (x, start_end s')"
proof -
  let ?D = "arrives xor_parity 2 1 (start_end s) x"
  have "d \<in> data_out (sess (host x))" using assms(2,4,6) by (auto simp: data_out_def)
  then obtain n where n: "carries xor_parity 2 1 (hist x) n d"
    using sent_carries [OF stream.reach_inv [OF assms(1)]] by blast
  then have "n = 0" using assms(3) by (simp add: carries_def)
  with n assms(2,4) have "?D p"
    unfolding arrives_def by (intro bexI [of _ d] conjI exI [of _ 0]) (simp_all add: start_end_def)
  then have "life_step_from ?D xor_rs (life_start s) (life_start s')"
    using life_step_from.background [of ?D xor_rs "life_start s" "Inr s'"]
      session_op_from.data [of ?D p _ xor_rs s 0] assms(5-7)
    by (auto simp: outcome_def life_start_def)
  then show ?thesis
    using reach_step [OF assms(1) pair_step.right [of _ _ _ _ _ _ "life_start s'"]] assms(8,9)
    by (simp add: observe_def start_end_def life_start_def advance_def new_blocks_def)
qed

text \<open>The sending end reads three bytes in two reads, which fills a block, and sends its three datagrams.\<close>

lemma sample_sent:
  obtains x where "sample_reach (x, start_end (sample_session True))" and "tcpIn (sess (host x)) = [72, 105, 33]"
    and "length (hist x) = 1" and "{shard1, shard2} \<subseteq> set (udpOut (sess (host x)))" and "\<not> stopped (shp (sess (host x)))"
    and "pendingData (tx (sess (host x))) = []"
proof -
  let ?s0 = "sample_session False" and ?y0 = "start_end (sample_session True)"
  let ?d = "[48, 7, 0, 0, 0, 1, 0, 2, 72, 105]"
  obtain s1 s2 where s1: "tcp_read xor_rs 0 [72, 105] ?s0 = Inr s1" and s2: "tcp_read xor_rs 0 [33] s1 = Inr s2"
    and q: "queue (shp s2) = [?d, shard1, shard2]"
    and f2: "\<not> stopped (shp s2)" "pendingData (tx s2) = []" "tcpIn s2 = [72, 105, 33]" "udpOut s2 = []" "nextWriteGrp (rx s2) = 0"
    using sample_reads_queue by (auto simp: sample_reads_def split: sum.splits)
  have f1: "nextGroupID (tx s1) = 0" "nextWriteGrp (rx s1) = 0" "queue (shp s1) = []" "nextGroupID (tx s2) = 1"
    using sample_reads_flush s1 s2 by auto
  have f0: "nextGroupID (tx ?s0) = 0" "nextWriteGrp (rx ?s0) = 0" "queue (shp ?s0) = []" "maxPayload (par ?s0) = 1164"
    by (simp_all add: sample_session_def NewSession_def NewShaper_def maxPayload_def)
  have "sample_reach (start_end ?s0, ?y0)"
    using reach_init [of "pair_init xor_rs xor_parity 2 1", OF sample_pair_init] by (simp add: sample_pair_def)
  from reach_step [OF this pair_step.left [OF life_step_from.launch]] have "sample_reach (reader_end ?s0 Reading [], ?y0)"
    by (simp add: observe_def start_end_def life_start_def new_blocks_def advance_def)
  from sample_read [OF this _ _ s1] f0 f1 have "sample_reach (reader_end s1 Reading [], ?y0)"
    by (simp add: QueueLen_def new_blocks_def)
  from sample_read [OF this _ _ s2] f0 f1 f2 tcp_read_keeps_marks [OF s1]
  have "sample_reach (reader_end s2 Reading (new_blocks s1 s2), ?y0)"
    by (simp add: QueueLen_def)
  from sample_emit [OF sample_emit [OF sample_emit [OF this q]]]
  have "sample_reach (reader_end (emitted shard2 [] (emitted shard1 [shard2] (emitted ?d [shard1, shard2] s2)))
      Reading (new_blocks s1 s2), ?y0)"
    by (simp add: sendRawUDP_def)
  then show thesis by (rule that) (use f1 f2 in \<open>simp_all add: sendRawUDP_def new_blocks_def\<close>)
qed

text \<open>Up to the point where the receiver holds two of the three shards.\<close>

lemma sample_run:
  obtains x y where "sample_reach (x, y)" and "sample_deliveries = Inr (sess (host y))" and "written y = 0"
    and "tcpIn (sess (host x)) = [72, 105, 33]" and "length (hist x) = 1" and "\<not> stopped (shp (sess (host x)))"
    and "pendingData (tx (sess (host x))) = []"
proof -
  obtain x where x: "sample_reach (x, start_end (sample_session True))" "length (hist x) = 1"
      "{shard1, shard2} \<subseteq> set (udpOut (sess (host x)))"
    and rest: "tcpIn (sess (host x)) = [72, 105, 33]" "\<not> stopped (shp (sess (host x)))" "pendingData (tx (sess (host x))) = []"
    by (rule sample_sent)
  obtain p1 p2 r1 r where p: "Unmarshal shard1 = Inr p1" "Unmarshal shard2 = Inr p2"
    and r: "HandleDataPacket xor_rs 0 p1 (sample_session True) = Inr r1"
      "HandleDataPacket xor_rs 0 p2 r1 = Inr r" and dr: "sample_deliveries = Inr r"
    using sample_deliveries_written by (auto simp: sample_deliveries_def split: sum.splits)
  from sample_deliver [OF sample_deliver [OF x(1) _ x(2) p(1) r(1)] _ x(2) p(2) r(2)] x(3) sample_deliveries_marks p r
  have "sample_reach (x, start_end r)" by auto
  then show thesis by (rule that) (use x(2) rest dr in \<open>simp_all add: start_end_def life_start_def\<close>)
qed

text \<open>And one round of the write loop further.\<close>

lemma sample_delivered:
  obtains x y where "sample_reach (x, y)" and "tcpIn (sess (host x)) = [72, 105, 33]" and "length (hist x) = 1"
    and "pendingData (tx (sess (host x))) = []" and "written y = 1" and "\<not> recvClosed (rx (sess (host y)))"
proof -
  obtain x y where c: "sample_reach (x, y)" "sample_deliveries = Inr (sess (host y))" "written y = 0"
    and rest: "tcpIn (sess (host x)) = [72, 105, 33]" "length (hist x) = 1" "pendingData (tx (sess (host x))) = []"
    by (rule sample_run)
  obtain t where t: "write_step [] 0 (sess (host y)) = Inr t" "nextWriteGrp (rx t) \<noteq> nextWriteGrp (rx (sess (host y)))"
      "\<not> recvClosed (rx t)" and op: "\<not> recvClosed (rx (sess (host y)))"
    using sample_deliveries_written unfolding c(2) by (auto split: sum.splits)
  let ?y = "observe (outcome (host y) (write_step [] 0 (sess (host y)))) y"
  have "pair_step xor_rs xor_parity 2 1 (x, y) (x, ?y)"
    by (intro pair_step.right life_step_from.background session_op_from.write_loop op)
  from that [OF reach_step [OF c(1) this]] rest c(3) t show thesis
    by (simp add: observe_def outcome_def advance_def)
qed

section \<open>Properties of the stream\<close>

text \<open>
  C1: two sessions of the same stream exchange data over a network that loses, duplicates and
  reorders (among datagrams less than half the group number range away), while control packets
  with any contents arrive, timers fire and goroutines start and end in any order. In both
  directions the bytes written to the far TCP connection are a prefix of the bytes read from
  the near one: in order, without gaps, duplicates or corruption.
\<close>
theorem stream_prefix:
  assumes "reach (pair_init rs parity k mx) (pair_step rs parity k mx) (x, y)"
  shows "prefix (concat (tcpOut (sess (host y)))) (tcpIn (sess (host x)))
     \<and> prefix (concat (tcpOut (sess (host x)))) (tcpIn (sess (host y)))"
  using stream.reach_inv [OF assms]
  by (auto simp: pair_inv_def end_ok_def sends_ok_def tx_ok_def rx_ok_def intro: prefix_prefix)

theorem stream_prefix_witness:
  "\<exists>x y. reach (pair_init xor_rs xor_parity 2 1) (pair_step xor_rs xor_parity 2 1) (x, y)
     \<and> prefix (concat (tcpOut (sess (host y)))) [72, 105, 33]"
proof -
  obtain x y where c: "sample_reach (x, y)" "tcpIn (sess (host x)) = [72, 105, 33]"
    by (rule sample_run)
  from stream_prefix [OF c(1)] c show ?thesis by auto
qed

text \<open>
  C6: when every flushed block has been written, nothing is pending and no write failed, the
  far end has received exactly the bytes read so far.
\<close>
theorem stream_complete:
  assumes "reach (pair_init rs parity k mx) (pair_step rs parity k mx) (x, y)"
    and "written y = length (hist x)" and "pendingData (tx (sess (host x))) = []"
    and "\<not> recvClosed (rx (sess (host y)))"
  shows "concat (tcpOut (sess (host y))) = tcpIn (sess (host x))"
  by (rule all_written [OF stream.reach_inv [OF assms(1)] assms(2-4)])

theorem stream_complete_witness:
  "\<exists>x y. reach (pair_init xor_rs xor_parity 2 1) (pair_step xor_rs xor_parity 2 1) (x, y)
     \<and> concat (tcpOut (sess (host y))) = [72, 105, 33]"
proof -
  obtain x y where c: "sample_reach (x, y)" "tcpIn (sess (host x)) = [72, 105, 33]" "length (hist x) = 1"
      "pendingData (tx (sess (host x))) = []" "written y = 1" "\<not> recvClosed (rx (sess (host y)))"
    by (rule sample_delivered)
  with stream_complete [OF c(1)] show ?thesis by auto
qed

text \<open>
  C3: any \<open>k\<close> distinct shards of the next block are enough: once the receiver has stored that
  many, the next round of its write loop appends that block's bytes to the output and moves
  to the following block.
\<close>
theorem k_shards_deliver_next_block:
  assumes "reach (pair_init rs parity k mx) (pair_step rs parity k mx) (x, y)"
    and "\<not> recvClosed (rx (sess (host y)))" and "\<not> ctxDone (sess (host y))"
    and "rxBlocks (rx (sess (host y))) (nextWriteGrp (rx (sess (host y)))) = Some b"
    and "int k \<le> rx_ReceivedCnt b"
  shows "\<exists>r. write_step [] now (sess (host y)) = Inr r \<and> written y < length (hist x)
     \<and> concat (tcpOut r) = concat (tcpOut (sess (host y))) @ block_bytes (hist x ! written y)
     \<and> nextWriteGrp (rx r) = nextWriteGrp (rx (sess (host y))) + 1"
proof -
  have inv: "pair_inv rs parity k mx (x, y)" by (rule stream.reach_inv [OF assms(1)])
  obtain out where "write_step [] now (sess (host y)) =
      Inr (write_finish now ((sess (host y))\<lparr>tcpOut := tcpOut (sess (host y)) @ out\<rparr>))"
    and "concat out = block_bytes (hist x ! written y)" and "written y < length (hist x)"
    by (rule write_next [OF inv assms(3,4) next_decoded [OF inv assms(5,4)]])
  then show ?thesis by simp
qed

theorem k_shards_deliver_next_block_witness:
  "\<exists>x y r. reach (pair_init xor_rs xor_parity 2 1) (pair_step xor_rs xor_parity 2 1) (x, y)
     \<and> write_step [] 0 (sess (host y)) = Inr r
     \<and> concat (tcpOut r) = concat (tcpOut (sess (host y))) @ block_bytes (hist x ! 0)"
proof -
  obtain x y where c: "sample_reach (x, y)" "sample_deliveries = Inr (sess (host y))" "written y = 0"
    by (rule sample_run)
  obtain b where "rxBlocks (rx (sess (host y))) (nextWriteGrp (rx (sess (host y)))) = Some b"
    "rx_ReceivedCnt b = 2" "\<not> recvClosed (rx (sess (host y)))" "\<not> ctxDone (sess (host y))"
    using sample_deliveries_written unfolding c(2) by (auto split: sum.splits)
  with k_shards_deliver_next_block [OF c(1), of b 0] c show ?thesis by auto
qed



end
