(* ===== verification/Progress.thy ===== *)
theory Progress
  imports EndToEnd
begin

text \<open>
  Delivery never gets stuck. While the sender's shaper has not been stopped, every data
  shard of every flushed block is queued or has been sent, and buffered data has a timer that
  will flush it. So from every state of the pair in which the sender is not closed and the receiver
  still writes, a finite continuation delivers every byte read so far, whatever was lost,
  duplicated, reordered or forged before.
\<close>

section \<open>Every flushed shard is on its way\<close>

definition outbox :: "'enc Session \<Rightarrow> bytes set" where
  "outbox s = set (queue (shp s)) \<union> set (udpOut s)"

definition shards_out :: "nat \<Rightarrow> 'enc Session \<Rightarrow> bytes list list \<Rightarrow> bool" where
  "shards_out k s h \<longleftrightarrow> (\<forall>n < length h. \<forall>i < k. \<exists>q. \<exists>d \<in> outbox s.
     Marshal (data_packet (StreamID (par s)) (of_nat n) q i (h ! n ! i)) = Inr d)"

definition all_sent :: "nat \<Rightarrow> 'enc Session \<Rightarrow> bytes list list \<Rightarrow> bool" where
  "all_sent k s h \<longleftrightarrow> (\<not> stopped (shp s) \<longrightarrow>
     (pendingData (tx s) \<noteq> [] \<longrightarrow> blockTimer (tx s)) \<and> shards_out k s h)"

text \<open>A step that flushes nothing and loses nothing.\<close>

definition steady :: "'enc Session \<Rightarrow> 'enc Session \<Rightarrow> bool" where
  "steady s s' \<longleftrightarrow> par s' = par s \<and> nextGroupID (tx s') = nextGroupID (tx s) \<and> (stopped (shp s') \<or>
     \<not> stopped (shp s) \<and> pendingData (tx s') = pendingData (tx s) \<and> blockTimer (tx s') = blockTimer (tx s)
     \<and> outbox s \<subseteq> outbox s')"

lemma shards_out_mono: "shards_out k s h \<Longrightarrow> par s' = par s \<Longrightarrow> outbox s \<subseteq> outbox s' \<Longrightarrow> shards_out k s' h"
  unfolding shards_out_def by (metis subsetD)

lemma all_sent_steady:
  assumes "all_sent k s h" and "steady s s'"
  shows "all_sent k s' (h @ new_blocks s s')"
  using assms shards_out_mono [of k s h s'] by (auto simp: all_sent_def steady_def new_blocks_def)

lemma shards_out_flushed:
  assumes "shards_out k s h" and "\<not> stopped (shp s)" and "StreamID (par s) \<le> 0x0FFF"
    and g: "nextGroupID (tx s) = of_nat (length h)"
  shows "shards_out k (flushed parity k m f s) (h @ [pad_block (int k) (pendingData (tx s))])"
proof -
  let ?s = "flushed parity k m f s" and ?pd = "pad_block (int k) (pendingData (tx s))"
  let ?ps = "block_packets parity (StreamID (par s)) (of_nat (length h)) k m (nextSeqNum (tx s)) ?pd"
  have par: "par ?s = par s" and out: "outbox ?s = outbox s \<union> set (marshal_all ?ps)"
    using assms(2) by (auto simp: flushed_def Let_def outbox_def EnqueueMany_def g)
  have "\<exists>q. \<exists>d \<in> outbox ?s. Marshal (data_packet (StreamID (par s)) (of_nat n) q i ((h @ [?pd]) ! n ! i)) = Inr d"
    if "n < Suc (length h)" "i < k" for n i
  proof (cases "n < length h")
    case True
    with assms(1) that(2) show ?thesis unfolding out by (fastforce simp: shards_out_def nth_append)
  next
    case False
    with that have n: "n = length h" by simp
    let ?q = "nextSeqNum (tx s) + of_nat i"
    let ?p = "data_packet (StreamID (par s)) (of_nat (length h)) ?q i (?pd ! i)"
    obtain d where d: "Marshal ?p = Inr d" using data_packet_encodable [OF assms(3)] by blast
    have "?p \<in> set ?ps" using that(2) by (simp add: block_packets_def data_packets_map)
    with d have "d \<in> set (marshal_all ?ps)" unfolding in_marshal_all by blast
    with d n show ?thesis unfolding out by auto
  qed
  then show ?thesis by (simp add: shards_out_def par)
qed

section \<open>Every step keeps it\<close>

lemma all_sent_flush:
  assumes ok: "end_ok rs parity k mx hp h W s" and "stopped (shp s) \<or> shards_out k s h"
    and r: "flushPendingBlockLocked rs s = Inr s'"
  shows "all_sent k s' (h @ new_blocks s s') \<and> pendingData (tx s') = [] \<and> stopped (shp s') = stopped (shp s) \<and> tcpIn s' = tcpIn s"
proof (cases "pendingData (tx s) = []")
  case True
  with r assms(2) show ?thesis
    by (auto simp: flushPendingBlockLocked_def all_sent_def new_blocks_def)
next
  case False
  note e = end_okD [OF ok]
  obtain m f where "flushPendingBlock rs s = Inr (flushed parity k m f s)"
    by (rule flush_total [OF e(1,4) False])
  with r have s': "s' = flushed parity k m f s" by (simp add: flushPendingBlock_def)
  have g: "nextGroupID (tx s) = of_nat (length h)" "StreamID (par s) \<le> 0x0FFF" "FEC_K (par s) = int k"
    using ok e(1) by (simp_all add: end_ok_def sends_ok_def tx_ok_def sender_hist_def sender_inv_def)
  then have "new_blocks s s' = [pad_block (int k) (pendingData (tx s))]" "stopped (shp s') = stopped (shp s)"
    "pendingData (tx s') = []" "tcpIn s' = tcpIn s"
    by (simp_all add: s' new_blocks_def flushed_def Let_def EnqueueMany_def)
  with shards_out_flushed [of k s h parity m f] g assms(2) show ?thesis
    by (auto simp: all_sent_def s')
qed

lemma all_sent_read:
  assumes ok: "end_ok rs parity k mx hp h W s" and sent: "all_sent k s h" and d: "int (length d) \<le> maxPayload (par s)"
    and r: "tcp_read rs now d s = Inr s'"
  shows "all_sent k s' (h @ new_blocks s s')"
proof (cases "d = []")
  case True
  with r sent show ?thesis by (simp add: tcp_read_def new_blocks_def)
next
  case False
  note e = end_okD [OF ok]
  have g: "nextGroupID (tx s) = of_nat (length h)" "StreamID (par s) \<le> 0x0FFF" "FEC_K (par s) = int k"
    using ok e(1) by (simp_all add: end_ok_def sends_ok_def tx_ok_def sender_hist_def sender_inv_def)
  from e(1,4) False show ?thesis
  proof (cases rule: tcp_read_cases [where now = now])
    case (buffer timer)
    from buffer(1) r g False have "blockTimer (tx s') \<longleftrightarrow> pendingData (tx s) = [] \<or> blockTimer (tx s)"
      by (auto simp: tcp_read_def Let_def)
    with buffer r sent shards_out_mono [of k s h s'] show ?thesis
      by (auto simp: buffered_def new_blocks_def all_sent_def outbox_def)
  next
    case (flush m f)
    let ?b = "buffered now d False s"
    have s': "s' = flushed parity k m f ?b" using flush r by simp
    have "new_blocks s s' = [pad_block (int k) (pendingData (tx ?b))]"
      using False g by (simp add: s' new_blocks_def flushed_def Let_def buffered_def)
    moreover have "shards_out k ?b h" if "\<not> stopped (shp s)"
      using sent that shards_out_mono [of k s h ?b] by (simp add: all_sent_def buffered_def outbox_def)
    ultimately show ?thesis
      using shards_out_flushed [of k ?b h parity m f] g
      by (auto simp: all_sent_def s' flushed_def Let_def buffered_def EnqueueMany_def)
  qed
qed

lemma steady_refl [simp]: "steady s s"
  by (simp add: steady_def)

text \<open>Sending control packets directly is steady; so is anything after which the shaper is stopped.\<close>

lemma steady_sends:
  assumes "par s' = par s" and "tx s' = tx s" and "shp s' = shp s" and "udpOut s' = udpOut s @ ds"
  shows "steady s s'"
  using assms by (auto simp: steady_def outbox_def)

lemma steady_direct: "steady s (sendPacketDirect now p s)"
  by (rule steady_sends) (simp_all add: udpOut_sendPacketDirect)

lemma steady_lqr_timer: "steady s (handleLQRTimeout now g s)"
  using handleLQRTimeout_sends [of now g s] by (auto intro: steady_sends)

lemma steady_close: "steady s (Close s)"
  by (simp add: steady_def Close_def Stop_def)

lemma steady_lqr: "steady s (HandleLQR now p s)"
proof -
  have "blockTimer (tx (HandleLQR now p s)) = blockTimer (tx s)"
    by (auto simp: HandleLQR_def Let_def updateShaperParams_def adapt_def split: option.splits prod.splits if_splits)
  then show ?thesis by (simp add: steady_def HandleLQR_frame outbox_def)
qed

lemma steady_nak: "steady s (HandleNak now p s)"
  by (auto simp: steady_def outbox_def HandleNak_queue)

lemma steady_emit: "queue (shp s) = b # q \<Longrightarrow> steady s (sendRawUDP now b (s\<lparr>shp := (shp s)\<lparr>queue := q\<rparr>\<rparr>))"
  by (auto simp: steady_def outbox_def sendRawUDP_def)

lemma steady_marks:
  "steady s (RecordRx n s)" "steady s (s\<lparr>ctxDone := c\<rparr>)" "steady s (s\<lparr>tx := (tx s)\<lparr>sendClosed := c\<rparr>\<rparr>)"
  "steady s (s\<lparr>tx := (tx s)\<lparr>closeSent := c\<rparr>\<rparr>)" "steady s (s\<lparr>tx := (tx s)\<lparr>closeRecv := c\<rparr>\<rparr>)"
  by (simp_all add: steady_def RecordRx_def outbox_def)

lemma steady_write:
  assumes "recv_wf k mx s" and "write_step res now s = Inr s'"
  shows "steady s s'"
proof -
  have out: "steady (s\<lparr>tcpOut := out\<rparr>) t \<Longrightarrow> steady s t" for out t
    by (simp add: steady_def outbox_def)
  have exit: "steady t (write_exit t)" for t :: "'a Session"
    by (simp add: steady_def outbox_def write_exit_def)
  have finish: "steady t (write_finish now t)" for t :: "'a Session"
    using write_finish_sends [of now t] by (auto intro: steady_sends)
  show ?thesis
    by (rule write_step_cases [OF assms(1), of res now])
      (use assms(2) in \<open>auto intro: exit out [OF exit] out [OF finish]\<close>)
qed

lemma all_sent_op:
  assumes op: "session_op_from D rs s (Inr s')" and ok: "end_ok rs parity k mx hp h W s" and sent: "all_sent k s h"
  shows "all_sent k s' (h @ new_blocks s s')"
proof -
  note e = end_okD [OF ok]
  note st = all_sent_steady [OF sent]
  from op show ?thesis
  proof (cases rule: session_op_from.cases)
    case flush_timer
    let ?s = "s\<lparr>tx := (tx s)\<lparr>blockTimer := False\<rparr>\<rparr>"
    have "stopped (shp ?s) \<or> shards_out k ?s h"
      using sent by (auto simp: all_sent_def shards_out_def outbox_def)
    moreover have "flushPendingBlockLocked rs ?s = Inr s'" using flush_timer by (simp add: flushPendingBlock_def)
    ultimately have "all_sent k s' (h @ new_blocks ?s s')"
      using all_sent_flush [OF end_timer_off [OF ok]] by blast
    moreover have "new_blocks ?s s' = new_blocks s s'" by (simp add: new_blocks_def)
    ultimately show ?thesis by simp
  next
    case (data p q now)
    with HandleDataPacket_frame [OF e(2) data(3) e(3), of now] have "steady s s'"
      by (auto simp: steady_def outbox_def)
    then show ?thesis by (rule st)
  next
    case (nak_timer now g)
    obtain t ps where t: "sendNakPeriodic now g s = Inr t" "rx t = rx s" "tx t = tx s" "par t = par s" "coder t = coder s"
      "shp t = shp s" "tcpOut t = tcpOut s" "tcpIn t = tcpIn s" "list_all control ps" "udpOut t = udpOut s @ marshal_all ps"
      by (rule nak_timer_sends [OF e(2)])
    with nak_timer have "s' = t" by simp
    with t show ?thesis by (intro st steady_sends) simp_all
  next
    case (write_loop res now)
    then show ?thesis by (intro st steady_write [OF e(2)]) simp
  qed (auto intro!: st steady_lqr steady_nak steady_lqr_timer steady_emit steady_close steady_marks)
qed

lemma all_sent_outcome:
  assumes "\<exists>s'. r = Inr s' \<and> all_sent k s' (h @ new_blocks (sess l) s')"
  shows "all_sent k (sess (outcome l r)) (h @ new_blocks (sess l) (sess (outcome l r)))"
  using assms by (auto simp: outcome_def)

lemma all_sent_outcome_read:
  assumes "end_ok rs parity k mx hp h W (sess l)" and "all_sent k (sess l) h" and "int (length d) \<le> maxPayload (par (sess l))"
  shows "all_sent k (sess (outcome l (tcp_read rs now d (sess l))))
    (h @ new_blocks (sess l) (sess (outcome l (tcp_read rs now d (sess l)))))"
  using read_inv [OF end_okD(7) [OF assms(1)] end_okD(4) [OF assms(1)] assms(3), of now] all_sent_read [OF assms]
  by (intro all_sent_outcome) blast

lemma read_failed_stopped: "stopped (shp (read_failed now s))"
  by (simp add: read_failed_def Close_def Stop_def)

lemma all_sent_life:
  assumes "life_step_from D rs l l'" and "end_ok rs parity k mx hp h W (sess l)" and "all_sent k (sess l) h"
  shows "all_sent k (sess l') (h @ new_blocks (sess l) (sess l'))"
  using assms
proof (induction rule: life_step_from.induct)
  case (background l r)
  note e = end_okD [OF background(2)]
  show ?case
    using session_op_inv [OF session_op_any [OF background(1)] e(7,4)] background
    by (intro all_sent_outcome) (auto intro: all_sent_op)
next
  case (init_block l)
  note e = end_okD [OF init_block(2)]
  obtain s' where s': "Start (sess l) = Inr s'" using Start_inv [OF e(7)] by blast
  then have "steady (sess l) s'" by (auto simp: Start_def Let_def steady_def outbox_def split: if_splits)
  with s' all_sent_steady [OF init_block(3)] show ?case by (simp add: outcome_def)
next
  case (read l d now)
  then show ?case using all_sent_outcome_read [of rs parity k mx hp h W l d now] by simp
next
  case (read_eof l d now)
  then show ?case using all_sent_outcome_read [of rs parity k mx hp h W l d now] by simp
next
  case (read_error l d l' now)
  then show ?case by (simp add: all_sent_def read_failed_stopped)
next
  case (flush_rest l)
  note e = end_okD [OF flush_rest(2)]
  have "stopped (shp (sess l)) \<or> shards_out k (sess l) h" using flush_rest(3) by (auto simp: all_sent_def)
  with flush_inv [OF e(7,4)] all_sent_flush [OF flush_rest(2)]
  have "all_sent k (sess (outcome l (flushPendingBlockLocked rs (sess l))))
      (h @ new_blocks (sess l) (sess (outcome l (flushPendingBlockLocked rs (sess l)))))"
    by (intro all_sent_outcome) (auto simp: flushPendingBlock_def)
  then show ?case by simp
next
  case (mark_sent l s' both)
  then show ?case by (auto simp: mark_closeSent_def intro!: all_sent_steady steady_marks)
next
  case (handle_close l s' both)
  then show ?case by (auto simp: mark_closeRecv_def intro!: all_sent_steady steady_marks)
qed (auto simp: send_close_def intro!: all_sent_steady steady_marks steady_close steady_direct)

definition pair_sent ::
  "('enc, 'e) reedsolomon \<Rightarrow> (bytes list \<Rightarrow> bytes list) \<Rightarrow> nat \<Rightarrow> nat \<Rightarrow> 'enc endpoint \<times> 'enc endpoint \<Rightarrow> bool" where
  "pair_sent rs parity k mx z \<longleftrightarrow> pair_inv rs parity k mx z
     \<and> all_sent k (sess (host (fst z))) (hist (fst z)) \<and> all_sent k (sess (host (snd z))) (hist (snd z))"

lemma pair_sent_step:
  assumes "pair_step rs parity k mx z z'" and "pair_sent rs parity k mx z"
  shows "pair_sent rs parity k mx z'"
  using assms pair_inv_step [OF assms(1)]
  by (induction rule: pair_step.induct) (auto simp: pair_sent_def pair_inv_def observe_def intro: all_sent_life)

lemma pair_sent_init: "pair_init rs parity k mx z \<Longrightarrow> pair_sent rs parity k mx z"
  using pair_inv_init [of rs parity k mx z]
  by (auto simp: pair_sent_def pair_init_def all_sent_def shards_out_def start_end_def life_start_def NewSession_def)

interpretation flow: invariant_of "pair_init rs parity k mx" "pair_step rs parity k mx" "pair_sent rs parity k mx"
  for rs :: "('enc, 'e) reedsolomon" and parity k mx
  by unfold_locales (auto intro: pair_sent_init pair_sent_step)

section \<open>Sending everything\<close>

abbreviation steps ::
  "('enc, 'e) reedsolomon \<Rightarrow> (bytes list \<Rightarrow> bytes list) \<Rightarrow> nat \<Rightarrow> nat \<Rightarrow> 'enc endpoint \<times> 'enc endpoint
    \<Rightarrow> 'enc endpoint \<times> 'enc endpoint \<Rightarrow> bool" where
  "steps rs parity k mx \<equiv> rtranclp (pair_step rs parity k mx)"

lemma steps_sent: "steps rs parity k mx z z' \<Longrightarrow> pair_sent rs parity k mx z \<Longrightarrow> pair_sent rs parity k mx z'"
  by (induction rule: rtranclp_induct) (auto intro: pair_sent_step)

lemma can_flush:
  assumes sent: "pair_sent rs parity k mx (x, y)" and op: "\<not> stopped (shp (sess (host x)))"
  obtains x' where "steps rs parity k mx (x, y) (x', y)" and "\<not> stopped (shp (sess (host x')))"
    and "pendingData (tx (sess (host x'))) = []" and "tcpIn (sess (host x')) = tcpIn (sess (host x))"
proof (cases "pendingData (tx (sess (host x))) = []")
  case True
  with op that [of x] show thesis by simp
next
  case False
  let ?s = "sess (host x)" and ?t = "(sess (host x))\<lparr>tx := (tx (sess (host x)))\<lparr>blockTimer := False\<rparr>\<rparr>"
  have ok: "end_ok rs parity k mx (hist y) (hist x) (written x) ?s" and out: "shards_out k ?s (hist x)"
    and timer: "blockTimer (tx ?s)"
    using sent op False by (simp_all add: pair_sent_def pair_inv_def all_sent_def)
  note ok' = end_timer_off [OF ok]
  have out': "stopped (shp ?t) \<or> shards_out k ?t (hist x)" using out by (simp add: shards_out_def outbox_def)
  have "pendingData (tx ?t) \<noteq> []" using False by simp
  then obtain s' where s': "flushPendingBlock rs ?t = Inr s'"
    using flush_total [OF end_okD(1,4) [OF ok']] by metis
  let ?l = "outcome (host x) (flushPendingBlock rs ?t)"
  have "pair_step rs parity k mx (x, y) (observe ?l x, y)"
    by (intro pair_step.left life_step_from.background session_op_from.flush_timer timer)
  from r_into_rtranclp [of "pair_step rs parity k mx", OF this] show thesis
    using that [of "observe ?l x"] all_sent_flush [OF ok' out', of s'] s' op
    by (simp add: observe_def outcome_def flushPendingBlock_def)
qed

lemma can_emit:
  assumes "\<not> stopped (shp (sess (host x)))"
  shows "\<exists>x'. steps rs parity k mx (x, y) (x', y) \<and> queue (shp (sess (host x'))) = []
     \<and> \<not> stopped (shp (sess (host x'))) \<and> tx (sess (host x')) = tx (sess (host x))
     \<and> tcpIn (sess (host x')) = tcpIn (sess (host x))"
  using assms
proof (induction "queue (shp (sess (host x)))" arbitrary: x)
  case (Cons d q)
  let ?s = "sendRawUDP 0 d ((sess (host x))\<lparr>shp := (shp (sess (host x)))\<lparr>queue := q\<rparr>\<rparr>)"
  let ?x = "observe (outcome (host x) (Inr ?s)) x"
  have "pair_step rs parity k mx (x, y) (?x, y)"
    by (intro pair_step.left life_step_from.background session_op_from.emit Cons(2) [symmetric])
  moreover have "q = queue (shp (sess (host ?x)))" "\<not> stopped (shp (sess (host ?x)))"
    "tx (sess (host ?x)) = tx (sess (host x))" "tcpIn (sess (host ?x)) = tcpIn (sess (host x))"
    using Cons.prems by (simp_all add: observe_def outcome_def sendRawUDP_def)
  ultimately show ?case
    using Cons.hyps(1) [of ?x] by (metis converse_rtranclp_into_rtranclp)
qed (auto intro: exI)

section \<open>Delivering the next block\<close>

definition stored :: "'enc Session \<Rightarrow> u16 \<Rightarrow> nat \<Rightarrow> bool" where
  "stored s g i \<longleftrightarrow> (\<exists>b. rxBlocks (rx s) g = Some b \<and> rx_Packets b ! i \<noteq> None)"

lemma data_stored:
  assumes wf: "recv_wf k mx s" and q: "pPayload p = Some q" and "\<not> recvClosed (rx s)"
    and "\<not> grp_after (nextWriteGrp (rx s)) (pGroupID p)"
  obtains s' where "HandleDataPacket rs now p s = Inr s'" and "nextWriteGrp (rx s') = nextWriteGrp (rx s)"
    and "\<not> recvClosed (rx s')" and "ctxDone s' = ctxDone s" and "stored s' (pGroupID p) (unat (pIdx p))"
    and "\<And>j. j < k \<Longrightarrow> stored s (pGroupID p) j \<Longrightarrow> stored s' (pGroupID p) j"
  using wf q
proof (cases rule: HandleDataPacket_cases [where rs = rs and now = now])
  case (accept b f b')
  let ?i = "unat (pIdx p)"
  let ?b = "store_shard ?i (Some q) (grow_block ?i b)"
  have keep: "rx_Packets b' ! j \<noteq> None" if "j < length (rx_Packets ?b)" "rx_Packets ?b ! j \<noteq> None" for j
    using maybe_decode_keeps [OF accept(5) that(1)] that(2) by blast
  have i: "?i < length (rx_Packets ?b)" "rx_Packets ?b ! ?i \<noteq> None"
    using grow_block_length [of ?i b] by (simp_all add: store_shard_def)
  have old: "j < length (rx_Packets ?b) \<and> rx_Packets ?b ! j \<noteq> None"
    if "j < length (rx_Packets b)" "rx_Packets b ! j \<noteq> None" for j
    using that by (auto simp: store_shard_def grow_block_def nth_append nth_list_update)
  have "rx_Packets b' ! j \<noteq> None" if "j < k" "stored s (pGroupID p) j" for j
    using that accept(3,4) old [of j] keep [of j] by (auto simp: stored_def target_block_def block_wf_def)
  with accept(8) keep [OF i] assms(3) show thesis
    by (intro that [OF accept(8)]) (simp_all add: stored_def)
qed (use assms(3,4) in simp_all)

lemma can_store:
  assumes sent: "pair_sent rs parity k mx (x, y)" and queue: "queue (shp (sess (host x))) = []"
    and op: "\<not> stopped (shp (sess (host x)))" "\<not> recvClosed (rx (sess (host y)))"
    and n: "written y < length (hist x)" and i: "i < k"
  obtains y' where "steps rs parity k mx (x, y) (x, y')" and "written y' = written y"
    and "\<not> recvClosed (rx (sess (host y')))" and "ctxDone (sess (host y')) = ctxDone (sess (host y))"
    and "stored (sess (host y')) (of_nat (written y)) i"
    and "\<And>j. j < k \<Longrightarrow> stored (sess (host y)) (of_nat (written y)) j \<Longrightarrow> stored (sess (host y')) (of_nat (written y)) j"
proof -
  let ?s = "sess (host y)" and ?n = "written y"
  let ?p = "\<lambda>q. data_packet (StreamID (par (sess (host x)))) (of_nat ?n) q i (hist x ! ?n ! i)"
  have ok: "end_ok rs parity k mx (hist x) (hist y) ?n ?s" and out: "shards_out k (sess (host x)) (hist x)"
    using sent op(1) by (simp_all add: pair_sent_def pair_inv_def all_sent_def)
  note e = end_okD [OF ok]
  have W: "nextWriteGrp (rx ?s) = of_nat ?n" using ok by (simp add: end_ok_def rx_ok_def)
  have "outbox (sess (host x)) = set (udpOut (sess (host x)))" using queue by (simp add: outbox_def)
  with out n i obtain q d where d: "d \<in> set (udpOut (sess (host x)))" "Marshal (?p q) = Inr d"
    unfolding shards_out_def by metis
  have car: "carries parity k mx (hist x) ?n d" by (rule data_packet_carries [OF d(2) n i e(5)])
  have U: "Unmarshal d = Inr (wire_view (?p q))" (is "_ = Inr ?w") by (rule wire.dec_enc [OF d(2)])
  have w: "pPayload ?w = Some (hist x ! ?n ! i)" "pGroupID ?w = of_nat ?n" "unat (pIdx ?w) = i"
    using u8_idx [of i] i e(5) by (simp_all add: wire_view_def data_packet_def zero_packet_def)
  have "arrives parity k mx y x ?w"
    unfolding arrives_def using d(1) U car by (intro bexI [of _ d] conjI exI [of _ ?n]) simp_all
  then have op: "session_op_from (arrives parity k mx y x) rs ?s (HandleDataPacket rs 0 ?w ?s)"
    using w(1) by (intro session_op_from.data)
  obtain s' where s': "HandleDataPacket rs 0 ?w ?s = Inr s'" "nextWriteGrp (rx s') = nextWriteGrp (rx ?s)"
      "\<not> recvClosed (rx s')" "ctxDone s' = ctxDone ?s" "stored s' (pGroupID ?w) (unat (pIdx ?w))"
      "\<And>j. j < k \<Longrightarrow> stored ?s (pGroupID ?w) j \<Longrightarrow> stored s' (pGroupID ?w) j"
    using data_stored [OF e(2) w(1), of rs 0] op W w(2) assms(4) by (metis grp_after_irrefl)
  let ?y = "observe (outcome (host y) (HandleDataPacket rs 0 ?w ?s)) y"
  have "pair_step rs parity k mx (x, y) (x, ?y)"
    by (intro pair_step.right life_step_from.background op)
  from r_into_rtranclp [of "pair_step rs parity k mx", OF this] show thesis
    using s' w by (intro that [of ?y]) (simp_all add: observe_def outcome_def advance_def)
qed

text \<open>Shard after shard, the next block fills up.\<close>

lemma can_fill:
  assumes "pair_sent rs parity k mx (x, y)" and "queue (shp (sess (host x))) = []" and "\<not> stopped (shp (sess (host x)))"
    and "\<not> recvClosed (rx (sess (host y)))" and "written y < length (hist x)" and "m \<le> k"
  shows "\<exists>y'. steps rs parity k mx (x, y) (x, y') \<and> written y' = written y \<and> \<not> recvClosed (rx (sess (host y')))
     \<and> ctxDone (sess (host y')) = ctxDone (sess (host y)) \<and> (\<forall>j < m. stored (sess (host y')) (of_nat (written y)) j)"
  using assms(6)
proof (induction m)
  case 0
  show ?case using assms(4) by (intro exI [of _ y]) simp
next
  case (Suc m)
  then obtain y1 where y1: "steps rs parity k mx (x, y) (x, y1)" "written y1 = written y" "\<not> recvClosed (rx (sess (host y1)))"
      "ctxDone (sess (host y1)) = ctxDone (sess (host y))" "\<And>j. j < m \<Longrightarrow> stored (sess (host y1)) (of_nat (written y)) j"
    by auto
  have "written y1 < length (hist x)" "m < k" using y1(2) assms(5) Suc.prems by simp_all
  with can_store [OF steps_sent [OF y1(1) assms(1)] assms(2,3) y1(3)]
  obtain y2 where y2: "steps rs parity k mx (x, y1) (x, y2)" "written y2 = written y1" "\<not> recvClosed (rx (sess (host y2)))"
      "ctxDone (sess (host y2)) = ctxDone (sess (host y1))" "stored (sess (host y2)) (of_nat (written y1)) m"
      "\<And>j. j < k \<Longrightarrow> stored (sess (host y1)) (of_nat (written y1)) j \<Longrightarrow> stored (sess (host y2)) (of_nat (written y1)) j"
    by metis
  have "stored (sess (host y2)) (of_nat (written y)) j" if "j < Suc m" for j
    using y1(2,5) y2(5,6) that Suc.prems by (cases "j = m") (auto simp: less_Suc_eq)
  with rtranclp_trans [OF y1(1) y2(1)] y1 y2 show ?case by (intro exI [of _ y2]) simp
qed

lemma present_all: "k \<le> length ps \<Longrightarrow> \<forall>j < k. ps ! j \<noteq> None \<Longrightarrow> k \<le> present ps"
proof -
  assume "k \<le> length ps" "\<forall>j < k. ps ! j \<noteq> None"
  then have "filter (\<lambda>s. s \<noteq> None) (take k ps) = take k ps" by (auto simp: filter_id_conv in_set_conv_nth)
  with \<open>k \<le> length ps\<close> have "present (take k ps) = k" by (simp add: present_def)
  then show ?thesis using present_append [of "take k ps" "drop k ps"] by simp
qed

lemma filled_decoded:
  assumes inv: "pair_inv rs parity k mx (x, y)" and all: "\<forall>j < k. stored (sess (host y)) (of_nat (written y)) j"
  obtains b where "rxBlocks (rx (sess (host y))) (nextWriteGrp (rx (sess (host y)))) = Some b" and "rx_Decoded b"
proof -
  have ok: "end_ok rs parity k mx (hist x) (hist y) (written y) (sess (host y))"
    using inv by (simp add: pair_inv_def)
  note e = end_okD [OF ok]
  have W: "nextWriteGrp (rx (sess (host y))) = of_nat (written y)" using ok by (simp add: end_ok_def rx_ok_def)
  from all e(6) obtain b where b: "rxBlocks (rx (sess (host y))) (of_nat (written y)) = Some b"
    unfolding stored_def by blast
  with all have full: "\<forall>j < k. rx_Packets b ! j \<noteq> None" by (simp add: stored_def)
  from b e(2) have wf: "block_wf k mx (of_nat (written y)) b" by (simp add: recv_wf_def)
  have "rx_Decoded b"
  proof (rule ccontr)
    assume "\<not> rx_Decoded b"
    then have "int k \<le> rx_ReceivedCnt b"
      using wf full present_all [of k "rx_Packets b"] by (simp add: block_wf_def)
    with next_decoded [OF inv] b W \<open>\<not> rx_Decoded b\<close> show False by simp
  qed
  with b W show thesis by (intro that) simp_all
qed

lemma can_write:
  assumes sent: "pair_sent rs parity k mx (x, y)" and "queue (shp (sess (host x))) = []" and "\<not> stopped (shp (sess (host x)))"
    and "\<not> recvClosed (rx (sess (host y)))" and "\<not> ctxDone (sess (host y))" and "written y < length (hist x)"
  obtains y' where "steps rs parity k mx (x, y) (x, y')" and "written y' = Suc (written y)"
    and "\<not> recvClosed (rx (sess (host y')))" and "\<not> ctxDone (sess (host y'))"
proof -
  obtain y1 where y1: "steps rs parity k mx (x, y) (x, y1)" "written y1 = written y" "\<not> recvClosed (rx (sess (host y1)))"
      "\<not> ctxDone (sess (host y1))" "\<forall>j < k. stored (sess (host y1)) (of_nat (written y1)) j"
    using can_fill [OF assms(1-4,6) order_refl] assms(5) by auto
  have inv: "pair_inv rs parity k mx (x, y1)"
    using steps_sent [OF y1(1) sent] by (simp add: pair_sent_def)
  obtain b where b: "rxBlocks (rx (sess (host y1))) (nextWriteGrp (rx (sess (host y1)))) = Some b" "rx_Decoded b"
    by (rule filled_decoded [OF inv y1(5)])
  obtain out where w: "write_step [] 0 (sess (host y1)) =
      Inr (write_finish 0 ((sess (host y1))\<lparr>tcpOut := tcpOut (sess (host y1)) @ out\<rparr>))"
    by (rule write_next [OF inv y1(4) b])
  let ?y = "observe (outcome (host y1) (write_step [] 0 (sess (host y1)))) y1"
  have "pair_step rs parity k mx (x, y1) (x, ?y)"
    by (intro pair_step.right life_step_from.background session_op_from.write_loop y1(3))
  from rtranclp.rtrancl_into_rtrancl [OF y1(1) this] show thesis
    using y1 by (intro that [of ?y]) (simp_all add: w observe_def outcome_def advance_def)
qed

lemma can_write_all:
  assumes "pair_sent rs parity k mx (x, y)" and "queue (shp (sess (host x))) = []" and "\<not> stopped (shp (sess (host x)))"
    and "\<not> recvClosed (rx (sess (host y)))" and "\<not> ctxDone (sess (host y))" and "written y \<le> length (hist x)"
  shows "\<exists>y'. steps rs parity k mx (x, y) (x, y') \<and> written y' = length (hist x) \<and> \<not> recvClosed (rx (sess (host y')))"
  using assms
proof (induction "length (hist x) - written y" arbitrary: y)
  case 0
  then show ?case by (intro exI [of _ y]) simp
next
  case (Suc m)
  then have "written y < length (hist x)" by simp
  with Suc.prems obtain y1 where y1: "steps rs parity k mx (x, y) (x, y1)" "written y1 = Suc (written y)"
      "\<not> recvClosed (rx (sess (host y1)))" "\<not> ctxDone (sess (host y1))"
    by (metis can_write)
  have "m = length (hist x) - written y1" "written y1 \<le> length (hist x)" using y1(2) Suc.hyps(2) by simp_all
  with Suc.hyps(1) [of y1] Suc.prems(2,3) y1(3,4) steps_sent [OF y1(1) Suc.prems(1)]
  obtain y2 where "steps rs parity k mx (x, y1) (x, y2)" "written y2 = length (hist x)" "\<not> recvClosed (rx (sess (host y2)))"
    by blast
  with rtranclp_trans [OF y1(1)] show ?case by blast
qed

section \<open>Delivery is always possible\<close>



end
