(* ===== verification/Net_Addr.thy ===== *)
theory Net_Addr
  imports PEP_Prelude
begin

text \<open>
  The parts of Go's \<^verbatim>\<open>net\<close>, \<^verbatim>\<open>net/netip\<close> and \<^verbatim>\<open>strconv\<close> packages that address handling uses:
  decimal printing, splitting and joining host and port, parsing and printing IPv4 and IPv6
  addresses, CIDR blocks and their membership test. Addresses are 4- or 16-byte lists, and
  every error is \<open>None\<close>, since the callers only test for it. The lemmas show that dotted
  addresses survive printing and parsing, and that membership compares the network prefix.
\<close>

section \<open>Decimal prefixes\<close>

text \<open>\<^verbatim>\<open>dtoi\<close>: the leading decimal digits, failing on none and on values of \<open>0xFFFFFF\<close> or more.\<close>

fun dtoi_loop :: "string \<Rightarrow> nat \<Rightarrow> (nat \<times> string) option" where
  "dtoi_loop [] n = Some (n, [])"
| "dtoi_loop (c # cs) n =
     (if is_digit c then
        let n' = n * 10 + digit_val c in if n' \<ge> 0xFFFFFF then None else dtoi_loop cs n'
      else Some (n, c # cs))"

definition dtoi :: "string \<Rightarrow> (nat \<times> string) option" where
  "dtoi s = (case s of [] \<Rightarrow> None | c # _ \<Rightarrow> if is_digit c then dtoi_loop s 0 else None)"

section \<open>Host and port\<close>

definition last_index :: "char \<Rightarrow> string \<Rightarrow> nat option" where
  "last_index c s =
     (if c \<in> set s then Some (length s - 1 - length (takeWhile (\<lambda>x. x \<noteq> c) (rev s))) else None)"

definition first_index :: "char \<Rightarrow> string \<Rightarrow> nat option" where
  "first_index c s = (if c \<in> set s then Some (length (takeWhile (\<lambda>x. x \<noteq> c) s)) else None)"

definition SplitHostPort :: "string \<Rightarrow> (string \<times> string) option" where
  "SplitHostPort hostport =
     (case last_index CHR '':'' hostport of
        None \<Rightarrow> None
      | Some i \<Rightarrow>
          let split = (\<lambda>host j k.
            if CHR ''['' \<in> set (drop j hostport) \<or> CHR '']'' \<in> set (drop k hostport) then None
            else Some (host, drop (i + 1) hostport))
          in
          if hostport ! 0 = CHR ''['' then
            (case first_index CHR '']'' hostport of
               None \<Rightarrow> None
             | Some e \<Rightarrow>
                 if e + 1 = i then split (take (e - 1) (drop 1 hostport)) 1 (e + 1) else None)
          else
            let host = take i hostport in
            if CHR '':'' \<in> set host then None else split host 0 0)"

definition JoinHostPort :: "string \<Rightarrow> string \<Rightarrow> string" where
  "JoinHostPort host port =
     (if CHR '':'' \<in> set host then ''['' @ host @ '']:'' @ port else host @ '':'' @ port)"

section \<open>Parsing addresses\<close>

text \<open>
  \<^verbatim>\<open>parseIPv4Fields\<close>, with the octets read so far, the value and number of digits of the
  current one, and whether a dot may follow here.
\<close>

fun parseIPv4Fields :: "string \<Rightarrow> bytes \<Rightarrow> nat \<Rightarrow> nat \<Rightarrow> bool \<Rightarrow> bytes option" where
  "parseIPv4Fields [] fields val digLen prevDigit =
     (if length fields < 3 then None else Some (fields @ [of_nat val]))"
| "parseIPv4Fields (c # cs) fields val digLen prevDigit =
     (if is_digit c then
        if digLen = 1 \<and> val = 0 then None
        else let val' = val * 10 + digit_val c in
          if val' > 255 then None else parseIPv4Fields cs fields val' (digLen + 1) True
      else if c = CHR ''.'' then
        if \<not> prevDigit \<or> cs = [] then None
        else if length fields = 3 then None
        else parseIPv4Fields cs (fields @ [of_nat val]) 0 0 False
      else None)"

definition hex_val :: "char \<Rightarrow> nat option" where
  "hex_val c = (let n = of_char c :: nat in
     if 48 \<le> n \<and> n \<le> 57 then Some (n - 48)
     else if 97 \<le> n \<and> n \<le> 102 then Some (n - 97 + 10)
     else if 65 \<le> n \<and> n \<le> 70 then Some (n - 65 + 10)
     else None)"

text \<open>
  One hexadecimal group: its value, the number of its digits and the rest of the input. A
  fifth digit fails, which leaves no value above 16 bits.
\<close>

fun hex_group :: "string \<Rightarrow> nat \<Rightarrow> nat \<Rightarrow> (nat \<times> nat \<times> string) option" where
  "hex_group [] acc off = Some (acc, off, [])"
| "hex_group (c # cs) acc off =
     (case hex_val c of
        None \<Rightarrow> Some (acc, off, c # cs)
      | Some d \<Rightarrow> if off > 3 then None
                   else let acc' = acc * 16 + d in
                     if acc' > 65535 then None else hex_group cs acc' (off + 1))"

definition u16_bytes :: "nat \<Rightarrow> bytes" where
  "u16_bytes n = [of_nat (n div 256), of_nat n]"

text \<open>
  The loop of \<^verbatim>\<open>parseIPv6\<close> over the groups. The fuel bounds the iterations; the source runs
  at most eight, as each one but the last adds two of the sixteen bytes. The result is the
  bytes read, the position of the ellipsis and the unread input.
\<close>

fun parseIPv6_loop ::
  "nat \<Rightarrow> string \<Rightarrow> bytes \<Rightarrow> nat option \<Rightarrow> (bytes \<times> nat option \<times> string) option" where
  "parseIPv6_loop 0 s ip ellipsis = Some (ip, ellipsis, s)"
| "parseIPv6_loop (Suc n) s ip ellipsis =
     (case hex_group s 0 0 of
        None \<Rightarrow> None
      | Some (acc, off, rest) \<Rightarrow>
          if off = 0 then None
          else if rest \<noteq> [] \<and> hd rest = CHR ''.'' then
            if ellipsis = None \<and> length ip \<noteq> 12 then None
            else if length ip + 4 > 16 then None
            else (case parseIPv4Fields s [] 0 0 False of
                    None \<Rightarrow> None | Some fs \<Rightarrow> Some (ip @ fs, ellipsis, []))
          else
            let ip' = ip @ u16_bytes acc in
            (case rest of
               [] \<Rightarrow> Some (ip', ellipsis, [])
             | [_] \<Rightarrow> None
             | c # d # cs \<Rightarrow>
                 if c \<noteq> CHR '':'' then None
                 else if d = CHR '':'' then
                   if ellipsis \<noteq> None then None
                   else if cs = [] then Some (ip', Some (length ip'), [])
                   else parseIPv6_loop n cs ip' (Some (length ip'))
                 else parseIPv6_loop n (d # cs) ip' ellipsis))"

text \<open>\<^verbatim>\<open>parseIPv6\<close> of an address and its zone; \<open>None\<close> as the zone means none was given.\<close>

definition parseIPv6 :: "string \<Rightarrow> (bytes \<times> string) option" where
  "parseIPv6 input =
     (let s0 = takeWhile (\<lambda>c. c \<noteq> CHR ''%'') input;
          zone = drop (length s0 + 1) input in
      if CHR ''%'' \<in> set input \<and> zone = [] then None
      else
        let lead = take 2 s0 = ''::'';
            s = (if lead then drop 2 s0 else s0) in
        if lead \<and> s = [] then Some (replicate 16 0, zone)
        else (case parseIPv6_loop 8 s [] (if lead then Some 0 else None) of
            None \<Rightarrow> None
          | Some (ip, ellipsis, rest) \<Rightarrow>
              if rest \<noteq> [] then None
              else if length ip < 16 then
                (case ellipsis of
                   None \<Rightarrow> None
                 | Some e \<Rightarrow> Some (take e ip @ replicate (16 - length ip) 0 @ drop e ip, zone))
              else if ellipsis \<noteq> None then None
              else Some (ip, zone)))"

datatype Addr = Addr4 bytes | Addr6 bytes string

definition ParseAddr :: "string \<Rightarrow> Addr option" where
  "ParseAddr s =
     (case dropWhile (\<lambda>c. c \<noteq> CHR ''.'' \<and> c \<noteq> CHR '':'' \<and> c \<noteq> CHR ''%'') s of
        [] \<Rightarrow> None
      | c # _ \<Rightarrow>
          if c = CHR ''.'' then map_option Addr4 (parseIPv4Fields s [] 0 0 False)
          else if c = CHR '':'' then map_option (\<lambda>(ip, z). Addr6 ip z) (parseIPv6 s)
          else None)"

definition v4InV6Prefix :: bytes where
  "v4InV6Prefix = replicate 10 0 @ [0xFF, 0xFF]"

definition Zone :: "Addr \<Rightarrow> string" where
  "Zone a = (case a of Addr4 _ \<Rightarrow> '''' | Addr6 _ z \<Rightarrow> z)"

definition As16 :: "Addr \<Rightarrow> bytes" where
  "As16 a = (case a of Addr4 b \<Rightarrow> v4InV6Prefix @ b | Addr6 b _ \<Rightarrow> b)"

definition BitLen :: "Addr \<Rightarrow> nat" where
  "BitLen a = (case a of Addr4 _ \<Rightarrow> 32 | Addr6 _ _ \<Rightarrow> 128)"

definition ParseIP :: "string \<Rightarrow> bytes option" where
  "ParseIP s = (case ParseAddr s of None \<Rightarrow> None | Some a \<Rightarrow> if Zone a \<noteq> '''' then None else Some (As16 a))"

definition To4 :: "bytes \<Rightarrow> bytes option" where
  "To4 ip = (if length ip = 4 then Some ip
     else if length ip = 16 \<and> take 12 ip = v4InV6Prefix then Some (drop 12 ip) else None)"

section \<open>Networks\<close>

record IPNet =
  net_IP :: bytes
  net_Mask :: bytes

fun CIDRMask :: "nat \<Rightarrow> nat \<Rightarrow> bytes" where
  "CIDRMask 0 n = []"
| "CIDRMask (Suc l) n =
     (if n \<ge> 8 then 0xFF # CIDRMask l (n - 8) else NOT (drop_bit n 0xFF) # CIDRMask l 0)"

definition and_bytes :: "bytes \<Rightarrow> bytes \<Rightarrow> bytes" where
  "and_bytes a b = map2 (AND) a b"

text \<open>\<^verbatim>\<open>IP.Mask\<close>; the empty list is its \<^verbatim>\<open>nil\<close>.\<close>

definition IP_Mask :: "bytes \<Rightarrow> bytes \<Rightarrow> bytes" where
  "IP_Mask ip m =
     (let m' = (if length m = 16 \<and> length ip = 4 \<and> take 12 m = replicate 12 0xFF
                then drop 12 m else m);
          ip' = (if length m' = 4 \<and> length ip = 16 \<and> take 12 ip = v4InV6Prefix
                 then drop 12 ip else ip)
      in if length ip' \<noteq> length m' then [] else and_bytes ip' m')"

definition ParseCIDR :: "string \<Rightarrow> IPNet option" where
  "ParseCIDR s =
     (if CHR ''/'' \<notin> set s then None
      else
        let addr = takeWhile (\<lambda>c. c \<noteq> CHR ''/'') s;
            maskStr = drop (length addr + 1) s
        in case ParseAddr addr of
             None \<Rightarrow> None
           | Some ipAddr \<Rightarrow>
               if Zone ipAddr \<noteq> '''' then None
               else (case dtoi maskStr of
                   None \<Rightarrow> None
                 | Some (n, rest) \<Rightarrow>
                     if rest \<noteq> [] \<or> n > BitLen ipAddr then None
                     else let m = CIDRMask (BitLen ipAddr div 8) n in
                       Some \<lparr>net_IP = IP_Mask (As16 ipAddr) m, net_Mask = m\<rparr>))"

definition networkNumberAndMask :: "IPNet \<Rightarrow> bytes \<times> bytes" where
  "networkNumberAndMask n =
     (case (case To4 (net_IP n) of Some ip \<Rightarrow> Some ip
            | None \<Rightarrow> if length (net_IP n) \<noteq> 16 then None else Some (net_IP n)) of
        None \<Rightarrow> ([], [])
      | Some ip \<Rightarrow>
          let m = net_Mask n in
          if length m = 4 then (if length ip \<noteq> 4 then ([], []) else (ip, m))
          else if length m = 16 then (ip, if length ip = 4 then drop 12 m else m)
          else ([], []))"

definition Contains :: "IPNet \<Rightarrow> bytes \<Rightarrow> bool" where
  "Contains n ip0 =
     (let (nn, m) = networkNumberAndMask n;
          ip = (case To4 ip0 of Some x \<Rightarrow> x | None \<Rightarrow> ip0)
      in length ip = length nn \<and> and_bytes nn m = and_bytes ip m)"

section \<open>Printing addresses\<close>

definition hex_char :: "nat \<Rightarrow> char" where
  "hex_char d = (if d < 10 then char_of (48 + d) else char_of (87 + d))"

fun appendHex :: "nat \<Rightarrow> string" where
  "appendHex n = (if n < 16 then [hex_char n] else appendHex (n div 16) @ [hex_char (n mod 16)])"

declare appendHex.simps [simp del]

definition v6u16 :: "bytes \<Rightarrow> nat \<Rightarrow> nat" where
  "v6u16 ip i = 256 * unat (ip ! (2 * i)) + unat (ip ! (2 * i + 1))"

fun zero_run :: "bytes \<Rightarrow> nat \<Rightarrow> nat \<Rightarrow> nat" where
  "zero_run ip 0 j = j"
| "zero_run ip (Suc n) j = (if j < 8 \<and> v6u16 ip j = 0 then zero_run ip n (j + 1) else j)"

text \<open>The longest run of at least two zero groups, the first one if there are several.\<close>

definition longest_zeros :: "bytes \<Rightarrow> nat \<times> nat" where
  "longest_zeros ip = fold (\<lambda>i (zs, ze). let j = zero_run ip (8 - i) i in
     if j - i \<ge> 2 \<and> j - i > ze - zs then (i, j) else (zs, ze)) [0..<8] (255, 255)"

function append_groups :: "bytes \<Rightarrow> nat \<Rightarrow> nat \<Rightarrow> nat \<Rightarrow> string" where
  "append_groups ip zs ze i =
     (if i \<ge> 8 then ''''
      else if i = zs then
        (if ze \<ge> 8 \<or> ze < i then ''::'' else ''::'' @ appendHex (v6u16 ip ze) @ append_groups ip zs ze (ze + 1))
      else (if i > 0 then '':'' else '''') @ appendHex (v6u16 ip i) @ append_groups ip zs ze (i + 1))"
  by pat_completeness auto
termination by (relation "measure (\<lambda>(ip, zs, ze, i). 8 - i)") auto

declare append_groups.simps [simp del]

definition dotted :: "bytes \<Rightarrow> string" where
  "dotted b = nat_dec (unat (b ! 0)) @ ''.'' @ nat_dec (unat (b ! 1)) @ ''.'' @ nat_dec (unat (b ! 2)) @ ''.''
     @ nat_dec (unat (b ! 3))"

text \<open>\<^verbatim>\<open>IP.String\<close>, for the 4- and 16-byte addresses the program prints.\<close>

definition IP_String :: "bytes \<Rightarrow> string" where
  "IP_String ip = (case To4 ip of Some b \<Rightarrow> dotted b
     | None \<Rightarrow> (case longest_zeros ip of (zs, ze) \<Rightarrow> append_groups ip zs ze 0))"

section \<open>Dotted addresses survive printing and parsing\<close>

lemma nat_dec_octet:
  assumes "n < 256"
  obtains a where "a < 10" "nat_dec n = [dec_digit a]" "n = a"
  | a b where "0 < a" "a < 10" "b < 10" "nat_dec n = [dec_digit a, dec_digit b]" "n = 10 * a + b"
  | a b c where "0 < a" "a < 10" "b < 10" "c < 10"
      "nat_dec n = [dec_digit a, dec_digit b, dec_digit c]" "n = 100 * a + 10 * b + c"
proof -
  consider "n < 10" | "10 \<le> n" "n < 100" | "100 \<le> n" by linarith
  then show thesis
  proof cases
    case 1
    then show thesis using that(1) by (simp add: nat_dec.simps)
  next
    case 2
    then have "n div 10 < 10" by (simp add: less_mult_imp_div_less)
    with 2 have "nat_dec n = [dec_digit (n div 10), dec_digit (n mod 10)]"
      by (simp add: nat_dec.simps [of n] nat_dec.simps [of "n div 10"])
    then show thesis using that(2) [of "n div 10" "n mod 10"] 2 by simp
  next
    case 3
    then have d: "n div 10 div 10 < 10" "0 < n div 10 div 10" "\<not> n div 10 < 10"
      using assms by (simp_all add: div_mult2_eq [symmetric] less_mult_imp_div_less div_greater_zero_iff)
    have "nat_dec (n div 10 div 10) = [dec_digit (n div 10 div 10)]"
      by (subst nat_dec.simps) (simp only: d if_True)
    moreover have "nat_dec (n div 10) = nat_dec (n div 10 div 10) @ [dec_digit (n div 10 mod 10)]"
      by (subst nat_dec.simps) (simp only: d if_False)
    moreover have "nat_dec n = nat_dec (n div 10) @ [dec_digit (n mod 10)]"
      by (subst nat_dec.simps) (use 3 in simp)
    ultimately have "nat_dec n = [dec_digit (n div 10 div 10), dec_digit (n div 10 mod 10), dec_digit (n mod 10)]"
      by (simp only: append.simps)
    moreover have "n = 100 * (n div 10 div 10) + 10 * (n div 10 mod 10) + n mod 10"
      using mult_div_mod_eq [of 10 n] mult_div_mod_eq [of 10 "n div 10"] by linarith
    ultimately show thesis by (intro that(3) [OF d(2,1)]) simp_all
  qed
qed

lemma parse_octet:
  assumes "n < 256"
  shows "parseIPv4Fields (nat_dec n @ cs) fs 0 0 False = parseIPv4Fields cs fs n (length (nat_dec n)) True"
  using assms
proof (cases rule: nat_dec_octet)
  case (1 a)
  then show ?thesis by simp
next
  case (2 a b)
  then show ?thesis by (simp add: mult.commute)
next
  case (3 a b c)
  with assms show ?thesis by (simp add: algebra_simps)
qed

lemma digit_not_special [simp]: "\<not> is_digit CHR ''.''" "\<not> is_digit CHR '':''" "\<not> is_digit CHR ''%''"
  "\<not> is_digit CHR ''[''" "\<not> is_digit CHR '']''" "\<not> is_digit CHR ''/''"
  by (simp_all add: is_digit_def)

lemma parse_dotted:
  assumes "length b = 4"
  shows "parseIPv4Fields (dotted b) [] 0 0 False = Some b"
proof -
  obtain w x y z where b: "b = [w, x, y, z]"
    using assms by (auto simp: numeral_eq_Suc length_Suc_conv)
  note p = parse_octet [OF unat_u8_less]
  have "parseIPv4Fields (dotted b) [] 0 0 False = Some [w, x, y, z]"
    using p [of z "[]"] by (simp add: b dotted_def p nat_dec_nonempty)
  then show ?thesis by (simp add: b)
qed

lemma dotted_chars: "c \<in> set (dotted b) \<Longrightarrow> is_digit c \<or> c = CHR ''.''"
  by (auto simp: dotted_def dest: nat_dec_digits)

lemma ParseAddr_dotted:
  assumes "length b = 4"
  shows "ParseAddr (dotted b) = Some (Addr4 b)"
proof -
  have "dropWhile (\<lambda>c. c \<noteq> CHR ''.'' \<and> c \<noteq> CHR '':'' \<and> c \<noteq> CHR ''%'') (nat_dec n @ CHR ''.'' # cs)
      = CHR ''.'' # cs" for n cs
    by (subst dropWhile_append2) (auto dest!: nat_dec_digits)
  then have "\<exists>cs. dropWhile (\<lambda>c. c \<noteq> CHR ''.'' \<and> c \<noteq> CHR '':'' \<and> c \<noteq> CHR ''%'') (dotted b) = CHR ''.'' # cs"
    by (simp add: dotted_def)
  then show ?thesis
    using parse_dotted [OF assms] by (auto simp: ParseAddr_def)
qed

lemma ParseIP_dotted: "length b = 4 \<Longrightarrow> ParseIP (dotted b) = Some (v4InV6Prefix @ b)"
  by (simp add: ParseIP_def ParseAddr_dotted Zone_def As16_def)

lemma last_index_app: "c \<notin> set port \<Longrightarrow> last_index c (host @ c # port) = Some (length host)"
proof -
  assume "c \<notin> set port"
  then have "takeWhile (\<lambda>x. x \<noteq> c) (rev port @ c # rev host) = rev port"
    by (subst takeWhile_append2) auto
  then show ?thesis by (simp add: last_index_def)
qed

lemma SplitHostPort_dotted:
  "SplitHostPort (dotted b @ '':'' @ nat_dec p) = Some (dotted b, nat_dec p)"
proof -
  have n: "CHR '':'' \<notin> set (nat_dec p)" "CHR ''['' \<notin> set (nat_dec p)" "CHR '']'' \<notin> set (nat_dec p)"
    by (auto dest: nat_dec_digits)
  have d: "CHR '':'' \<notin> set (dotted b)" "CHR ''['' \<notin> set (dotted b)" "CHR '']'' \<notin> set (dotted b)"
    by (auto dest!: dotted_chars)
  have "dotted b \<noteq> []" by (simp add: dotted_def)
  then have "hd (dotted b @ '':'' @ nat_dec p) \<in> set (dotted b)" by simp
  then have h: "(dotted b @ '':'' @ nat_dec p) ! 0 \<noteq> CHR ''[''"
    using d(2) \<open>dotted b \<noteq> []\<close> by (auto simp: hd_conv_nth)
  show ?thesis
    using last_index_app [OF n(1), of "dotted b"] h d n
    by (simp add: SplitHostPort_def Let_def)
qed

section \<open>Membership compares the prefix\<close>

text \<open>Bit \<open>i\<close> of an address, counted from the most significant one of the first byte.\<close>

definition ip_bit :: "bytes \<Rightarrow> nat \<Rightarrow> bool" where
  "ip_bit ip i = bit (ip ! (i div 8)) (7 - i mod 8)"

lemma len8: "LENGTH(8) = 8"
  by simp

lemma bit_FF: "bit (0xFF :: u8) j \<longleftrightarrow> j < 8"
  using bit_mask_iff [where ?'a = u8, of 8 j] by (simp add: mask_eq_exp_minus_1)

lemma and_FF: "z AND 0xFF = (z :: u8)"
  by (rule bit_word_eqI) (simp only: bit_and_iff bit_FF len8 simp_thms)

lemma masked_byte:
  fixes x y :: u8
  assumes "n < 8"
  shows "x AND NOT (drop_bit n 0xFF) = y AND NOT (drop_bit n 0xFF)
     \<longleftrightarrow> (\<forall>i < n. bit x (7 - i) = bit y (7 - i))"
proof -
  obtain f :: u8 where f: "f = 0xFF" by blast
  then have ff: "bit f j \<longleftrightarrow> j < 8" for j
    by (simp only: bit_FF)
  have m: "bit (z AND NOT (drop_bit n f)) j \<longleftrightarrow> bit z j \<and> 8 \<le> j + n" if "j < 8" for z :: u8 and j
    using that by (auto simp: bit_and_iff bit_not_iff bit_drop_bit_eq ff)
  have "x AND NOT (drop_bit n 0xFF) = y AND NOT (drop_bit n 0xFF)
      \<longleftrightarrow> (\<forall>j < 8. bit (x AND NOT (drop_bit n f)) j = bit (y AND NOT (drop_bit n f)) j)"
    unfolding f by (metis bit_word_eqI len8)
  also have "\<dots> \<longleftrightarrow> (\<forall>j < 8. 8 \<le> j + n \<longrightarrow> bit x j = bit y j)"
    by (auto simp only: m)
  also have "\<dots> \<longleftrightarrow> (\<forall>i < n. bit x (7 - i) = bit y (7 - i))"
  proof safe
    fix i assume "\<forall>j < 8. 8 \<le> j + n \<longrightarrow> bit x j = bit y j" "i < n" 
    then show "bit x (7 - i) \<Longrightarrow> bit y (7 - i)" "bit y (7 - i) \<Longrightarrow> bit x (7 - i)"
      using assms by auto
  next
    fix j assume "\<forall>i < n. bit x (7 - i) = bit y (7 - i)" "8 \<le> j + n" "j < 8"
    moreover from this(2,3) have "7 - j < n" "7 - (7 - j) = j" by linarith+
    ultimately show "bit x j \<Longrightarrow> bit y j" "bit y j \<Longrightarrow> bit x j" by metis+
  qed
  finally show ?thesis .
qed

lemma length_CIDRMask [simp]: "length (CIDRMask l n) = l"
  by (induction l n rule: CIDRMask.induct) simp_all

lemma length_and_bytes [simp]: "length (and_bytes a b) = min (length a) (length b)"
  by (simp add: and_bytes_def)

lemma and_bytes_simps [simp]:
  "and_bytes [] m = []" "and_bytes a [] = []" "and_bytes (x # a) (y # m) = (x AND y) # and_bytes a m"
  by (simp_all add: and_bytes_def)

lemma and_bytes_idem [simp]: "and_bytes (and_bytes a m) m = and_bytes a m"
proof (induction a arbitrary: m)
  case (Cons x a)
  then show ?case by (cases m) (simp_all add: and.assoc)
qed simp

lemma ip_bit_Cons:
  "i < 8 \<Longrightarrow> ip_bit (x # xs) i = bit x (7 - i)" "8 \<le> i \<Longrightarrow> ip_bit (x # xs) i = ip_bit xs (i - 8)"
  by (auto simp: ip_bit_def nth_Cons' le_div_geq le_mod_geq)

lemma byte_eq_bits: "a = b \<longleftrightarrow> (\<forall>i < 8. bit a (7 - i) = bit (b :: u8) (7 - i))"
proof
  assume r: "\<forall>i < 8. bit a (7 - i) = bit b (7 - i)"
  show "a = b"
  proof (rule bit_word_eqI)
    fix i assume "i < LENGTH(8)"
    then have "7 - i < 8" "7 - (7 - i) = i" by simp_all
    with r show "bit a i = bit b i" by metis
  qed
qed simp

lemma ip_bits_Cons:
  assumes "8 \<le> n"
  shows "(\<forall>i < n. ip_bit (a # x) i = ip_bit (b # y) i) \<longleftrightarrow> a = b \<and> (\<forall>i < n - 8. ip_bit x i = ip_bit y i)"
  (is "?l \<longleftrightarrow> _ \<and> ?r")
proof
  assume l: ?l
  have "bit a (7 - i) = bit b (7 - i)" if "i < 8" for i
    using l [rule_format, of i] that assms by (simp add: ip_bit_Cons)
  moreover have "ip_bit x i = ip_bit y i" if "i < n - 8" for i
    using l [rule_format, of "i + 8"] that by (simp add: ip_bit_Cons)
  ultimately show "a = b \<and> ?r" by (simp add: byte_eq_bits)
next
  assume r: "a = b \<and> ?r"
  have "ip_bit (a # x) i = ip_bit (b # y) i" if "i < n" for i
    using r that by (cases "i < 8") (simp_all add: ip_bit_Cons)
  then show ?l by blast
qed

text \<open>Two addresses agree under a mask exactly when they agree on the bits it covers.\<close>

lemma masked_eq:
  assumes "length x = l" and "length y = l" and "n \<le> 8 * l"
  shows "and_bytes x (CIDRMask l n) = and_bytes y (CIDRMask l n) \<longleftrightarrow> (\<forall>i < n. ip_bit x i = ip_bit y i)"
  using assms
proof (induction l n arbitrary: x y rule: CIDRMask.induct)
  case (2 l n)
  then obtain a x' b y' where xy: "x = a # x'" "y = b # y'" "length x' = l" "length y' = l"
    by (auto simp: length_Suc_conv)
  show ?case
  proof (cases "8 \<le> n")
    case True
    then show ?thesis
      using 2(1) [OF True xy(3,4)] 2(5) ip_bits_Cons [OF True] by (simp add: xy(1,2) and_FF)
  next
    case False
    then have "(\<forall>i < n. ip_bit x i = ip_bit y i) \<longleftrightarrow> (\<forall>i < n. bit a (7 - i) = bit b (7 - i))"
      by (simp add: xy(1,2) ip_bit_Cons)
    then show ?thesis
      using 2(2) [OF False xy(3,4)] masked_byte [of n a b] False by (simp add: xy(1,2))
  qed
qed simp

lemma To4_mapped [simp]: "length b = 4 \<Longrightarrow> To4 (v4InV6Prefix @ b) = Some b"
  by (simp add: To4_def v4InV6Prefix_def)

text \<open>An IPv4 block holds the addresses that agree with it on its prefix.\<close>

definition cidr4 :: "bytes \<Rightarrow> nat \<Rightarrow> IPNet" where
  "cidr4 a n = \<lparr>net_IP = and_bytes a (CIDRMask 4 n), net_Mask = CIDRMask 4 n\<rparr>"

lemma Contains_cidr4:
  assumes "length a = 4" and "n \<le> 32"
  shows "Contains (cidr4 a n) ip \<longleftrightarrow> (\<exists>x. To4 ip = Some x \<and> (\<forall>i < n. ip_bit a i = ip_bit x i))"
proof -
  have t: "To4 (and_bytes a (CIDRMask 4 n)) = Some (and_bytes a (CIDRMask 4 n))"
    using assms by (simp add: To4_def)
  have l: "length x = 4" if "To4 ip = Some x" for x
    using that by (auto simp: To4_def split: if_splits)
  have "length ip \<noteq> 4" if "To4 ip = None"
    using that by (auto simp: To4_def split: if_splits)
  then show ?thesis
    using assms t l masked_eq [OF assms(1), of _ n]
    by (auto simp: Contains_def networkNumberAndMask_def cidr4_def Let_def split: option.splits)
qed

lemma dtoi_nat_dec: "n < 256 \<Longrightarrow> dtoi (nat_dec n) = Some (n, [])"
  by (erule nat_dec_octet) (simp_all add: dtoi_def)

text \<open>Parsing the usual notation of such a block.\<close>

lemma ParseCIDR_dotted:
  assumes "length a = 4" and "n \<le> 32"
  shows "ParseCIDR (dotted a @ ''/'' @ nat_dec n) = Some (cidr4 a n)"
proof -
  have "CHR ''/'' \<notin> set (dotted a)" by (auto dest: dotted_chars)
  then have "takeWhile (\<lambda>c. c \<noteq> CHR ''/'') (dotted a @ CHR ''/'' # nat_dec n) = dotted a"
    by (subst takeWhile_append2) auto
  moreover have "IP_Mask (v4InV6Prefix @ a) (CIDRMask 4 n) = and_bytes a (CIDRMask 4 n)"
    using assms by (simp add: IP_Mask_def v4InV6Prefix_def)
  ultimately show ?thesis
    using assms
    by (simp add: ParseCIDR_def ParseAddr_dotted dtoi_nat_dec Zone_def BitLen_def As16_def cidr4_def Let_def)
qed

end
