(* ===== verification/Daemon.thy ===== *)
theory Daemon
  imports Session
begin

text \<open>
  What the client and the server daemon of \<^verbatim>\<open>proxy/client.go\<close> and \<^verbatim>\<open>proxy/server.go\<close> share: the
  table of sessions by stream ID, the dispatch of a decoded packet to a session, the periodic
  cleanup and the closing of all sessions. Both programs contain these pieces as identical
  code. Sessions are shared between the table and their goroutines, so the table holds
  pointers, which are indices into the list of session lives. The lemmas show that every
  daemon action on a session is a run of that session's own machine, so everything proved of
  a session holds in a daemon.
\<close>

section \<open>Sockets and loops\<close>

datatype socket = NoSocket | OpenSocket | ClosedSocket

definition close_socket :: "socket \<Rightarrow> socket" where
  "close_socket s = (if s = NoSocket then NoSocket else ClosedSocket)"

text \<open>The control point of a loop that runs until the daemon stops.\<close>

datatype loop_pc = Looping | LoopReturned

section \<open>Sessions as shared objects\<close>

type_synonym session_table = "u16 \<rightharpoonup> nat"

definition upd_obj :: "nat \<Rightarrow> ('enc life \<Rightarrow> 'enc life) \<Rightarrow> 'enc life list \<Rightarrow> 'enc life list" where
  "upd_obj i f objs = objs[i := f (objs ! i)]"

definition close_life :: "'enc life \<Rightarrow> 'enc life" where
  "close_life l = l\<lparr>sess := Close (sess l)\<rparr>"

text \<open>Cancelling the daemon's context cancels the contexts derived from it.\<close>

definition cancel_life :: "'enc life \<Rightarrow> 'enc life" where
  "cancel_life l = l\<lparr>sess := (sess l)\<lparr>ctxDone := True\<rparr>\<rparr>"

text \<open>The beginning of \<^verbatim>\<open>Start\<close>; the set-up of the first block is a step of the session.\<close>

definition launch_life :: "'enc life \<Rightarrow> 'enc life" where
  "launch_life l = l\<lparr>rpc := Reading, block0 := True\<rparr>"

text \<open>A new session whose context derives from one that may be cancelled already.\<close>

definition new_life :: "bool \<Rightarrow> 'enc Session \<Rightarrow> 'enc life" where
  "new_life c s = (if c then cancel_life (life_start s) else life_start s)"

section \<open>Dispatch\<close>

text \<open>
  A packet of \<open>n\<close> bytes for a known stream. The deletion of the table entry after a RESET is
  left to the daemon.
\<close>

definition dispatch ::
  "('enc, 'e) reedsolomon \<Rightarrow> int \<Rightarrow> nat \<Rightarrow> Packet \<Rightarrow> 'enc life \<Rightarrow> 'enc life" where
  "dispatch rs now n pkt l0 =
     (let l = l0\<lparr>sess := RecordRx (of_nat n) (sess l0)\<rparr> in
      if pType pkt = TypeData then outcome l (HandleDataPacket rs now pkt (sess l))
      else if pType pkt = TypeNak then l\<lparr>sess := HandleNak now pkt (sess l)\<rparr>
      else if pType pkt = TypeLqr then l\<lparr>sess := HandleLQR now pkt (sess l)\<rparr>
      else if pType pkt = TypeClose then l\<lparr>sess := HandleClose (sess l)\<rparr>
      else if pType pkt = TypeReset then close_life l
      else l)"

section \<open>Cleanup\<close>

text \<open>
  Loops over a Go map visit its keys in an unspecified order; the order taken is an argument.
\<close>

definition expired :: "int \<Rightarrow> int \<Rightarrow> 'enc life \<Rightarrow> bool" where
  "expired now idleTimeout l \<longleftrightarrow> IsClosed (sess l) \<or> now - GetLastActive (sess l) > idleTimeout"

definition cleanup_one ::
  "int \<Rightarrow> int \<Rightarrow> u16 \<Rightarrow> session_table \<times> 'enc life list \<Rightarrow> session_table \<times> 'enc life list" where
  "cleanup_one now idleTimeout sid t =
     (case t of (sessions, objs) \<Rightarrow>
        (case sessions sid of
           None \<Rightarrow> (sessions, objs)
         | Some i \<Rightarrow>
             if expired now idleTimeout (objs ! i)
             then (sessions(sid := None), upd_obj i close_life objs) else (sessions, objs)))"

definition cleanup ::
  "int \<Rightarrow> int \<Rightarrow> u16 list \<Rightarrow> session_table \<times> 'enc life list \<Rightarrow> session_table \<times> 'enc life list" where
  "cleanup now idleTimeout ids t = fold (cleanup_one now idleTimeout) ids t"

definition close_all :: "session_table \<Rightarrow> u16 list \<Rightarrow> 'enc life list \<Rightarrow> 'enc life list" where
  "close_all sessions ids objs =
     fold (\<lambda>sid objs. case sessions sid of None \<Rightarrow> objs | Some i \<Rightarrow> upd_obj i close_life objs) ids objs"

section \<open>Snapshots\<close>

text \<open>\<^verbatim>\<open>GetSessions\<close>: the table as a map to the sessions themselves.\<close>

definition snapshot :: "session_table \<Rightarrow> 'enc life list \<Rightarrow> (u16 \<rightharpoonup> 'enc Session)" where
  "snapshot sessions objs = (\<lambda>sid. map_option (\<lambda>i. sess (objs ! i)) (sessions sid))"

section \<open>Daemon actions are session runs\<close>

text \<open>
  A session as a daemon keeps it: reachable in its own machine, with the demultiplexer
  outside \<^verbatim>\<open>HandleClose\<close>.
\<close>

definition good_life ::
  "('enc, 'e) reedsolomon \<Rightarrow> nat \<Rightarrow> nat \<Rightarrow> (bytes list \<Rightarrow> bytes list) \<Rightarrow> 'enc life \<Rightarrow> bool" where
  "good_life rs k mx parity l \<longleftrightarrow>
     reach (life_init rs k mx parity) (life_step rs) l \<and> hpc l = HandlerIdle"

lemma good_lifeD:
  assumes "good_life rs k mx parity l"
  shows "reach (life_init rs k mx parity) (life_step rs) l" "hpc l = HandlerIdle"
  using assms by (simp_all add: good_life_def)

lemma good_life_step:
  "good_life rs k mx parity l \<Longrightarrow> life_step rs l l' \<Longrightarrow> hpc l' = HandlerIdle \<Longrightarrow> good_life rs k mx parity l'"
  unfolding good_life_def by (blast intro: reach_step)

lemma good_life_op:
  assumes "good_life rs k mx parity l" and "session_op rs (sess l) r"
  shows "good_life rs k mx parity (outcome l r)"
  using assms(1) life_step_from.background [OF assms(2)]
  by (rule good_life_step) (simp add: good_lifeD(2) [OF assms(1)])

lemma good_close_life: "good_life rs k mx parity l \<Longrightarrow> good_life rs k mx parity (close_life l)"
  using good_life_op [OF _ session_op_from.external_close] by (simp add: close_life_def outcome_def)

lemma good_cancel_life: "good_life rs k mx parity l \<Longrightarrow> good_life rs k mx parity (cancel_life l)"
  using good_life_op [OF _ session_op_from.parent_cancel] by (simp add: cancel_life_def outcome_def)

lemma good_launch_life:
  "good_life rs k mx parity l \<Longrightarrow> rpc l = Unlaunched \<Longrightarrow> good_life rs k mx parity (launch_life l)"
  unfolding launch_life_def by (rule good_life_step, assumption, erule life_step_from.launch) (simp add: good_life_def)

lemma good_new_life:
  assumes "rs_family rs k mx parity" and "0 < k" and "36 < mtu"
    and "s = NewSession now streamID isServer mtu bandwidth (int k) (int mx)"
  shows "good_life rs k mx parity (new_life c s)"
proof -
  have "life_init rs k mx parity (life_start s)"
    unfolding life_init_def assms(4) using assms(1-3) by blast
  then have "good_life rs k mx parity (life_start s)"
    using reach_init [of "life_init rs k mx parity"] by (auto simp: good_life_def life_start_def)
  then show ?thesis by (simp add: new_life_def good_cancel_life)
qed

lemma good_HandleClose:
  assumes "good_life rs k mx parity l"
  shows "good_life rs k mx parity (l\<lparr>sess := HandleClose (sess l)\<rparr>)"
proof -
  let ?R = "reach (life_init rs k mx parity) (life_step rs)"
  note l = good_lifeD [OF assms]
  obtain s both where m: "mark_closeRecv (sess l) = (s, both)" by fastforce
  have r: "?R (l\<lparr>sess := s, hpc := (if both then HandlerCloses else HandlerIdle)\<rparr>)"
    by (rule reach_step [OF l(1) life_step_from.handle_close [OF l(2) m]])
  show ?thesis
  proof (cases both)
    case True
    let ?l = "l\<lparr>sess := s, hpc := HandlerCloses\<rparr>"
    have "?R (?l\<lparr>sess := Close (sess ?l), hpc := HandlerIdle\<rparr>)"
      by (rule reach_step [of "life_init rs k mx parity" "life_step rs" ?l])
        (use r True in simp, rule life_step_from.handler_closes, simp)
    moreover have "?l\<lparr>sess := Close (sess ?l), hpc := HandlerIdle\<rparr> = l\<lparr>sess := HandleClose (sess l)\<rparr>"
      using m True l(2) by (simp add: HandleClose_def)
    ultimately show ?thesis using l(2) by (simp add: good_life_def)
  next
    case False
    then have "l\<lparr>sess := s, hpc := (if both then HandlerCloses else HandlerIdle)\<rparr>
        = l\<lparr>sess := HandleClose (sess l)\<rparr>"
      using m l(2) by (simp add: HandleClose_def)
    with r l(2) show ?thesis by (simp add: good_life_def)
  qed
qed

lemma good_dispatch:
  assumes "good_life rs k mx parity l" and "pType pkt = TypeData \<Longrightarrow> pPayload pkt \<noteq> None"
  shows "good_life rs k mx parity (dispatch rs now n pkt l)"
proof -
  let ?l = "l\<lparr>sess := RecordRx (of_nat n) (sess l)\<rparr>"
  have g: "good_life rs k mx parity ?l"
    using good_life_op [OF assms(1) session_op_from.record_rx] by (simp add: outcome_def)
  have "good_life rs k mx parity (outcome ?l (HandleDataPacket rs now pkt (sess ?l)))" if "pType pkt = TypeData"
  proof -
    from assms(2) [OF that] obtain q where "pPayload pkt = Some q" by blast
    from good_life_op [OF g session_op_from.data [OF TrueI this]] show ?thesis .
  qed
  moreover have "good_life rs k mx parity (?l\<lparr>sess := HandleNak now pkt (sess ?l)\<rparr>)"
    using good_life_op [OF g session_op_from.nak] by (simp add: outcome_def)
  moreover have "good_life rs k mx parity (?l\<lparr>sess := HandleLQR now pkt (sess ?l)\<rparr>)"
    using good_life_op [OF g session_op_from.lqr] by (simp add: outcome_def)
  moreover note good_HandleClose [OF g] good_close_life [OF g] g
  ultimately show ?thesis by (simp add: dispatch_def Let_def)
qed

lemma Unmarshal_payload: "Unmarshal buf = Inr p \<Longrightarrow> pType p = TypeData \<Longrightarrow> pPayload p \<noteq> None"
proof -
  assume "Unmarshal buf = Inr p" and t: "pType p = TypeData"
  then have "pPayload p = pPayload (wire_view p)" by (simp add: Unmarshal_view)
  also have "\<dots> \<noteq> None" using t by (simp add: wire_view_def packet_types)
  finally show ?thesis .
qed

section \<open>What daemon actions keep of a session's parameters\<close>

lemma life_par [simp]:
  "par (sess (close_life l)) = par (sess l)"
  "par (sess (cancel_life l)) = par (sess l)"
  "par (sess (launch_life l)) = par (sess l)"
  "par (sess (new_life c s)) = par s"
  by (simp_all add: close_life_def cancel_life_def launch_life_def new_life_def life_start_def Close_def)

lemma dispatch_par [simp]: "par (sess (dispatch rs now n pkt l)) = par (sess l)"
proof -
  let ?s = "RecordRx (of_nat n) (sess l)"
  have "par (sess (outcome (l\<lparr>sess := ?s\<rparr>) (HandleDataPacket rs now pkt ?s))) = par (sess l)"
    by (cases "HandleDataPacket rs now pkt ?s")
      (auto simp: outcome_def keeps_def RecordRx_def dest!: HandleDataPacket_keeps)
  then show ?thesis
    using HandleLQR_keeps [of ?s now pkt] HandleNak_keeps [of ?s now pkt]
    by (auto simp: dispatch_def Let_def keeps_def RecordRx_def HandleClose_def mark_closeRecv_def Close_def)
qed

section \<open>Tables of good sessions\<close>

definition table_ok ::
  "(SessionParams \<Rightarrow> bool) \<Rightarrow> ('enc, 'e) reedsolomon \<Rightarrow> nat \<Rightarrow> nat \<Rightarrow> (bytes list \<Rightarrow> bytes list)
     \<Rightarrow> session_table \<Rightarrow> 'enc life list \<Rightarrow> bool" where
  "table_ok P rs k mx parity sessions objs \<longleftrightarrow>
     (\<forall>l \<in> set objs. good_life rs k mx parity l \<and> P (par (sess l)))
     \<and> (\<forall>sid i. sessions sid = Some i \<longrightarrow> i < length objs \<and> StreamID (par (sess (objs ! i))) = sid)"

lemma table_okD:
  assumes "table_ok P rs k mx parity sessions objs"
  shows "i < length objs \<Longrightarrow> good_life rs k mx parity (objs ! i)"
    and "i < length objs \<Longrightarrow> P (par (sess (objs ! i)))"
    and "sessions sid = Some i \<Longrightarrow> i < length objs"
    and "sessions sid = Some i \<Longrightarrow> StreamID (par (sess (objs ! i))) = sid"
  using assms by (auto simp: table_ok_def)

lemma length_upd_obj [simp]: "length (upd_obj i f objs) = length objs"
  by (simp add: upd_obj_def)

lemma table_ok_upd:
  assumes t: "table_ok P rs k mx parity sessions objs" and i: "i < length objs"
    and f: "good_life rs k mx parity (f (objs ! i))" "par (sess (f (objs ! i))) = par (sess (objs ! i))"
  shows "table_ok P rs k mx parity sessions (upd_obj i f objs)"
proof -
  have "good_life rs k mx parity l \<and> P (par (sess l))" if "l \<in> set (upd_obj i f objs)" for l
    using set_update_subset_insert [of objs i "f (objs ! i)"] that f table_okD(2) [OF t i] t
    by (auto simp: upd_obj_def table_ok_def)
  moreover have "StreamID (par (sess (upd_obj i f objs ! j))) = StreamID (par (sess (objs ! j)))" for j
    using f(2) i by (cases "j = i") (simp_all add: upd_obj_def)
  ultimately show ?thesis
    using t by (simp add: table_ok_def length_upd_obj)
qed

lemma table_ok_delete: "table_ok P rs k mx parity sessions objs \<Longrightarrow>
    table_ok P rs k mx parity (sessions(sid := None)) objs"
  by (simp add: table_ok_def)

lemma table_ok_empty_table: "table_ok P rs k mx parity sessions objs \<Longrightarrow>
    table_ok P rs k mx parity Map.empty objs"
  by (simp add: table_ok_def)

lemma table_ok_add:
  assumes "table_ok P rs k mx parity sessions objs" and "good_life rs k mx parity l" and "P (par (sess l))"
    and "StreamID (par (sess l)) = sid"
  shows "table_ok P rs k mx parity (sessions(sid \<mapsto> length objs)) (objs @ [l])"
  using assms by (auto simp: table_ok_def nth_append less_SucI)

lemma table_ok_map:
  assumes "table_ok P rs k mx parity sessions objs"
    and "\<And>l. good_life rs k mx parity l \<Longrightarrow> good_life rs k mx parity (f l)"
    and "\<And>l. par (sess (f l)) = par (sess l)"
  shows "table_ok P rs k mx parity sessions (map f objs)"
  using assms by (auto simp: table_ok_def)

lemma table_ok_close: "table_ok P rs k mx parity sessions objs \<Longrightarrow> i < length objs \<Longrightarrow>
    table_ok P rs k mx parity sessions (upd_obj i close_life objs)"
  by (rule table_ok_upd) (auto intro: good_close_life table_okD(1))

lemma table_ok_cleanup:
  "table_ok P rs k mx parity (fst t) (snd t) \<Longrightarrow> cleanup now idle ids t = t' \<Longrightarrow>
     table_ok P rs k mx parity (fst t') (snd t') \<and> fst t' \<subseteq>\<^sub>m fst t \<and> length (snd t') = length (snd t)"
proof (induction ids arbitrary: t)
  case (Cons sid ids)
  let ?t = "cleanup_one now idle sid t"
  have "table_ok P rs k mx parity (fst ?t) (snd ?t) \<and> fst ?t \<subseteq>\<^sub>m fst t \<and> length (snd ?t) = length (snd t)"
    using Cons.prems(1) table_okD(3) [OF Cons.prems(1)]
    by (auto simp: cleanup_one_def map_le_def intro!: table_ok_delete table_ok_close
        split: prod.splits option.splits if_splits)
  moreover have "cleanup now idle ids ?t = t'"
    using Cons.prems(2) by (simp add: cleanup_def)
  ultimately show ?case
    using Cons.IH [of ?t] by (auto intro: map_le_trans)
qed (simp add: cleanup_def)

lemma table_ok_close_all:
  "table_ok P rs k mx parity sessions objs \<Longrightarrow> table_ok P rs k mx parity sessions (close_all sessions ids objs)"
proof (induction ids arbitrary: objs)
  case (Cons sid ids)
  then show ?case
    using table_okD(3) [OF Cons.prems]
    by (cases "sessions sid") (auto simp: close_all_def intro: table_ok_close)
qed (simp add: close_all_def)

section \<open>Sessions not yet launched\<close>

lemma map_le_empty_iff: "m \<subseteq>\<^sub>m Map.empty \<longleftrightarrow> m = Map.empty"
  by (auto intro: map_le_antisym)

definition unlaunched :: "'enc life list \<Rightarrow> nat \<Rightarrow> bool" where
  "unlaunched objs i \<longleftrightarrow> i < length objs \<and> rpc (objs ! i) = Unlaunched"

lemma unlaunched_upd:
  "(\<And>l. rpc (f l) = rpc l) \<Longrightarrow> unlaunched (upd_obj i f objs) j = unlaunched objs j"
  by (cases "i = j"; cases "i < length objs") (auto simp: unlaunched_def upd_obj_def)

lemma life_rpc [simp]:
  "rpc (close_life l) = rpc l" "rpc (cancel_life l) = rpc l" "rpc (dispatch rs now n pkt l) = rpc l"
  "rpc (new_life b s) = Unlaunched"
  by (simp_all add: close_life_def cancel_life_def dispatch_def Let_def new_life_def life_start_def)

lemma unlaunched_cleanup:
  "cleanup now idle ids t = t' \<Longrightarrow> unlaunched (snd t') j = unlaunched (snd t) j"
proof (induction ids arbitrary: t)
  case (Cons sid ids)
  have "unlaunched (snd (cleanup_one now idle sid t)) j = unlaunched (snd t) j"
    by (auto simp: cleanup_one_def unlaunched_upd split: prod.splits option.splits)
  then show ?case using Cons by (simp add: cleanup_def)
qed (simp add: cleanup_def)

lemma unlaunched_close_all: "unlaunched (close_all sessions ids objs) j = unlaunched objs j"
proof (induction ids arbitrary: objs)
  case (Cons sid ids)
  then show ?case by (cases "sessions sid") (simp_all add: close_all_def unlaunched_upd)
qed (simp add: close_all_def)

text \<open>
  Handlers that are about to launch a session: no two launch the same one.
\<close>

definition once :: "('p \<Rightarrow> nat option) \<Rightarrow> 'p list \<Rightarrow> bool" where
  "once f ps \<longleftrightarrow>
     (\<forall>a b i. a < length ps \<longrightarrow> b < length ps \<longrightarrow> f (ps ! a) = Some i \<longrightarrow> f (ps ! b) = Some i \<longrightarrow> a = b)"

lemma once_upd:
  assumes "once f ps" and "\<And>i q. f p = Some i \<Longrightarrow> q \<in> set ps \<Longrightarrow> f q \<noteq> Some i"
  shows "once f (ps[a := p])"
proof -
  have "x = y" if "x < length ps" "y < length ps" "f (ps[a := p] ! x) = Some i" "f (ps[a := p] ! y) = Some i" for x y i
  proof (cases "f p = Some i")
    case True
    then have "f (ps ! z) \<noteq> Some i" if "z < length ps" for z
      using assms(2) that by (metis nth_mem)
    with that show ?thesis by (metis nth_list_update_neq)
  next
    case False
    then have "f (ps ! z) = Some i" if "f (ps[a := p] ! z) = Some i" "z < length ps" for z
      using that by (metis nth_list_update_eq nth_list_update_neq)
    with assms(1) that show ?thesis unfolding once_def by metis
  qed
  then show ?thesis by (simp add: once_def)
qed

lemma once_append: "once f ps \<Longrightarrow> f p = None \<Longrightarrow> once f (ps @ [p])"
  by (auto simp: once_def nth_append less_Suc_eq)

section \<open>What a monitor relies on\<close>

text \<open>
  The interface \<^verbatim>\<open>PEPInstance\<close>: a daemon whose \<^verbatim>\<open>GetSessions\<close>, in every proper state, files
  each session under its own stream ID.
\<close>

locale pep_instance =
  fixes GetSessions :: "'p \<Rightarrow> (u16 \<rightharpoonup> 'enc Session)"
    and proper :: "'p \<Rightarrow> bool"
  assumes own_id: "proper p \<Longrightarrow> GetSessions p sid = Some s \<Longrightarrow> StreamID (par s) = sid"
begin

lemma stats_id:
  "proper p \<Longrightarrow> GetSessions p sid = Some s \<Longrightarrow> st_StreamID (GetMonitorStats remote rfc s) = sid"
  by (simp add: GetMonitorStats_def own_id)

lemma distinct_sessions:
  "proper p \<Longrightarrow> GetSessions p a = Some s \<Longrightarrow> GetSessions p b = Some s \<Longrightarrow> a = b"
  using own_id by metis

end

lemma snapshot_own_id:
  "table_ok P rs k mx parity sessions objs \<Longrightarrow> snapshot sessions objs sid = Some s \<Longrightarrow> StreamID (par s) = sid"
  by (auto simp: snapshot_def dest: table_okD(4))

end
