(* ===== verification/Config.thy ===== *)
theory Config
  imports Net_Addr
begin

text \<open>
  The routing table of \<^verbatim>\<open>config/config.go\<close>: loading it from a YAML file and looking up the
  Server-PEP of a destination. The YAML decoder is a third-party package and a parameter;
  the result of reading the file is an argument. The lemmas give the table's meaning in terms
  of the list of routes in the file, characterise which files are accepted, and show that an
  IPv4 CIDR route matches by its prefix.
\<close>

section \<open>Configuration and router\<close>

record RouteConfig =
  OriginalDst :: string
  ServerPEP :: string

record Config =
  Routes :: "RouteConfig list"

record subnetRoute =
  ipNet :: IPNet
  serverPEP :: string

record Router =
  exactMatches :: "string \<rightharpoonup> string"
  subnets :: "subnetRoute list"

datatype ('re, 'ye) load_error = ReadFailed 're | YamlFailed 'ye | InvalidCIDR string

definition empty_router :: Router where
  "empty_router = \<lparr>exactMatches = Map.empty, subnets = []\<rparr>"

definition is_cidr :: "RouteConfig \<Rightarrow> bool" where
  "is_cidr r \<longleftrightarrow> CHR ''/'' \<in> set (OriginalDst r)"

text \<open>The loop over the routes; \<open>Inl\<close> is the route whose CIDR block does not parse.\<close>

fun load_routes :: "RouteConfig list \<Rightarrow> Router \<Rightarrow> string + Router" where
  "load_routes [] router = Inr router"
| "load_routes (r # rs) router =
     (if is_cidr r then
        (case ParseCIDR (OriginalDst r) of
           None \<Rightarrow> Inl (OriginalDst r)
         | Some n \<Rightarrow> load_routes rs (router\<lparr>subnets :=
             subnets router @ [\<lparr>ipNet = n, serverPEP = ServerPEP r\<rparr>]\<rparr>))
      else load_routes rs (router\<lparr>exactMatches := (exactMatches router)(OriginalDst r \<mapsto> ServerPEP r)\<rparr>))"

definition LoadConfig ::
  "(bytes \<Rightarrow> 'ye + Config) \<Rightarrow> 're + bytes \<Rightarrow> ('re, 'ye) load_error + Router" where
  "LoadConfig yaml_Unmarshal file =
     (case file of
        Inl e \<Rightarrow> Inl (ReadFailed e)
      | Inr contents \<Rightarrow>
          (case yaml_Unmarshal contents of
             Inl e \<Rightarrow> Inl (YamlFailed e)
           | Inr cfg \<Rightarrow>
               (case load_routes (Routes cfg) empty_router of
                  Inl r \<Rightarrow> Inl (InvalidCIDR r)
                | Inr router \<Rightarrow> Inr router)))"

datatype route_error = NoRoute string

fun subnet_match :: "bytes \<Rightarrow> subnetRoute list \<Rightarrow> string option" where
  "subnet_match ip [] = None"
| "subnet_match ip (s # ss) = (if Contains (ipNet s) ip then Some (serverPEP s) else subnet_match ip ss)"

definition Lookup :: "Router \<Rightarrow> string \<Rightarrow> route_error + string" where
  "Lookup r destAddr =
     (case exactMatches r destAddr of
        Some pep \<Rightarrow> Inr pep
      | None \<Rightarrow>
          let (host, hostMatch) =
            (case SplitHostPort destAddr of
               Some (host, _) \<Rightarrow> (host, exactMatches r host)
             | None \<Rightarrow> (destAddr, None))
          in case hostMatch of
               Some pep \<Rightarrow> Inr pep
             | None \<Rightarrow>
                 (case ParseIP host of
                    None \<Rightarrow> Inl (NoRoute destAddr)
                  | Some ip \<Rightarrow>
                      (case subnet_match ip (subnets r) of
                         Some pep \<Rightarrow> Inr pep
                       | None \<Rightarrow> Inl (NoRoute destAddr))))"

section \<open>The table as a list of routes\<close>

text \<open>
  What the file means: the last exact route for the address, else the last one for its host,
  else the first CIDR route that contains the host.
\<close>

definition exact_routes :: "RouteConfig list \<Rightarrow> (string \<times> string) list" where
  "exact_routes rs = map (\<lambda>r. (OriginalDst r, ServerPEP r)) (filter (\<lambda>r. \<not> is_cidr r) rs)"

definition last_exact :: "RouteConfig list \<Rightarrow> string \<Rightarrow> string option" where
  "last_exact rs d = map_of (rev (exact_routes rs)) d"

definition covers :: "RouteConfig \<Rightarrow> bytes \<Rightarrow> bool" where
  "covers r ip \<longleftrightarrow> is_cidr r \<and> (\<exists>n. ParseCIDR (OriginalDst r) = Some n \<and> Contains n ip)"

definition first_subnet :: "RouteConfig list \<Rightarrow> bytes \<Rightarrow> string option" where
  "first_subnet rs ip = map_option ServerPEP (find (\<lambda>r. covers r ip) rs)"

definition host_of :: "string \<Rightarrow> string" where
  "host_of d = (case SplitHostPort d of Some (h, _) \<Rightarrow> h | None \<Rightarrow> d)"

definition route_for :: "RouteConfig list \<Rightarrow> string \<Rightarrow> string option" where
  "route_for rs d =
     (if last_exact rs d \<noteq> None then last_exact rs d
      else if last_exact rs (host_of d) \<noteq> None then last_exact rs (host_of d)
      else case ParseIP (host_of d) of None \<Rightarrow> None | Some ip \<Rightarrow> first_subnet rs ip)"

lemma subnet_match_append:
  "subnet_match ip (xs @ ys) = (if subnet_match ip xs \<noteq> None then subnet_match ip xs else subnet_match ip ys)"
  by (induction xs) auto

lemma load_routes_exact:
  "load_routes rs r0 = Inr r \<Longrightarrow> exactMatches r = exactMatches r0 ++ map_of (rev (exact_routes rs))"
proof (induction rs arbitrary: r0)
  case (Cons x rs)
  show ?case
  proof (cases "is_cidr x")
    case True
    then obtain r1 where "load_routes rs r1 = Inr r" "exactMatches r1 = exactMatches r0"
      using Cons.prems by (auto split: option.splits)
    with Cons.IH [of r1] True show ?thesis by (simp add: exact_routes_def)
  next
    case False
    then have "load_routes rs (r0\<lparr>exactMatches := (exactMatches r0)(OriginalDst x \<mapsto> ServerPEP x)\<rparr>) = Inr r"
      using Cons.prems by simp
    from Cons.IH [OF this] False show ?thesis
      by (auto simp: exact_routes_def map_add_def fun_eq_iff split: option.splits)
  qed
qed (simp add: exact_routes_def)

lemma load_routes_subnets:
  "load_routes rs r0 = Inr r \<Longrightarrow>
     subnet_match ip (subnets r) =
       (if subnet_match ip (subnets r0) \<noteq> None then subnet_match ip (subnets r0) else first_subnet rs ip)"
proof (induction rs arbitrary: r0)
  case (Cons x rs)
  show ?case
  proof (cases "is_cidr x")
    case True
    then obtain n where n: "ParseCIDR (OriginalDst x) = Some n"
      using Cons.prems by (auto split: option.splits)
    then have "load_routes rs (r0\<lparr>subnets := subnets r0 @ [\<lparr>ipNet = n, serverPEP = ServerPEP x\<rparr>]\<rparr>) = Inr r"
      using Cons.prems True by simp
    from Cons.IH [OF this] n True show ?thesis
      by (simp add: subnet_match_append first_subnet_def covers_def)
  next
    case False
    with Cons.IH [of "r0\<lparr>exactMatches := (exactMatches r0)(OriginalDst x \<mapsto> ServerPEP x)\<rparr>"] Cons.prems
    show ?thesis by (simp add: first_subnet_def covers_def)
  qed
qed (simp add: first_subnet_def)

definition valid_route :: "RouteConfig \<Rightarrow> bool" where
  "valid_route r \<longleftrightarrow> (is_cidr r \<longrightarrow> ParseCIDR (OriginalDst r) \<noteq> None)"

lemma load_routes_ok_iff: "(\<exists>r. load_routes rs r0 = Inr r) \<longleftrightarrow> list_all valid_route rs"
  by (induction rs arbitrary: r0) (auto simp: valid_route_def split: option.splits)

section \<open>Properties of the routing table\<close>

text \<open>
  C10: a loaded table answers as its list of routes says: the last exact route for the
  destination, else the last one for its host, else the first CIDR block containing it,
  else the no-route error for that destination.
\<close>
theorem lookup_refines_routes:
  assumes "load_routes rs empty_router = Inr r"
  shows "Lookup r d = (case route_for rs d of Some pep \<Rightarrow> Inr pep | None \<Rightarrow> Inl (NoRoute d))"
proof -
  have e: "exactMatches r x = last_exact rs x" for x
    using load_routes_exact [OF assms] by (simp add: empty_router_def last_exact_def)
  have s: "subnet_match ip (subnets r) = first_subnet rs ip" for ip
    using load_routes_subnets [OF assms] by (simp add: empty_router_def)
  have h: "Lookup r d = (case last_exact rs d of Some pep \<Rightarrow> Inr pep | None \<Rightarrow>
      (case last_exact rs (host_of d) of Some pep \<Rightarrow> Inr pep | None \<Rightarrow>
        (case ParseIP (host_of d) of None \<Rightarrow> Inl (NoRoute d) | Some ip \<Rightarrow>
          (case first_subnet rs ip of Some pep \<Rightarrow> Inr pep | None \<Rightarrow> Inl (NoRoute d)))))"
  proof (cases "SplitHostPort d")
    case None
    then have "host_of d = d" by (simp add: host_of_def)
    with None show ?thesis unfolding Lookup_def e s by (cases "last_exact rs d") simp_all
  next
    case (Some a)
    then obtain x y where "SplitHostPort d = Some (x, y)" "host_of d = x"
      by (cases a) (simp add: host_of_def)
    then show ?thesis unfolding Lookup_def e s by (simp only: option.case prod.case Let_def)
  qed
  show ?thesis
    unfolding h route_for_def
    by (cases "last_exact rs d"; cases "last_exact rs (host_of d)"; cases "ParseIP (host_of d)") simp_all
qed

definition sample_routes :: "RouteConfig list" where
  "sample_routes =
     [\<lparr>OriginalDst = dotted [10, 0, 0, 0] @ ''/'' @ nat_dec 8, ServerPEP = ''a:1''\<rparr>,
      \<lparr>OriginalDst = dotted [10, 1, 2, 3], ServerPEP = ''b:2''\<rparr>,
      \<lparr>OriginalDst = dotted [10, 1, 2, 3], ServerPEP = ''c:3''\<rparr>]"

theorem lookup_refines_routes_witness:
  "\<exists>r. load_routes sample_routes empty_router = Inr r
     \<and> Lookup r (dotted [10, 1, 2, 3] @ '':'' @ nat_dec 80) = Inr ''c:3''"
proof -
  let ?d = "dotted [10, 1, 2, 3]"
  have c: "CHR ''/'' \<notin> set ?d" by (auto dest: dotted_chars)
  obtain r where r: "load_routes sample_routes empty_router = Inr r"
    using load_routes_ok_iff [of sample_routes empty_router] c ParseCIDR_dotted [of "[10, 0, 0, 0]" 8]
    by (auto simp: sample_routes_def is_cidr_def valid_route_def)
  have "route_for sample_routes (?d @ '':'' @ nat_dec 80) = Some ''c:3''"
    using SplitHostPort_dotted [of "[10, 1, 2, 3]" 80] c
    by (simp add: route_for_def last_exact_def exact_routes_def sample_routes_def is_cidr_def host_of_def)
  then show ?thesis
    using lookup_refines_routes [OF r, of "?d @ '':'' @ nat_dec 80"] r by auto
qed

text \<open>
  C33: a configuration is accepted exactly when the file can be read, the YAML decoder accepts
  it, and every route written with a slash is a valid CIDR block; a single bad one rejects
  the whole file.
\<close>
theorem config_accepted_iff:
  "(\<exists>r. LoadConfig unmarshal file = Inr r) \<longleftrightarrow>
     (\<exists>contents cfg. file = Inr contents \<and> unmarshal contents = Inr cfg
        \<and> list_all valid_route (Routes cfg))"
proof (cases "\<exists>contents cfg. file = Inr contents \<and> unmarshal contents = Inr cfg")
  case True
  then obtain contents cfg where "file = Inr contents" "unmarshal contents = Inr cfg" by blast
  then show ?thesis
    using load_routes_ok_iff [of "Routes cfg" empty_router] by (auto simp: LoadConfig_def split: sum.splits)
next
  case False
  then show ?thesis by (auto simp: LoadConfig_def split: sum.splits)
qed

text \<open>
  C34: an IPv4 CIDR route \<open>net/n\<close> serves exactly the destinations whose address agrees
  with \<open>net\<close> on the first \<open>n\<close> bits, whatever the port, for every prefix length.
\<close>
theorem cidr_route_matches_prefix:
  assumes "length net = 4" and "n \<le> 32" and "length ip = 4"
  shows "\<exists>r. load_routes [\<lparr>OriginalDst = dotted net @ ''/'' @ nat_dec n, ServerPEP = pep\<rparr>] empty_router = Inr r
     \<and> Lookup r (dotted ip @ '':'' @ nat_dec port) =
         (if \<forall>i < n. ip_bit net i = ip_bit ip i then Inr pep
          else Inl (NoRoute (dotted ip @ '':'' @ nat_dec port)))"
proof -
  let ?s = "\<lparr>ipNet = cidr4 net n, serverPEP = pep\<rparr>"
  have "load_routes [\<lparr>OriginalDst = dotted net @ ''/'' @ nat_dec n, ServerPEP = pep\<rparr>] empty_router
      = Inr (empty_router\<lparr>subnets := [?s]\<rparr>)"
    using ParseCIDR_dotted [OF assms(1,2)] by (simp add: is_cidr_def empty_router_def)
  moreover have "Contains (cidr4 net n) (v4InV6Prefix @ ip) \<longleftrightarrow> (\<forall>i < n. ip_bit net i = ip_bit ip i)"
    using Contains_cidr4 [OF assms(1,2), of "v4InV6Prefix @ ip"] assms(3) by simp
  ultimately show ?thesis
    using SplitHostPort_dotted [of ip port] ParseIP_dotted [OF assms(3)]
    by (auto simp: Lookup_def empty_router_def)
qed

theorem cidr_route_matches_prefix_witness:
  "\<exists>r. load_routes [\<lparr>OriginalDst = dotted [10, 0, 0, 0] @ ''/'' @ nat_dec 8, ServerPEP = ''pep:4500''\<rparr>] empty_router = Inr r
     \<and> Lookup r (dotted [10, 1, 2, 3] @ '':'' @ nat_dec 443) = Inr ''pep:4500''"
proof -
  have "\<forall>i < 8. ip_bit [10, 0, 0, 0] i = ip_bit [10, 1, 2, 3] i"
    by (simp add: ip_bit_def)
  then show ?thesis
    using cidr_route_matches_prefix [of "[10, 0, 0, 0]" 8 "[10, 1, 2, 3]" "''pep:4500''" 443] by simp
qed
end
