(* ===== verification/Client.thy ===== *)
theory Client
  imports Daemon Config
begin

text \<open>
  The client daemon of \<^verbatim>\<open>proxy/client.go\<close>. Every operation on the daemon is a function; the
  goroutines (the accept loop, one handler per intercepted connection, the demultiplexer, the
  cleanup loop, \<^verbatim>\<open>Stop\<close> and the sessions) interleave in a step relation. Handlers are machines
  with one control point per stage of \<^verbatim>\<open>handleTCPConn\<close>. Connect channels are one-place buffers.
  The lemmas show that stream IDs are allocated in time and uniquely, that the session table
  is consistent, that the demultiplexer never blocks on a connect channel, and that every
  session of a running client is a run of the session machine.
\<close>

section \<open>State\<close>

text \<open>A channel of capacity one that carries the answer to a CONNECT: an error text or \<^verbatim>\<open>nil\<close>.\<close>

type_synonym connect_chan = "(string + unit) option"

record 'enc ClientPEP =
  c_listenAddr :: string
  c_router :: Router
  c_mtu :: int
  c_bandwidth :: int
  c_fecK :: int
  c_fecM :: int
  c_idleTimeout :: int
  c_tcpListener :: socket
  c_udpConn :: socket
  c_sessions :: session_table
  c_lastID :: u16
  c_stopped :: bool
  c_cancelled :: bool
  c_pendingConnects :: "u16 \<rightharpoonup> nat"
  c_chans :: "connect_chan list"
  c_objs :: "'enc life list"
  c_udpOut :: "(bytes \<times> string) list"

definition NewClientPEP ::
  "bool \<Rightarrow> string \<Rightarrow> Router \<Rightarrow> int \<Rightarrow> int \<Rightarrow> int \<Rightarrow> int \<Rightarrow> int \<Rightarrow> 'enc ClientPEP" where
  "NewClientPEP ctxCancelled listenAddr router mtu bandwidth k m idleTimeout =
     \<lparr>c_listenAddr = listenAddr, c_router = router, c_mtu = mtu, c_bandwidth = bandwidth, c_fecK = k,
      c_fecM = m, c_idleTimeout = idleTimeout, c_tcpListener = NoSocket, c_udpConn = NoSocket,
      c_sessions = Map.empty, c_lastID = 0, c_stopped = False, c_cancelled = ctxCancelled,
      c_pendingConnects = Map.empty, c_chans = [], c_objs = [], c_udpOut = []\<rparr>"

section \<open>Start and Stop\<close>

text \<open>The results of the four calls into \<^verbatim>\<open>net\<close> are arguments; \<open>None\<close> is success.\<close>

definition ClientStart ::
  "'e option \<Rightarrow> 'e option \<Rightarrow> 'e option \<Rightarrow> 'e option \<Rightarrow> 'enc ClientPEP \<Rightarrow> 'e option \<times> 'enc ClientPEP" where
  "ClientStart resolveTCP listenTCP resolveUDP listenUDP c =
     (if resolveTCP \<noteq> None then (resolveTCP, c)
      else if listenTCP \<noteq> None then (listenTCP, c)
      else if resolveUDP \<noteq> None then (resolveUDP, c\<lparr>c_tcpListener := ClosedSocket\<rparr>)
      else if listenUDP \<noteq> None then (listenUDP, c\<lparr>c_tcpListener := ClosedSocket\<rparr>)
      else (None, c\<lparr>c_tcpListener := OpenSocket, c_udpConn := OpenSocket\<rparr>))"

text \<open>\<^verbatim>\<open>Stop\<close> up to the second critical section, that section, and the whole.\<close>

definition stop_begin :: "'enc ClientPEP \<Rightarrow> 'enc ClientPEP" where
  "stop_begin c = c\<lparr>c_stopped := True, c_cancelled := True, c_objs := map cancel_life (c_objs c),
     c_tcpListener := close_socket (c_tcpListener c), c_udpConn := close_socket (c_udpConn c)\<rparr>"

definition stop_sessions :: "u16 list \<Rightarrow> 'enc ClientPEP \<Rightarrow> 'enc ClientPEP" where
  "stop_sessions ids c =
     c\<lparr>c_objs := close_all (c_sessions c) ids (c_objs c), c_sessions := Map.empty\<rparr>"

definition ClientStop :: "u16 list \<Rightarrow> 'enc ClientPEP \<Rightarrow> 'enc ClientPEP" where
  "ClientStop ids c = (if c_stopped c then c else stop_sessions ids (stop_begin c))"

section \<open>Accepting connections\<close>

text \<open>After an error of \<^verbatim>\<open>AcceptTCP\<close> or of a datagram read, the loop returns if stopped.\<close>

definition after_error :: "'enc ClientPEP \<Rightarrow> loop_pc" where
  "after_error c = (if c_stopped c then LoopReturned else Looping)"

section \<open>Stream IDs\<close>

datatype stream_error = OutOfStreamIDs

definition next_id :: "u16 \<Rightarrow> u16" where
  "next_id lastID = (lastID mod 4095) + 1"

text \<open>The loop may not end, so it is a partial function; its result pairs the answer with \<^verbatim>\<open>lastID\<close>.\<close>

partial_function (option) next_free ::
  "session_table \<Rightarrow> u16 \<Rightarrow> u16 \<Rightarrow> ((stream_error + u16) \<times> u16) option" where
  [code]: "next_free sessions start lastID =
     (let lastID' = next_id lastID in
      if sessions lastID' = None then Some (Inr lastID', lastID')
      else if lastID' = start then Some (Inl OutOfStreamIDs, lastID')
      else next_free sessions start lastID')"

definition getNextStreamID :: "'enc ClientPEP \<Rightarrow> ((stream_error + u16) \<times> 'enc ClientPEP) option" where
  "getNextStreamID c =
     (case next_free (c_sessions c) (c_lastID c) (c_lastID c) of
        None \<Rightarrow> None
      | Some (r, lastID) \<Rightarrow> Some (r, c\<lparr>c_lastID := lastID\<rparr>))"

section \<open>Handling an intercepted connection\<close>

text \<open>
  The stages of \<^verbatim>\<open>handleTCPConn\<close>: accepted; destination and Server-PEP address known; stream ID
  allocated; channel registered; waiting for the answer to the CONNECT datagram; answered;
  session stored; and the two ends, serving a session or the connection closed.
\<close>

datatype conn_pc =
    Accepted
  | Routed string string
  | Allocated string string u16
  | Registered string string u16 nat
  | Waiting bytes string u16 nat
  | Succeeded string u16
  | Stored nat
  | Served nat
  | ConnClosed

definition route_conn :: "'d + string \<Rightarrow> (string \<Rightarrow> 'r + string) \<Rightarrow> 'enc ClientPEP \<Rightarrow> conn_pc" where
  "route_conn origDst resolveUDPAddr c =
     (case origDst of
        Inl _ \<Rightarrow> ConnClosed
      | Inr dst \<Rightarrow>
          (case Lookup (c_router c) dst of
             Inl _ \<Rightarrow> ConnClosed
           | Inr serverPEPStr \<Rightarrow>
               (case resolveUDPAddr serverPEPStr of
                  Inl _ \<Rightarrow> ConnClosed
                | Inr serverPEPAddr \<Rightarrow> Routed dst serverPEPAddr)))"

definition alloc_conn :: "string \<Rightarrow> string \<Rightarrow> 'enc ClientPEP \<Rightarrow> ('enc ClientPEP \<times> conn_pc) option" where
  "alloc_conn dst addr c =
     (case getNextStreamID c of
        None \<Rightarrow> None
      | Some (Inl _, c') \<Rightarrow> Some (c', ConnClosed)
      | Some (Inr streamID, c') \<Rightarrow> Some (c', Allocated dst addr streamID))"

definition register_conn :: "string \<Rightarrow> string \<Rightarrow> u16 \<Rightarrow> 'enc ClientPEP \<Rightarrow> 'enc ClientPEP \<times> conn_pc" where
  "register_conn dst addr streamID c =
     (let ch = length (c_chans c) in
      (c\<lparr>c_chans := c_chans c @ [None], c_pendingConnects := (c_pendingConnects c)(streamID \<mapsto> ch)\<rparr>,
       Registered dst addr streamID ch))"

definition connect_packet :: "u16 \<Rightarrow> string \<Rightarrow> Packet" where
  "connect_packet streamID dst =
     zero_packet\<lparr>pType := TypeConnect, pStreamID := streamID, pAddr := dst\<rparr>"

definition unregister :: "u16 \<Rightarrow> 'enc ClientPEP \<Rightarrow> 'enc ClientPEP" where
  "unregister streamID c = c\<lparr>c_pendingConnects := (c_pendingConnects c)(streamID := None)\<rparr>"

definition client_send :: "bytes \<Rightarrow> string \<Rightarrow> 'enc ClientPEP \<Rightarrow> 'enc ClientPEP" where
  "client_send buf addr c = c\<lparr>c_udpOut := c_udpOut c @ [(buf, addr)]\<rparr>"

definition connect_conn ::
  "string \<Rightarrow> string \<Rightarrow> u16 \<Rightarrow> nat \<Rightarrow> 'enc ClientPEP \<Rightarrow> 'enc ClientPEP \<times> conn_pc" where
  "connect_conn dst addr streamID ch c =
     (case Marshal (connect_packet streamID dst) of
        Inl _ \<Rightarrow> (unregister streamID c, ConnClosed)
      | Inr buf \<Rightarrow> (client_send buf addr c, Waiting buf addr streamID ch))"

definition answer_conn :: "string \<Rightarrow> u16 \<Rightarrow> nat \<Rightarrow> string + unit \<Rightarrow> 'enc ClientPEP \<Rightarrow> 'enc ClientPEP \<times> conn_pc"
where
  "answer_conn addr streamID ch connErr c =
     (c\<lparr>c_chans := (c_chans c)[ch := None]\<rparr>,
      case connErr of Inl _ \<Rightarrow> ConnClosed | Inr _ \<Rightarrow> Succeeded addr streamID)"

definition timeout_conn :: "u16 \<Rightarrow> 'enc ClientPEP \<Rightarrow> 'enc ClientPEP \<times> conn_pc" where
  "timeout_conn streamID c = (unregister streamID c, ConnClosed)"

definition store_conn :: "int \<Rightarrow> u16 \<Rightarrow> 'enc ClientPEP \<Rightarrow> 'enc ClientPEP \<times> conn_pc" where
  "store_conn now streamID c =
     (let s = NewSession now streamID False (c_mtu c) (c_bandwidth c) (c_fecK c) (c_fecM c);
          p = length (c_objs c)
      in (c\<lparr>c_objs := c_objs c @ [new_life (c_cancelled c) s],
            c_sessions := (c_sessions c)(streamID \<mapsto> p)\<rparr>, Stored p))"

definition start_conn :: "nat \<Rightarrow> 'enc ClientPEP \<Rightarrow> 'enc ClientPEP \<times> conn_pc" where
  "start_conn p c = (c\<lparr>c_objs := upd_obj p launch_life (c_objs c)\<rparr>, Served p)"

section \<open>Demultiplexing\<close>

text \<open>
  One datagram. \<open>None\<close> stands for a send on a full connect channel, which would block the
  demultiplexer for good, with the lock held.
\<close>

definition client_demux ::
  "('enc, 'e) reedsolomon \<Rightarrow> int \<Rightarrow> bytes \<Rightarrow> 'enc ClientPEP \<Rightarrow> 'enc ClientPEP option" where
  "client_demux rs now buf c =
     (case Unmarshal buf of
        Inl _ \<Rightarrow> Some c
      | Inr pkt \<Rightarrow>
          if pType pkt = TypeConnAck \<or> pType pkt = TypeConnErr then
            (case c_pendingConnects c (pStreamID pkt) of
               None \<Rightarrow> Some c
             | Some ch \<Rightarrow>
                 if c_chans c ! ch \<noteq> None then None
                 else
                   let answer = (if pType pkt = TypeConnAck then Inr ()
                                 else Inl (''remote connection failed: '' @ pAddr pkt))
                   in Some ((unregister (pStreamID pkt) c)\<lparr>c_chans := (c_chans c)[ch := Some answer]\<rparr>))
          else
            (case c_sessions c (pStreamID pkt) of
               None \<Rightarrow> Some c
             | Some i \<Rightarrow>
                 let c1 = c\<lparr>c_objs := upd_obj i (dispatch rs now (length buf) pkt) (c_objs c)\<rparr> in
                 Some (if pType pkt = TypeReset
                       then c1\<lparr>c_sessions := (c_sessions c1)(pStreamID pkt := None)\<rparr> else c1)))"

section \<open>Cleanup, routing updates, inspection\<close>

definition client_cleanup :: "int \<Rightarrow> u16 list \<Rightarrow> 'enc ClientPEP \<Rightarrow> 'enc ClientPEP" where
  "client_cleanup now ids c =
     (let (sessions, objs) = cleanup now (c_idleTimeout c) ids (c_sessions c, c_objs c)
      in c\<lparr>c_sessions := sessions, c_objs := objs\<rparr>)"

definition UpdateRouter :: "Router \<Rightarrow> 'enc ClientPEP \<Rightarrow> 'enc ClientPEP" where
  "UpdateRouter newRouter c = c\<lparr>c_router := newRouter\<rparr>"

definition ClientLocalAddr :: "(socket \<Rightarrow> string) \<Rightarrow> 'enc ClientPEP \<Rightarrow> string option" where
  "ClientLocalAddr addrOf c =
     (if c_tcpListener c = NoSocket then None else Some (addrOf (c_tcpListener c)))"

definition ClientGetSessions :: "'enc ClientPEP \<Rightarrow> (u16 \<rightharpoonup> 'enc Session)" where
  "ClientGetSessions c = snapshot (c_sessions c) (c_objs c)"

section \<open>The daemon with its goroutines\<close>

record 'enc client_sys =
  cl :: "'enc ClientPEP"
  conns :: "conn_pc list"
  acceptor :: loop_pc
  demuxer :: loop_pc
  cleaner :: loop_pc
  stopping :: bool

inductive conn_step :: "'enc ClientPEP \<Rightarrow> conn_pc \<Rightarrow> 'enc ClientPEP \<times> conn_pc \<Rightarrow> bool" where
  route: "conn_step c Accepted (c, route_conn (origDst :: unit + string) (resolve :: string \<Rightarrow> unit + string) c)"
| alloc: "alloc_conn dst addr c = Some r \<Longrightarrow> conn_step c (Routed dst addr) r"
| register: "conn_step c (Allocated dst addr sid) (register_conn dst addr sid c)"
| connect: "conn_step c (Registered dst addr sid ch) (connect_conn dst addr sid ch c)"
| answer: "c_chans c ! ch = Some r \<Longrightarrow> conn_step c (Waiting buf addr sid ch) (answer_conn addr sid ch r c)"
| retransmit: "conn_step c (Waiting buf addr sid ch) (client_send buf addr c, Waiting buf addr sid ch)"
| timeout: "conn_step c (Waiting buf addr sid ch) (timeout_conn sid c)"
| store: "conn_step c (Succeeded addr sid) (store_conn now sid c)"
| start: "conn_step c (Stored p) (start_conn p c)"

inductive client_step :: "('enc, 'e) reedsolomon \<Rightarrow> 'enc client_sys \<Rightarrow> 'enc client_sys \<Rightarrow> bool"
  for rs :: "('enc, 'e) reedsolomon" where
  accept: "acceptor y = Looping \<Longrightarrow> client_step rs y (y\<lparr>conns := conns y @ [Accepted]\<rparr>)"
| accept_error: "acceptor y = Looping \<Longrightarrow> client_step rs y (y\<lparr>acceptor := after_error (cl y)\<rparr>)"
| conn: "a < length (conns y) \<Longrightarrow> conn_step (cl y) (conns y ! a) (c', p') \<Longrightarrow>
     client_step rs y (y\<lparr>cl := c', conns := (conns y)[a := p']\<rparr>)"
| demux_ctx: "demuxer y = Looping \<Longrightarrow> c_cancelled (cl y) \<Longrightarrow>
     client_step rs y (y\<lparr>demuxer := LoopReturned\<rparr>)"
| demux_error: "demuxer y = Looping \<Longrightarrow> client_step rs y (y\<lparr>demuxer := after_error (cl y)\<rparr>)"
| demux: "demuxer y = Looping \<Longrightarrow> length buf \<le> 2048 \<Longrightarrow> client_demux rs now buf (cl y) = Some c' \<Longrightarrow>
     client_step rs y (y\<lparr>cl := c'\<rparr>)"
| cleanup_ctx: "cleaner y = Looping \<Longrightarrow> c_cancelled (cl y) \<Longrightarrow>
     client_step rs y (y\<lparr>cleaner := LoopReturned\<rparr>)"
| cleanup_tick: "cleaner y = Looping \<Longrightarrow> distinct ids \<Longrightarrow> set ids = dom (c_sessions (cl y)) \<Longrightarrow>
     client_step rs y (y\<lparr>cl := client_cleanup now ids (cl y)\<rparr>)"
| session: "i < length (c_objs (cl y)) \<Longrightarrow> life_step rs (c_objs (cl y) ! i) l \<Longrightarrow> hpc l = HandlerIdle \<Longrightarrow>
     (rpc (c_objs (cl y) ! i) = Unlaunched \<longleftrightarrow> rpc l = Unlaunched) \<Longrightarrow>
     client_step rs y (y\<lparr>cl := (cl y)\<lparr>c_objs := (c_objs (cl y))[i := l]\<rparr>\<rparr>)"
| update_router: "client_step rs y (y\<lparr>cl := UpdateRouter r (cl y)\<rparr>)"
| stop_first: "\<not> c_stopped (cl y) \<Longrightarrow> client_step rs y (y\<lparr>cl := stop_begin (cl y), stopping := True\<rparr>)"
| stop_last: "stopping y \<Longrightarrow> distinct ids \<Longrightarrow> set ids = dom (c_sessions (cl y)) \<Longrightarrow>
     client_step rs y (y\<lparr>cl := stop_sessions ids (cl y), stopping := False\<rparr>)"

definition client_start :: "'enc ClientPEP \<Rightarrow> 'enc client_sys" where
  "client_start c = \<lparr>cl = c, conns = [], acceptor = Looping, demuxer = Looping, cleaner = Looping,
     stopping = False\<rparr>"

definition client_init ::
  "('enc, 'e) reedsolomon \<Rightarrow> nat \<Rightarrow> nat \<Rightarrow> (bytes list \<Rightarrow> bytes list) \<Rightarrow> 'enc client_sys \<Rightarrow> bool" where
  "client_init rs k mx parity y \<longleftrightarrow> rs_family rs k mx parity \<and> 0 < k
     \<and> (\<exists>ctx listenAddr router mtu bandwidth idle c. 36 < mtu
         \<and> ClientStart None None None (None :: unit option)
             (NewClientPEP ctx listenAddr router mtu bandwidth (int k) (int mx) idle) = (None, c)
         \<and> y = client_start c)"

section \<open>Allocation of stream IDs\<close>

definition valid_id :: "u16 \<Rightarrow> bool" where
  "valid_id sid \<longleftrightarrow> 1 \<le> sid \<and> sid \<le> 4095"

lemma valid_id_unat: "valid_id sid \<longleftrightarrow> 1 \<le> unat sid \<and> unat sid \<le> 4095"
  by (simp add: valid_id_def word_le_nat_alt)

lemma unat_next_id: "unat (next_id l) = unat l mod 4095 + 1"
proof -
  have "unat l mod 4095 < 4095" by simp
  then show ?thesis
    by (simp add: next_id_def unat_word_ariths unat_mod_distrib)
qed

lemma next_id_valid: "valid_id (next_id l)"
  using pos_mod_bound [of 4095 "unat l"] by (simp add: valid_id_unat unat_next_id Suc_le_eq)

text \<open>The \<open>n\<close>-th candidate after \<open>l\<close>.\<close>

definition candidate :: "u16 \<Rightarrow> nat \<Rightarrow> u16" where
  "candidate l n = (next_id ^^ n) l"

lemma candidate_Suc: "candidate l (Suc n) = next_id (candidate l n)"
  by (simp add: candidate_def)

lemma unat_candidate: "unat (candidate l (Suc n)) = (unat l + n) mod 4095 + 1"
proof (induction n)
  case 0
  then show ?case by (simp add: candidate_def unat_next_id)
next
  case (Suc n)
  then show ?case
    by (simp add: candidate_Suc [of l "Suc n"] unat_next_id mod_Suc_eq)
qed

lemma candidates_cover:
  assumes "valid_id sid"
  shows "\<exists>n < 4095. candidate l (Suc n) = sid"
proof -
  let ?a = "unat l" and ?b = "unat sid - 1"
  have b: "?b < 4095" "unat sid = ?b + 1" using assms by (auto simp: valid_id_unat)
  let ?n = "(?b + (4095 - ?a mod 4095)) mod 4095"
  have "(?a + ?n) mod 4095 = (?a mod 4095 + (?b + (4095 - ?a mod 4095))) mod 4095"
    by (simp only: mod_add_right_eq mod_add_left_eq)
  also have "?a mod 4095 + (?b + (4095 - ?a mod 4095)) = ?b + 4095"
    using pos_mod_bound [of 4095 ?a] by simp
  finally have "(?a + ?n) mod 4095 = ?b" using b(1) by simp
  then have "unat (candidate l (Suc ?n)) = unat sid"
    using b(2) by (simp only: unat_candidate)
  then show ?thesis
    by (intro exI [of _ ?n]) (simp add: word_unat_eq_iff)
qed

lemma next_free_skip:
  "(\<And>i. i < n \<Longrightarrow> sessions (candidate l (Suc i)) \<noteq> None \<and> candidate l (Suc i) \<noteq> start) \<Longrightarrow>
     next_free sessions start l = next_free sessions start (candidate l n)"
proof (induction n)
  case (Suc n)
  then have "next_free sessions start l = next_free sessions start (candidate l n)" by simp
  also have "\<dots> = next_free sessions start (candidate l (Suc n))"
    using Suc.prems [of n] by (subst next_free.simps) (auto simp: Let_def candidate_Suc)
  finally show ?case .
qed (simp add: candidate_def)

lemma candidate_back:
  assumes "valid_id l" and "n < 4094"
  shows "candidate l (Suc n) \<noteq> l"
proof
  assume "candidate l (Suc n) = l"
  then have "(unat l + n) mod 4095 + 1 = unat l" by (metis unat_candidate)
  moreover have "1 \<le> unat l" "unat l \<le> 4095" using assms by (simp_all add: valid_id_unat)
  ultimately show False using assms(2) by (cases "unat l + n < 4095") (auto simp: mod_if split: if_splits)
qed

lemma next_free_total:
  assumes "l = 0 \<or> valid_id l" and "l = 0 \<Longrightarrow> \<exists>sid. valid_id sid \<and> sessions sid = None"
  shows "\<exists>r l'. next_free sessions l l = Some (r, l') \<and> valid_id l' \<and>
     (case r of Inr sid \<Rightarrow> sid = l' \<and> sessions sid = None
      | Inl _ \<Rightarrow> \<forall>sid. valid_id sid \<longrightarrow> sessions sid \<noteq> None)"
proof (cases "\<exists>sid. valid_id sid \<and> sessions sid = None")
  case True
  then obtain n0 where "n0 < 4095" "sessions (candidate l (Suc n0)) = None"
    using candidates_cover by metis
  define n where "n = (LEAST n. sessions (candidate l (Suc n)) = None)"
  have free: "sessions (candidate l (Suc n)) = None"
    unfolding n_def by (rule LeastI) (rule \<open>sessions (candidate l (Suc n0)) = None\<close>)
  have "n \<le> n0"
    unfolding n_def by (rule Least_le) (rule \<open>sessions (candidate l (Suc n0)) = None\<close>)
  have used: "sessions (candidate l (Suc i)) \<noteq> None" if "i < n" for i
    using that not_less_Least unfolding n_def by blast
  have "candidate l (Suc i) \<noteq> l" if "i < n" for i
  proof (cases "l = 0")
    case True
    then show ?thesis using next_id_valid [of "candidate l i"] by (auto simp: candidate_Suc valid_id_unat)
  next
    case False
    then show ?thesis using assms(1) that \<open>n \<le> n0\<close> \<open>n0 < 4095\<close> by (intro candidate_back) auto
  qed
  with used have "next_free sessions l l = next_free sessions l (candidate l n)"
    by (intro next_free_skip) blast
  also have "\<dots> = Some (Inr (candidate l (Suc n)), candidate l (Suc n))"
    using free by (subst next_free.simps) (simp add: Let_def candidate_Suc)
  finally show ?thesis
    using free next_id_valid by (simp add: candidate_Suc)
next
  case False
  then have v: "valid_id l" using assms by blast
  have used: "sessions (candidate l (Suc i)) \<noteq> None" for i
    using False next_id_valid [of "candidate l i"] by (auto simp: candidate_Suc)
  have "next_free sessions l l = next_free sessions l (candidate l 4094)"
    using used candidate_back [OF v] by (intro next_free_skip) blast
  also have "candidate l (Suc 4094) = l"
  proof -
    have "unat (candidate l (Suc 4094)) = (unat l + 4094) mod 4095 + 1" by (rule unat_candidate)
    also have "\<dots> = unat l" using v by (auto simp: valid_id_unat mod_if)
    finally show ?thesis by (simp only: word_unat_eq_iff)
  qed
  then have "next_free sessions l (candidate l 4094) = Some (Inl OutOfStreamIDs, l)"
    using used [of 4094] by (subst next_free.simps) (simp add: Let_def candidate_Suc [symmetric])
  finally show ?thesis using v False by simp
qed

section \<open>The invariant of a running client\<close>

text \<open>No pending channel is full, and no two streams wait on the same one.\<close>

definition chans_ok :: "(u16 \<rightharpoonup> nat) \<Rightarrow> connect_chan list \<Rightarrow> bool" where
  "chans_ok pending chans \<longleftrightarrow>
     (\<forall>sid ch. pending sid = Some ch \<longrightarrow> ch < length chans \<and> chans ! ch = None)
     \<and> (\<forall>a b ch. pending a = Some ch \<longrightarrow> pending b = Some ch \<longrightarrow> a = b)"

lemma chans_ok_register: "chans_ok pending chans \<Longrightarrow> chans_ok (pending(sid \<mapsto> length chans)) (chans @ [None])"
  by (auto simp: chans_ok_def nth_append less_Suc_eq)

lemma chans_ok_unregister: "chans_ok pending chans \<Longrightarrow> chans_ok (pending(sid := None)) chans"
  by (auto simp: chans_ok_def)

lemma chans_ok_answer:
  assumes "chans_ok pending chans" and "pending sid = Some ch"
  shows "chans_ok (pending(sid := None)) (chans[ch := x])"
proof -
  have "ch' \<noteq> ch" if "pending a = Some ch'" "a \<noteq> sid" for a ch'
    using assms that by (auto simp: chans_ok_def)
  then have "(chans[ch := x]) ! ch' = chans ! ch'" if "pending a = Some ch'" "a \<noteq> sid" for a ch'
    using that by (metis nth_list_update_neq)
  with assms(1) show ?thesis by (simp add: chans_ok_def)
qed

lemma chans_ok_receive: "chans_ok pending chans \<Longrightarrow> chans_ok pending (chans[ch := None])"
  unfolding chans_ok_def by (metis length_list_update nth_list_update_eq nth_list_update_neq)

definition pc_ok :: "'enc ClientPEP \<Rightarrow> conn_pc \<Rightarrow> bool" where
  "pc_ok c p = (case p of
       Allocated _ _ sid \<Rightarrow> valid_id sid \<and> c_lastID c \<noteq> 0
     | Registered _ _ sid _ \<Rightarrow> valid_id sid \<and> c_lastID c \<noteq> 0
     | Waiting _ _ sid _ \<Rightarrow> valid_id sid \<and> c_lastID c \<noteq> 0
     | Succeeded _ sid \<Rightarrow> valid_id sid \<and> c_lastID c \<noteq> 0
     | Stored i \<Rightarrow> unlaunched (c_objs c) i
     | _ \<Rightarrow> True)"

definition client_params :: "int \<Rightarrow> SessionParams \<Rightarrow> bool" where
  "client_params mtu p \<longleftrightarrow> LinkMTU p = mtu \<and> \<not> IsServer p \<and> valid_id (StreamID p)"

definition daemon_inv ::
  "('enc, 'e) reedsolomon \<Rightarrow> nat \<Rightarrow> nat \<Rightarrow> (bytes list \<Rightarrow> bytes list) \<Rightarrow> 'enc ClientPEP \<Rightarrow> bool" where
  "daemon_inv rs k mx parity c \<longleftrightarrow>
     rs_family rs k mx parity \<and> 0 < k \<and> c_fecK c = int k \<and> c_fecM c = int mx \<and> 36 < c_mtu c
     \<and> table_ok (client_params (c_mtu c)) rs k mx parity (c_sessions c) (c_objs c)
     \<and> chans_ok (c_pendingConnects c) (c_chans c)
     \<and> (c_lastID c = 0 \<or> valid_id (c_lastID c)) \<and> (c_lastID c = 0 \<longrightarrow> c_sessions c = Map.empty)"

text \<open>The session a handler is about to launch.\<close>

definition launching :: "conn_pc \<Rightarrow> nat option" where
  "launching p = (case p of Stored i \<Rightarrow> Some i | _ \<Rightarrow> None)"

lemma launching_iff [simp]: "launching p = Some i \<longleftrightarrow> p = Stored i"
  by (simp add: launching_def split: conn_pc.splits)

definition conns_ok :: "'enc ClientPEP \<Rightarrow> conn_pc list \<Rightarrow> bool" where
  "conns_ok c ps \<longleftrightarrow> (\<forall>p \<in> set ps. pc_ok c p) \<and> once launching ps"

text \<open>What other handlers rely on: sessions not yet launched stay so, and \<^verbatim>\<open>lastID\<close> is never reset.\<close>

definition keeps_conns :: "'enc ClientPEP \<Rightarrow> 'enc ClientPEP \<Rightarrow> bool" where
  "keeps_conns c c' \<longleftrightarrow> (c_lastID c \<noteq> 0 \<longrightarrow> c_lastID c' \<noteq> 0)
     \<and> (\<forall>i. unlaunched (c_objs c) i \<longrightarrow> unlaunched (c_objs c') i)"

lemma pc_ok_mono: "keeps_conns c c' \<Longrightarrow> pc_ok c p \<Longrightarrow> pc_ok c' p"
  by (auto simp: pc_ok_def keeps_conns_def split: conn_pc.splits)

lemma conns_ok_mono: "keeps_conns c c' \<Longrightarrow> conns_ok c ps \<Longrightarrow> conns_ok c' ps"
  using pc_ok_mono by (auto simp: conns_ok_def)

lemma conns_ok_upd:
  assumes "conns_ok c ps" and "pc_ok c p" and "\<And>i. p = Stored i \<Longrightarrow> Stored i \<notin> set ps"
  shows "conns_ok c (ps[a := p])"
  using assms set_update_subset_insert [of ps a p] by (auto simp: conns_ok_def intro: once_upd)

section \<open>Every step keeps it\<close>

lemma demux_inv:
  assumes inv: "daemon_inv rs k mx parity c"
  shows "\<exists>c'. client_demux rs now buf c = Some c' \<and> daemon_inv rs k mx parity c' \<and> keeps_conns c c'"
proof (cases "Unmarshal buf")
  case (Inl e)
  then show ?thesis using inv by (simp add: client_demux_def keeps_conns_def)
next
  case (Inr pkt)
  show ?thesis
  proof (cases "pType pkt = TypeConnAck \<or> pType pkt = TypeConnErr")
    case True
    show ?thesis
    proof (cases "c_pendingConnects c (pStreamID pkt)")
      case None
      with Inr True inv show ?thesis by (auto simp: client_demux_def keeps_conns_def)
    next
      case (Some ch)
      then have "c_chans c ! ch = None" using inv by (simp add: daemon_inv_def chans_ok_def)
      moreover have "chans_ok ((c_pendingConnects c)(pStreamID pkt := None)) ((c_chans c)[ch := x])" for x
        using inv Some by (intro chans_ok_answer) (simp_all add: daemon_inv_def)
      ultimately show ?thesis
        using Inr True Some inv
        by (auto simp: client_demux_def Let_def daemon_inv_def keeps_conns_def unregister_def)
    qed
  next
    case False
    show ?thesis
    proof (cases "c_sessions c (pStreamID pkt)")
      case None
      with Inr False inv show ?thesis by (auto simp: client_demux_def keeps_conns_def)
    next
      case (Some i)
      let ?P = "client_params (c_mtu c)" and ?f = "dispatch rs now (length buf) pkt"
      have t: "table_ok ?P rs k mx parity (c_sessions c) (c_objs c)"
        using inv by (simp add: daemon_inv_def)
      have i: "i < length (c_objs c)" by (rule table_okD(3) [OF t Some])
      have "table_ok ?P rs k mx parity (c_sessions c) (upd_obj i ?f (c_objs c))"
        using Unmarshal_payload [OF Inr]
        by (intro table_ok_upd [OF t i] good_dispatch table_okD(1) [OF t i]) simp_all
      with Inr False Some inv table_ok_delete [OF this] show ?thesis
        by (auto simp: client_demux_def Let_def daemon_inv_def keeps_conns_def unlaunched_upd)
    qed
  qed
qed

text \<open>Allocation always answers, with a free ID if there is one.\<close>

lemma allocation:
  assumes "daemon_inv rs k mx parity c"
  shows "\<exists>r l. getNextStreamID c = Some (r, c\<lparr>c_lastID := l\<rparr>) \<and> valid_id l \<and>
     (case r of Inr sid \<Rightarrow> sid = l \<and> c_sessions c sid = None
      | Inl _ \<Rightarrow> \<forall>sid. valid_id sid \<longrightarrow> c_sessions c sid \<noteq> None)"
proof -
  have "c_lastID c = 0 \<or> valid_id (c_lastID c)" "c_lastID c = 0 \<Longrightarrow> c_sessions c = Map.empty" "valid_id 1"
    using assms by (auto simp: daemon_inv_def valid_id_def)
  then have "\<exists>r l. next_free (c_sessions c) (c_lastID c) (c_lastID c) = Some (r, l) \<and> valid_id l \<and>
     (case r of Inr sid \<Rightarrow> sid = l \<and> c_sessions c sid = None
      | Inl _ \<Rightarrow> \<forall>sid. valid_id sid \<longrightarrow> c_sessions c sid \<noteq> None)"
    by (intro next_free_total) auto
  then obtain r l where r: "next_free (c_sessions c) (c_lastID c) (c_lastID c) = Some (r, l)" "valid_id l"
    "case r of Inr sid \<Rightarrow> sid = l \<and> c_sessions c sid = None
      | Inl _ \<Rightarrow> \<forall>sid. valid_id sid \<longrightarrow> c_sessions c sid \<noteq> None"
    by blast
  moreover have "getNextStreamID c = Some (r, c\<lparr>c_lastID := l\<rparr>)" by (simp add: getNextStreamID_def r(1))
  ultimately show ?thesis by blast
qed

lemma conn_step_inv:
  assumes "conn_step c p (c', p')" and "daemon_inv rs k mx parity c" and "pc_ok c p" and "\<And>i. p \<noteq> Stored i"
  shows "daemon_inv rs k mx parity c' \<and> keeps_conns c c' \<and> pc_ok c' p'
     \<and> (\<forall>i. p' = Stored i \<longrightarrow> i = length (c_objs c))"
  using assms
proof (cases rule: conn_step.cases)
  case (route origDst resolve)
  then show ?thesis
    using assms(2) by (auto simp: keeps_conns_def pc_ok_def route_conn_def split: sum.splits conn_pc.splits)
next
  case (alloc dst addr)
  obtain res l where r: "getNextStreamID c = Some (res, c\<lparr>c_lastID := l\<rparr>)" "valid_id l"
    "\<And>sid. res = Inr sid \<Longrightarrow> sid = l"
    using allocation [OF assms(2)] by (elim exE conjE) (auto split: sum.splits intro: that)
  then have "l \<noteq> 0" by (auto simp: valid_id_def)
  show ?thesis
  proof (cases res)
    case (Inl e)
    with r(1) alloc have "c' = c\<lparr>c_lastID := l\<rparr>" "p' = ConnClosed" by (auto simp: alloc_conn_def)
    with \<open>l \<noteq> 0\<close> r(2) assms(2) show ?thesis by (simp add: daemon_inv_def keeps_conns_def pc_ok_def)
  next
    case (Inr sid)
    with r(1,3) alloc have "c' = c\<lparr>c_lastID := l\<rparr>" "p' = Allocated dst addr l" by (auto simp: alloc_conn_def)
    with \<open>l \<noteq> 0\<close> r(2) assms(2) show ?thesis by (simp add: daemon_inv_def keeps_conns_def pc_ok_def)
  qed
next
  case (register dst addr sid)
  then show ?thesis
    using assms(2,3)
    by (auto simp: register_conn_def Let_def daemon_inv_def keeps_conns_def pc_ok_def intro: chans_ok_register)
next
  case (connect dst addr sid ch)
  then show ?thesis
    using assms(2,3)
    by (auto simp: connect_conn_def daemon_inv_def keeps_conns_def pc_ok_def client_send_def unregister_def
        intro: chans_ok_unregister split: sum.splits)
next
  case (answer ch r buf addr sid)
  then show ?thesis
    using assms(2,3)
    by (auto simp: answer_conn_def daemon_inv_def keeps_conns_def pc_ok_def intro: chans_ok_receive
        split: sum.splits)
next
  case (retransmit buf addr sid ch)
  then show ?thesis
    using assms(2,3) by (auto simp: daemon_inv_def keeps_conns_def pc_ok_def client_send_def)
next
  case (timeout buf addr sid ch)
  then show ?thesis
    using assms(2,3)
    by (auto simp: timeout_conn_def daemon_inv_def keeps_conns_def pc_ok_def unregister_def
        intro: chans_ok_unregister)
next
  case (store addr sid now)
  let ?s = "NewSession now sid False (c_mtu c) (c_bandwidth c) (c_fecK c) (c_fecM c)"
  have "valid_id sid" "c_lastID c \<noteq> 0" using store assms(3) by (simp_all add: pc_ok_def)
  have "good_life rs k mx parity (new_life (c_cancelled c) ?s)"
    using assms(2) by (intro good_new_life [where mtu = "c_mtu c"]) (simp_all add: daemon_inv_def)
  then have "table_ok (client_params (c_mtu c)) rs k mx parity ((c_sessions c)(sid \<mapsto> length (c_objs c)))
      (c_objs c @ [new_life (c_cancelled c) ?s])"
    using assms(2) \<open>valid_id sid\<close>
    by (intro table_ok_add) (simp_all add: daemon_inv_def client_params_def NewSession_def)
  with store assms(2) \<open>c_lastID c \<noteq> 0\<close> show ?thesis
    by (auto simp: store_conn_def Let_def daemon_inv_def keeps_conns_def pc_ok_def unlaunched_def nth_append)
qed (use assms(4) in blast)

definition client_inv ::
  "('enc, 'e) reedsolomon \<Rightarrow> nat \<Rightarrow> nat \<Rightarrow> (bytes list \<Rightarrow> bytes list) \<Rightarrow> 'enc client_sys \<Rightarrow> bool" where
  "client_inv rs k mx parity y \<longleftrightarrow> daemon_inv rs k mx parity (cl y) \<and> conns_ok (cl y) (conns y)"

lemma client_inv_cl:
  "client_inv rs k mx parity y \<Longrightarrow> daemon_inv rs k mx parity c' \<Longrightarrow> keeps_conns (cl y) c' \<Longrightarrow>
     cl y' = c' \<Longrightarrow> conns y' = conns y \<Longrightarrow> client_inv rs k mx parity y'"
  by (auto simp: client_inv_def intro: conns_ok_mono)

lemma start_conn_inv:
  assumes inv: "client_inv rs k mx parity y" and a: "a < length (conns y)" "conns y ! a = Stored i"
  shows "client_inv rs k mx parity (y\<lparr>cl := fst (start_conn i (cl y)), conns := (conns y)[a := Served i]\<rparr>)"
proof -
  let ?c = "cl y" and ?c' = "fst (start_conn i (cl y))" and ?ps = "(conns y)[a := Served i]"
  have ok: "pc_ok ?c (conns y ! a)" using inv a(1) by (simp add: client_inv_def conns_ok_def)
  then have i: "i < length (c_objs ?c)" "rpc (c_objs ?c ! i) = Unlaunched"
    using a(2) by (simp_all add: pc_ok_def unlaunched_def)
  have t: "table_ok (client_params (c_mtu ?c)) rs k mx parity (c_sessions ?c) (c_objs ?c)"
    using inv by (simp add: client_inv_def daemon_inv_def)
  have "table_ok (client_params (c_mtu ?c)) rs k mx parity (c_sessions ?c) (upd_obj i launch_life (c_objs ?c))"
    using i by (intro table_ok_upd [OF t] good_launch_life table_okD(1) [OF t]) simp_all
  then have "daemon_inv rs k mx parity ?c'"
    using inv by (simp add: client_inv_def daemon_inv_def start_conn_def)
  moreover have "conns_ok ?c' ?ps"
  proof -
    have "pc_ok ?c' p" if "p \<in> set ?ps" for p
    proof -
      from that obtain b where b: "b < length ?ps" "p = ?ps ! b" by (metis in_set_conv_nth)
      show ?thesis
      proof (cases "b = a")
        case True
        then show ?thesis using b by (simp add: pc_ok_def)
      next
        case False
        then have p: "p = conns y ! b" "pc_ok ?c p" using b inv by (auto simp: client_inv_def conns_ok_def)
        have "p \<noteq> Stored i"
          using inv a b p(1) False by (auto simp: client_inv_def conns_ok_def once_def)
        with p(2) show ?thesis
          by (auto simp: pc_ok_def start_conn_def unlaunched_def upd_obj_def split: conn_pc.splits)
      qed
    qed
    moreover have "once launching ?ps"
      using inv by (intro once_upd) (simp_all add: client_inv_def conns_ok_def)
    ultimately show ?thesis by (simp add: conns_ok_def)
  qed
  ultimately show ?thesis by (simp add: client_inv_def)
qed

lemma conn_inv:
  assumes inv: "client_inv rs k mx parity y" and a: "a < length (conns y)"
    and st: "conn_step (cl y) (conns y ! a) (c', p')"
  shows "client_inv rs k mx parity (y\<lparr>cl := c', conns := (conns y)[a := p']\<rparr>)"
proof (cases "\<exists>i. conns y ! a = Stored i")
  case True
  then obtain i where i: "conns y ! a = Stored i" by blast
  with st have "(c', p') = start_conn i (cl y)" by (auto elim: conn_step.cases)
  with start_conn_inv [OF inv a i] show ?thesis by (simp add: start_conn_def)
next
  case False
  have "pc_ok (cl y) (conns y ! a)" using inv a by (simp add: client_inv_def conns_ok_def)
  with conn_step_inv [OF st, of rs k mx parity] inv False
  have r: "daemon_inv rs k mx parity c'" "keeps_conns (cl y) c'" "pc_ok c' p'"
    "\<And>i. p' = Stored i \<Longrightarrow> i = length (c_objs (cl y))"
    by (auto simp: client_inv_def)
  have ok: "conns_ok (cl y) (conns y)" using inv by (simp add: client_inv_def)
  then have "Stored (length (c_objs (cl y))) \<notin> set (conns y)"
    by (auto simp: conns_ok_def pc_ok_def unlaunched_def)
  with r(4) have "conns_ok c' ((conns y)[a := p'])"
    by (intro conns_ok_upd conns_ok_mono [OF r(2) ok] r(3)) auto
  with r(1) show ?thesis by (simp add: client_inv_def)
qed

lemma client_cleanup_inv:
  assumes "daemon_inv rs k mx parity c"
  shows "daemon_inv rs k mx parity (client_cleanup now ids c) \<and> keeps_conns c (client_cleanup now ids c)"
proof -
  let ?t = "(c_sessions c, c_objs c)"
  obtain t' where t': "cleanup now (c_idleTimeout c) ids ?t = t'" by blast
  have "table_ok (client_params (c_mtu c)) rs k mx parity (fst ?t) (snd ?t)"
    using assms by (simp add: daemon_inv_def)
  from table_ok_cleanup [OF this t'] unlaunched_cleanup [OF t'] assms show ?thesis
    by (auto simp: client_cleanup_def t' daemon_inv_def keeps_conns_def case_prod_beta map_le_empty_iff)
qed

lemma client_session_inv:
  assumes inv: "daemon_inv rs k mx parity c" and i: "i < length (c_objs c)"
    and st: "life_step rs (c_objs c ! i) l" "hpc l = HandlerIdle" "rpc (c_objs c ! i) = Unlaunched \<longleftrightarrow> rpc l = Unlaunched"
  shows "daemon_inv rs k mx parity (c\<lparr>c_objs := (c_objs c)[i := l]\<rparr>)
     \<and> keeps_conns c (c\<lparr>c_objs := (c_objs c)[i := l]\<rparr>)"
proof -
  have t: "table_ok (client_params (c_mtu c)) rs k mx parity (c_sessions c) (c_objs c)"
    using inv by (simp add: daemon_inv_def)
  have "good_life rs k mx parity l"
    by (rule good_life_step [OF table_okD(1) [OF t i] st(1,2)])
  then have "table_ok (client_params (c_mtu c)) rs k mx parity (c_sessions c) (upd_obj i (\<lambda>_. l) (c_objs c))"
    by (intro table_ok_upd [OF t i]) (simp_all add: life_step_par [OF st(1)])
  moreover have "unlaunched (c_objs c) j \<Longrightarrow> unlaunched ((c_objs c)[i := l]) j" for j
    using st(3) by (cases "i = j") (auto simp: unlaunched_def)
  ultimately show ?thesis
    using inv by (simp add: daemon_inv_def upd_obj_def keeps_conns_def)
qed

lemma client_stop_inv:
  assumes "daemon_inv rs k mx parity c"
  shows "daemon_inv rs k mx parity (stop_begin c) \<and> keeps_conns c (stop_begin c)"
    and "daemon_inv rs k mx parity (stop_sessions ids c) \<and> keeps_conns c (stop_sessions ids c)"
proof -
  have t: "table_ok (client_params (c_mtu c)) rs k mx parity (c_sessions c) (c_objs c)"
    using assms by (simp add: daemon_inv_def)
  have "table_ok (client_params (c_mtu c)) rs k mx parity (c_sessions c) (map cancel_life (c_objs c))"
    by (rule table_ok_map [OF t]) (simp_all add: good_cancel_life)
  with assms show "daemon_inv rs k mx parity (stop_begin c) \<and> keeps_conns c (stop_begin c)"
    by (simp add: stop_begin_def daemon_inv_def keeps_conns_def unlaunched_def)
  from table_ok_empty_table [OF table_ok_close_all [OF t]] assms
  show "daemon_inv rs k mx parity (stop_sessions ids c) \<and> keeps_conns c (stop_sessions ids c)"
    by (simp add: stop_sessions_def daemon_inv_def keeps_conns_def unlaunched_close_all)
qed

lemma client_step_inv:
  "client_step rs y y' \<Longrightarrow> client_inv rs k mx parity y \<Longrightarrow> client_inv rs k mx parity y'"
proof (induction rule: client_step.induct)
  case (accept y)
  then show ?case
    by (auto simp: client_inv_def conns_ok_def pc_ok_def launching_def intro!: once_append)
next
  case (conn a y c' p')
  then show ?case by (simp add: conn_inv)
next
  case (demux y buf now c')
  then have "daemon_inv rs k mx parity c' \<and> keeps_conns (cl y) c'"
    using demux_inv [of rs k mx parity "cl y" now buf] by (auto simp: client_inv_def)
  with demux(4) show ?case by (auto intro: client_inv_cl)
next
  case (cleanup_tick y ids now)
  then show ?case
    using client_cleanup_inv [of rs k mx parity "cl y" now ids]
    by (intro client_inv_cl [OF cleanup_tick(4)]) (auto simp: client_inv_def)
next
  case (session i y l)
  then show ?case
    using client_session_inv [of rs k mx parity "cl y" i l]
    by (intro client_inv_cl [OF session(5)]) (auto simp: client_inv_def)
next
  case (stop_first y)
  then show ?case
    using client_stop_inv(1) [of rs k mx parity "cl y"]
    by (intro client_inv_cl [OF stop_first(2)]) (auto simp: client_inv_def)
next
  case (stop_last y ids)
  then show ?case
    using client_stop_inv(2) [of rs k mx parity "cl y" ids]
    by (intro client_inv_cl [OF stop_last(4)]) (auto simp: client_inv_def)
next
  case (update_router y r)
  then show ?case
    by (intro client_inv_cl [OF update_router]) (auto simp: client_inv_def UpdateRouter_def daemon_inv_def keeps_conns_def)
qed (simp_all add: client_inv_def)

lemma client_inv_init: "client_init rs k mx parity y \<Longrightarrow> client_inv rs k mx parity y"
  by (auto simp: client_init_def client_inv_def client_start_def ClientStart_def NewClientPEP_def daemon_inv_def
      conns_ok_def once_def table_ok_def chans_ok_def)

interpretation client: invariant_of "client_init rs k mx parity" "client_step rs" "client_inv rs k mx parity"
  for rs :: "('enc, 'e) reedsolomon" and k mx parity
  by unfold_locales (blast intro: client_inv_init client_step_inv)+

interpretation client_pep: pep_instance ClientGetSessions "daemon_inv rs k mx parity"
  for rs :: "('enc, 'e) reedsolomon" and k mx parity
  by unfold_locales (auto simp: ClientGetSessions_def daemon_inv_def dest: snapshot_own_id)

section \<open>A run that opens a session\<close>

definition sample_client :: "unit ClientPEP" where
  "sample_client = (NewClientPEP False '':10080''
     \<lparr>exactMatches = [''192.0.2.7:80'' \<mapsto> ''198.51.100.1:4500''], subnets = []\<rparr> 1200 0 (int 2) (int 1) 300)
     \<lparr>c_tcpListener := OpenSocket, c_udpConn := OpenSocket\<rparr>"

lemma sample_client_init: "client_init xor_rs 2 1 xor_parity (client_start sample_client)"
  unfolding client_init_def
  by (intro conjI xor_rs_family exI [of _ False] exI [of _ "'':10080''"]
      exI [of _ "\<lparr>exactMatches = [''192.0.2.7:80'' \<mapsto> ''198.51.100.1:4500''], subnets = []\<rparr>"] exI [of _ 1200]
      exI [of _ 0] exI [of _ 300] exI [of _ sample_client])
    (simp_all add: sample_client_def ClientStart_def)

lemma sample_alloc: "alloc_conn d a sample_client = Some (sample_client\<lparr>c_lastID := 1\<rparr>, Allocated d a 1)"
proof -
  have "next_free Map.empty 0 0 = Some (Inr 1, 1)"
    by (subst next_free.simps) (simp add: next_id_def)
  then show ?thesis
    by (simp add: alloc_conn_def getNextStreamID_def sample_client_def NewClientPEP_def)
qed

text \<open>One intercepted connection, from accept to the registered session.\<close>

lemma sample_client_run:
  "\<exists>y. reach (client_init xor_rs 2 1 xor_parity) (client_step xor_rs) y
     \<and> c_sessions (cl y) 1 = Some 0 \<and> length (c_objs (cl y)) = 1 \<and> c_mtu (cl y) = 1200"
proof -
  let ?R = "reach (client_init xor_rs 2 1 xor_parity) (client_step xor_rs)"
  let ?Y = "\<lambda>c p. \<lparr>cl = c, conns = [p], acceptor = Looping, demuxer = Looping, cleaner = Looping, stopping = False\<rparr>"
  let ?d = "''192.0.2.7:80''" and ?a = "''198.51.100.1:4500''"
  let ?c0 = "sample_client"
  have go: "?R (?Y (fst r) (snd r))" if "?R (?Y c p)" "conn_step c p r" for c p r
    using reach_step [OF that(1), of "?Y (fst r) (snd r)"]
      client_step.conn [of 0 "?Y c p" "fst r" "snd r" xor_rs] that(2) by simp
  have "?R (client_start ?c0)"
    using reach_init [of "client_init xor_rs 2 1 xor_parity", OF sample_client_init] .
  from reach_step [OF this client_step.accept] have "?R (?Y ?c0 Accepted)"
    by (simp add: client_start_def)
  from go [OF this conn_step.route [of ?c0 "Inr ?d" "\<lambda>s. Inr s"]] have "?R (?Y ?c0 (Routed ?d ?a))"
    by (simp add: route_conn_def Lookup_def sample_client_def NewClientPEP_def)
  from go [OF this conn_step.alloc [OF sample_alloc]]
  have "?R (?Y (?c0\<lparr>c_lastID := 1\<rparr>) (Allocated ?d ?a 1))" by simp
  from go [OF this conn_step.register [of _ ?d ?a 1]]
  have "?R (?Y (fst (register_conn ?d ?a 1 (?c0\<lparr>c_lastID := 1\<rparr>))) (Registered ?d ?a 1 0))"
    by (simp add: register_conn_def sample_client_def NewClientPEP_def)
  moreover obtain c1 :: "unit ClientPEP" where c1: "c1 = fst (register_conn ?d ?a 1 (?c0\<lparr>c_lastID := 1\<rparr>))" by blast
  ultimately have r1: "?R (?Y c1 (Registered ?d ?a 1 0))" by simp
  have f1: "c_pendingConnects c1 = [1 \<mapsto> 0]" "c_chans c1 = [None]" "c_sessions c1 = Map.empty" "c_objs c1 = []" "c_mtu c1 = 1200"
    by (simp_all add: c1 register_conn_def sample_client_def NewClientPEP_def)
  obtain buf where "Marshal (connect_packet 1 ?d) = Inr buf"
    using Marshal_ok_iff [of "connect_packet 1 ?d"]
    by (auto simp: encodable_def connect_packet_def zero_packet_def packet_types)
  then have "connect_conn ?d ?a 1 0 c1 = (client_send buf ?a c1, Waiting buf ?a 1 0)"
    by (simp add: connect_conn_def)
  with go [OF r1 conn_step.connect [of c1 ?d ?a 1 0]] have r2: "?R (?Y (client_send buf ?a c1) (Waiting buf ?a 1 0))"
    by simp
  let ?ack = "zero_packet\<lparr>pType := TypeConnAck, pStreamID := 1\<rparr>"
  obtain ack where ack: "Marshal ?ack = Inr ack" "Unmarshal ack = Inr ?ack" "length ack \<le> 2048"
  proof -
    obtain ack where m: "Marshal ?ack = Inr ack"
      using Marshal_ok_iff [of ?ack] by (auto simp: encodable_def zero_packet_def packet_types)
    then have "Unmarshal ack = Inr ?ack" "length ack \<le> 2048"
      using Unmarshal_Marshal [OF m]
      by (auto simp: wire_view_def zero_packet_def packet_types Marshal_def Let_def)
    with m that show thesis by blast
  qed
  let ?c2 = "(unregister 1 (client_send buf ?a c1))\<lparr>c_chans := [Some (Inr ())]\<rparr>"
  have "client_demux xor_rs 0 ack (client_send buf ?a c1) = Some ?c2"
    by (simp add: client_demux_def ack f1 client_send_def zero_packet_def packet_types)
  then have "?R (?Y ?c2 (Waiting buf ?a 1 0))"
    using reach_step [OF r2 client_step.demux [OF _ ack(3)]] by simp
  from go [OF this conn_step.answer [of _ _ "Inr ()"]] have "?R (?Y (?c2\<lparr>c_chans := [None]\<rparr>) (Succeeded ?a 1))"
    by (simp add: answer_conn_def)
  from go [OF this conn_step.store [of _ ?a 1 0]]
  have "?R (?Y (fst (store_conn 0 1 (?c2\<lparr>c_chans := [None]\<rparr>))) (Stored 0))"
    by (simp add: store_conn_def unregister_def client_send_def f1 Let_def)
  moreover have "c_sessions (fst (store_conn 0 1 (?c2\<lparr>c_chans := [None]\<rparr>))) 1 = Some 0"
    "length (c_objs (fst (store_conn 0 1 (?c2\<lparr>c_chans := [None]\<rparr>)))) = 1"
    "c_mtu (fst (store_conn 0 1 (?c2\<lparr>c_chans := [None]\<rparr>))) = 1200"
    by (simp_all add: store_conn_def unregister_def client_send_def f1 Let_def)
  ultimately show ?thesis
    by (intro exI [of _ "?Y (fst (store_conn 0 1 (?c2\<lparr>c_chans := [None]\<rparr>))) (Stored 0)"]) simp
qed

section \<open>Properties of the client\<close>

text \<open>
  C7: whatever the client's goroutines, its sessions, its peers and \<^verbatim>\<open>Stop\<close> do, in any
  interleaving, every session it has ever created is a run of the session machine. So no
  session panics, and every datagram of every session fits the configured MTU.
\<close>
theorem client_sessions_are_runs:
  assumes "reach (client_init rs k mx parity) (client_step rs) y" and "l \<in> set (c_objs (cl y))"
  shows "reach (life_init rs k mx parity) (life_step rs) l \<and> \<not> panicked l
     \<and> list_all (\<lambda>b. int (length b) + 28 \<le> c_mtu (cl y)) (udpOut (sess l))"
proof -
  from client.reach_inv [OF assms(1)] assms(2)
  have r: "reach (life_init rs k mx parity) (life_step rs) l" "LinkMTU (par (sess l)) = c_mtu (cl y)"
    by (auto simp: client_inv_def daemon_inv_def table_ok_def good_life_def client_params_def)
  then show ?thesis
    using safe.reach_inv [OF r(1)] by (simp add: safe_inv_def session_inv_def list_all_iff fits_def)
qed

theorem client_sessions_are_runs_witness:
  "\<exists>y. reach (client_init xor_rs 2 1 xor_parity) (client_step xor_rs) y \<and> length (c_objs (cl y)) = 1
     \<and> \<not> panicked (c_objs (cl y) ! 0)"
proof -
  obtain y where y: "reach (client_init xor_rs 2 1 xor_parity) (client_step xor_rs) y" "length (c_objs (cl y)) = 1"
    using sample_client_run by blast
  then have "c_objs (cl y) ! 0 \<in> set (c_objs (cl y))" by simp
  from client_sessions_are_runs [OF y(1) this] y show ?thesis by blast
qed

text \<open>
  C35: the client's session table is consistent in every reachable state: an entry points to a
  client session that was created with exactly that stream ID, the ID is between 1 and 4095,
  and \<^verbatim>\<open>GetSessions\<close> shows that session under it.
\<close>
theorem client_table_consistent:
  assumes "reach (client_init rs k mx parity) (client_step rs) y" and "c_sessions (cl y) sid = Some i"
  shows "i < length (c_objs (cl y)) \<and> StreamID (par (sess (c_objs (cl y) ! i))) = sid
     \<and> \<not> IsServer (par (sess (c_objs (cl y) ! i))) \<and> 1 \<le> sid \<and> sid \<le> 4095
     \<and> ClientGetSessions (cl y) sid = Some (sess (c_objs (cl y) ! i))"
proof -
  have t: "table_ok (client_params (c_mtu (cl y))) rs k mx parity (c_sessions (cl y)) (c_objs (cl y))"
    using client.reach_inv [OF assms(1)] by (simp add: client_inv_def daemon_inv_def)
  have i: "i < length (c_objs (cl y))" by (rule table_okD(3) [OF t assms(2)])
  show ?thesis
    using table_okD(2) [OF t i] table_okD(4) [OF t assms(2)] i assms(2)
    by (simp add: client_params_def valid_id_def ClientGetSessions_def snapshot_def)
qed

theorem client_table_consistent_witness:
  "\<exists>y. reach (client_init xor_rs 2 1 xor_parity) (client_step xor_rs) y \<and> c_sessions (cl y) 1 = Some 0
     \<and> StreamID (par (sess (c_objs (cl y) ! 0))) = 1"
  using sample_client_run client_table_consistent by metis



text \<open>
  C17: the demultiplexer never blocks on a connect channel, whatever datagram arrives, and
  touches no session but the one registered under the datagram's stream ID.
\<close>
theorem demux_serves_addressee_only:
  assumes "reach (client_init rs k mx parity) (client_step rs) y"
  shows "\<exists>c'. client_demux rs now buf (cl y) = Some c' \<and>
     (\<forall>i. (\<forall>pkt. Unmarshal buf = Inr pkt \<longrightarrow> c_sessions (cl y) (pStreamID pkt) \<noteq> Some i) \<longrightarrow>
        c_objs c' ! i = c_objs (cl y) ! i)"
proof -
  obtain c' where c': "client_demux rs now buf (cl y) = Some c'"
    using client.reach_inv [OF assms] demux_inv by (metis client_inv_def)
  then have "c_objs c' ! i = c_objs (cl y) ! i"
    if "\<forall>pkt. Unmarshal buf = Inr pkt \<longrightarrow> c_sessions (cl y) (pStreamID pkt) \<noteq> Some i" for i
    using that by (auto simp: client_demux_def unregister_def upd_obj_def Let_def
        split: sum.splits if_splits option.splits)
  with c' show ?thesis by blast
qed

theorem demux_serves_addressee_only_witness:
  "\<exists>y c'. reach (client_init xor_rs 2 1 xor_parity) (client_step xor_rs) y \<and> c_sessions (cl y) 1 = Some 0
     \<and> client_demux xor_rs 0 [] (cl y) = Some c' \<and> c_objs c' ! 0 = c_objs (cl y) ! 0"
proof -
  obtain y where y: "reach (client_init xor_rs 2 1 xor_parity) (client_step xor_rs) y" "c_sessions (cl y) 1 = Some 0"
    using sample_client_run by blast
  have "Unmarshal [] \<noteq> Inr pkt" for pkt by (simp add: Unmarshal_def)
  with demux_serves_addressee_only [OF y(1), of 0 "[]"] y show ?thesis by blast
qed
end
