(* ===== verification/Server.thy ===== *)
theory Server
  imports Daemon
begin

text \<open>
  The server daemon of \<^verbatim>\<open>proxy/server.go\<close>: every operation as a function, and the goroutines
  (the demultiplexer, one \<^verbatim>\<open>handleConnect\<close> per CONNECT for an unknown stream, the cleanup loop,
  \<^verbatim>\<open>Stop\<close> and the sessions) interleaved in a step relation. The lemmas show that the table is
  consistent, that every session is a run of the session machine, and how CONNECT datagrams
  are answered on each path.
\<close>

section \<open>State\<close>

record 'enc ServerPEP =
  s_listenAddr :: string
  s_mtu :: int
  s_bandwidth :: int
  s_fecK :: int
  s_fecM :: int
  s_idleTimeout :: int
  s_udpConn :: socket
  s_sessions :: session_table
  s_stopped :: bool
  s_cancelled :: bool
  s_objs :: "'enc life list"
  s_udpOut :: "(bytes \<times> string) list"

definition NewServerPEP :: "bool \<Rightarrow> string \<Rightarrow> int \<Rightarrow> int \<Rightarrow> int \<Rightarrow> int \<Rightarrow> int \<Rightarrow> 'enc ServerPEP" where
  "NewServerPEP ctxCancelled listenAddr mtu bandwidth k m idleTimeout =
     \<lparr>s_listenAddr = listenAddr, s_mtu = mtu, s_bandwidth = bandwidth, s_fecK = k, s_fecM = m,
      s_idleTimeout = idleTimeout, s_udpConn = NoSocket, s_sessions = Map.empty, s_stopped = False,
      s_cancelled = ctxCancelled, s_objs = [], s_udpOut = []\<rparr>"

section \<open>Start and Stop\<close>

definition ServerStart :: "'e option \<Rightarrow> 'e option \<Rightarrow> 'enc ServerPEP \<Rightarrow> 'e option \<times> 'enc ServerPEP" where
  "ServerStart resolveUDP listenUDP s =
     (if resolveUDP \<noteq> None then (resolveUDP, s)
      else if listenUDP \<noteq> None then (listenUDP, s)
      else (None, s\<lparr>s_udpConn := OpenSocket\<rparr>))"

definition server_stop_begin :: "'enc ServerPEP \<Rightarrow> 'enc ServerPEP" where
  "server_stop_begin s = s\<lparr>s_stopped := True, s_cancelled := True, s_objs := map cancel_life (s_objs s),
     s_udpConn := close_socket (s_udpConn s)\<rparr>"

definition server_stop_sessions :: "u16 list \<Rightarrow> 'enc ServerPEP \<Rightarrow> 'enc ServerPEP" where
  "server_stop_sessions ids s =
     s\<lparr>s_objs := close_all (s_sessions s) ids (s_objs s), s_sessions := Map.empty\<rparr>"

definition ServerStop :: "u16 list \<Rightarrow> 'enc ServerPEP \<Rightarrow> 'enc ServerPEP" where
  "ServerStop ids s = (if s_stopped s then s else server_stop_sessions ids (server_stop_begin s))"

section \<open>Demultiplexing\<close>

definition server_send :: "bytes \<Rightarrow> string \<Rightarrow> 'enc ServerPEP \<Rightarrow> 'enc ServerPEP" where
  "server_send buf addr s = s\<lparr>s_udpOut := s_udpOut s @ [(buf, addr)]\<rparr>"

definition ack_packet :: "u16 \<Rightarrow> Packet" where
  "ack_packet streamID = zero_packet\<lparr>pType := TypeConnAck, pStreamID := streamID\<rparr>"

definition send_ack :: "u16 \<Rightarrow> string \<Rightarrow> 'enc ServerPEP \<Rightarrow> 'enc ServerPEP" where
  "send_ack streamID addr s =
     (case Marshal (ack_packet streamID) of Inl _ \<Rightarrow> s | Inr ackBuf \<Rightarrow> server_send ackBuf addr s)"

text \<open>
  One datagram from \<open>rAddr\<close>. The second component is the CONNECT a new \<^verbatim>\<open>handleConnect\<close> is
  started for, if any.
\<close>

definition server_demux ::
  "('enc, 'e) reedsolomon \<Rightarrow> int \<Rightarrow> bytes \<Rightarrow> string \<Rightarrow> 'enc ServerPEP \<Rightarrow> 'enc ServerPEP \<times> Packet option" where
  "server_demux rs now buf rAddr s =
     (case Unmarshal buf of
        Inl _ \<Rightarrow> (s, None)
      | Inr pkt \<Rightarrow>
          (case s_sessions s (pStreamID pkt) of
             None \<Rightarrow> (s, if pType pkt = TypeConnect then Some pkt else None)
           | Some i \<Rightarrow>
               if pType pkt = TypeConnect then (send_ack (pStreamID pkt) rAddr s, None)
               else
                 let s1 = s\<lparr>s_objs := upd_obj i (dispatch rs now (length buf) pkt) (s_objs s)\<rparr> in
                 (if pType pkt = TypeReset
                  then s1\<lparr>s_sessions := (s_sessions s1)(pStreamID pkt := None)\<rparr> else s1, None)))"

definition server_after_error :: "'enc ServerPEP \<Rightarrow> loop_pc" where
  "server_after_error s = (if s_stopped s then LoopReturned else Looping)"

section \<open>Connecting\<close>

definition sendError :: "u16 \<Rightarrow> string \<Rightarrow> string \<Rightarrow> 'enc ServerPEP \<Rightarrow> 'enc ServerPEP" where
  "sendError streamID msg clientAddr s =
     (case Marshal (zero_packet\<lparr>pType := TypeConnErr, pStreamID := streamID, pAddr := msg\<rparr>) of
        Inl _ \<Rightarrow> s
      | Inr buf \<Rightarrow> server_send buf clientAddr s)"

text \<open>
  The stages of \<^verbatim>\<open>handleConnect\<close>: resolving the target, dialling it, connected, acknowledged,
  session registered; and its end. The packet's stream ID and the client's address stay fixed.
\<close>

datatype dial_pc =
    Resolving Packet string
  | Dialing Packet string
  | Dialed Packet string
  | Acked Packet string
  | Linked nat
  | DialDone

text \<open>Registering the new session closes an older one with the same stream ID.\<close>

definition link_session :: "int \<Rightarrow> Packet \<Rightarrow> 'enc ServerPEP \<Rightarrow> 'enc ServerPEP \<times> dial_pc" where
  "link_session now p s =
     (let n = NewSession now (pStreamID p) True (s_mtu s) (s_bandwidth s) (s_fecK s) (s_fecM s);
          objs = (case s_sessions s (pStreamID p) of
                    Some old \<Rightarrow> upd_obj old close_life (s_objs s) | None \<Rightarrow> s_objs s);
          i = length objs
      in (s\<lparr>s_objs := objs @ [new_life (s_cancelled s) n],
            s_sessions := (s_sessions s)(pStreamID p \<mapsto> i)\<rparr>, Linked i))"

inductive dial_step :: "'enc ServerPEP \<Rightarrow> dial_pc \<Rightarrow> 'enc ServerPEP \<times> dial_pc \<Rightarrow> bool" where
  resolve_error: "dial_step s (Resolving p a) (sendError (pStreamID p) msg a s, DialDone)"
| resolved: "dial_step s (Resolving p a) (s, Dialing p a)"
| dial_error: "dial_step s (Dialing p a) (sendError (pStreamID p) msg a s, DialDone)"
| dialed: "dial_step s (Dialing p a) (s, Dialed p a)"
| ack: "dial_step s (Dialed p a) (send_ack (pStreamID p) a s, Acked p a)"
| link: "dial_step s (Acked p a) (link_session now p s)"
| start: "dial_step s (Linked i) (s\<lparr>s_objs := upd_obj i launch_life (s_objs s)\<rparr>, DialDone)"

section \<open>Cleanup and inspection\<close>

definition server_cleanup :: "int \<Rightarrow> u16 list \<Rightarrow> 'enc ServerPEP \<Rightarrow> 'enc ServerPEP" where
  "server_cleanup now ids s =
     (let (sessions, objs) = cleanup now (s_idleTimeout s) ids (s_sessions s, s_objs s)
      in s\<lparr>s_sessions := sessions, s_objs := objs\<rparr>)"

definition ServerLocalAddr :: "(socket \<Rightarrow> string) \<Rightarrow> 'enc ServerPEP \<Rightarrow> string option" where
  "ServerLocalAddr addrOf s = (if s_udpConn s = NoSocket then None else Some (addrOf (s_udpConn s)))"

definition ServerGetSessions :: "'enc ServerPEP \<Rightarrow> (u16 \<rightharpoonup> 'enc Session)" where
  "ServerGetSessions s = snapshot (s_sessions s) (s_objs s)"

section \<open>The daemon with its goroutines\<close>

record 'enc server_sys =
  sv :: "'enc ServerPEP"
  dials :: "dial_pc list"
  sv_demuxer :: loop_pc
  sv_cleaner :: loop_pc
  sv_stopping :: bool

inductive server_step :: "('enc, 'e) reedsolomon \<Rightarrow> 'enc server_sys \<Rightarrow> 'enc server_sys \<Rightarrow> bool"
  for rs :: "('enc, 'e) reedsolomon" where
  demux_ctx: "sv_demuxer y = Looping \<Longrightarrow> s_cancelled (sv y) \<Longrightarrow>
     server_step rs y (y\<lparr>sv_demuxer := LoopReturned\<rparr>)"
| demux_error: "sv_demuxer y = Looping \<Longrightarrow>
     server_step rs y (y\<lparr>sv_demuxer := server_after_error (sv y)\<rparr>)"
| demux: "sv_demuxer y = Looping \<Longrightarrow> length buf \<le> 2048 \<Longrightarrow> server_demux rs now buf a (sv y) = (s', None) \<Longrightarrow>
     server_step rs y (y\<lparr>sv := s'\<rparr>)"
| connect: "sv_demuxer y = Looping \<Longrightarrow> length buf \<le> 2048 \<Longrightarrow> server_demux rs now buf a (sv y) = (s', Some p) \<Longrightarrow>
     server_step rs y (y\<lparr>sv := s', dials := dials y @ [Resolving p a]\<rparr>)"
| dial: "d < length (dials y) \<Longrightarrow> dial_step (sv y) (dials y ! d) (s', p') \<Longrightarrow>
     server_step rs y (y\<lparr>sv := s', dials := (dials y)[d := p']\<rparr>)"
| cleanup_ctx: "sv_cleaner y = Looping \<Longrightarrow> s_cancelled (sv y) \<Longrightarrow>
     server_step rs y (y\<lparr>sv_cleaner := LoopReturned\<rparr>)"
| cleanup_tick: "sv_cleaner y = Looping \<Longrightarrow> distinct ids \<Longrightarrow> set ids = dom (s_sessions (sv y)) \<Longrightarrow>
     server_step rs y (y\<lparr>sv := server_cleanup now ids (sv y)\<rparr>)"
| session: "i < length (s_objs (sv y)) \<Longrightarrow> life_step rs (s_objs (sv y) ! i) l \<Longrightarrow> hpc l = HandlerIdle \<Longrightarrow>
     (rpc (s_objs (sv y) ! i) = Unlaunched \<longleftrightarrow> rpc l = Unlaunched) \<Longrightarrow>
     server_step rs y (y\<lparr>sv := (sv y)\<lparr>s_objs := (s_objs (sv y))[i := l]\<rparr>\<rparr>)"
| stop_first: "\<not> s_stopped (sv y) \<Longrightarrow>
     server_step rs y (y\<lparr>sv := server_stop_begin (sv y), sv_stopping := True\<rparr>)"
| stop_last: "sv_stopping y \<Longrightarrow> distinct ids \<Longrightarrow> set ids = dom (s_sessions (sv y)) \<Longrightarrow>
     server_step rs y (y\<lparr>sv := server_stop_sessions ids (sv y), sv_stopping := False\<rparr>)"

definition server_start :: "'enc ServerPEP \<Rightarrow> 'enc server_sys" where
  "server_start s = \<lparr>sv = s, dials = [], sv_demuxer = Looping, sv_cleaner = Looping, sv_stopping = False\<rparr>"

definition server_init ::
  "('enc, 'e) reedsolomon \<Rightarrow> nat \<Rightarrow> nat \<Rightarrow> (bytes list \<Rightarrow> bytes list) \<Rightarrow> 'enc server_sys \<Rightarrow> bool" where
  "server_init rs k mx parity y \<longleftrightarrow> rs_family rs k mx parity \<and> 0 < k
     \<and> (\<exists>ctx listenAddr mtu bandwidth idle s. 36 < mtu
         \<and> ServerStart None (None :: unit option)
             (NewServerPEP ctx listenAddr mtu bandwidth (int k) (int mx) idle) = (None, s)
         \<and> y = server_start s)"

section \<open>The invariant of a running server\<close>

definition server_params :: "int \<Rightarrow> SessionParams \<Rightarrow> bool" where
  "server_params mtu p \<longleftrightarrow> LinkMTU p = mtu \<and> IsServer p \<and> StreamID p \<le> 0x0FFF"

definition sdaemon_inv ::
  "('enc, 'e) reedsolomon \<Rightarrow> nat \<Rightarrow> nat \<Rightarrow> (bytes list \<Rightarrow> bytes list) \<Rightarrow> 'enc ServerPEP \<Rightarrow> bool" where
  "sdaemon_inv rs k mx parity s \<longleftrightarrow>
     rs_family rs k mx parity \<and> 0 < k \<and> s_fecK s = int k \<and> s_fecM s = int mx \<and> 36 < s_mtu s
     \<and> table_ok (server_params (s_mtu s)) rs k mx parity (s_sessions s) (s_objs s)"

definition dial_ok :: "'enc ServerPEP \<Rightarrow> dial_pc \<Rightarrow> bool" where
  "dial_ok s p = (case p of
       Resolving q _ \<Rightarrow> pStreamID q \<le> 0x0FFF
     | Dialing q _ \<Rightarrow> pStreamID q \<le> 0x0FFF
     | Dialed q _ \<Rightarrow> pStreamID q \<le> 0x0FFF
     | Acked q _ \<Rightarrow> pStreamID q \<le> 0x0FFF
     | Linked i \<Rightarrow> unlaunched (s_objs s) i
     | DialDone \<Rightarrow> True)"

definition linking :: "dial_pc \<Rightarrow> nat option" where
  "linking p = (case p of Linked i \<Rightarrow> Some i | _ \<Rightarrow> None)"

lemma linking_iff [simp]: "linking p = Some i \<longleftrightarrow> p = Linked i"
  by (simp add: linking_def split: dial_pc.splits)

definition dials_ok :: "'enc ServerPEP \<Rightarrow> dial_pc list \<Rightarrow> bool" where
  "dials_ok s ps \<longleftrightarrow> (\<forall>p \<in> set ps. dial_ok s p) \<and> once linking ps"

definition keeps_dials :: "'enc ServerPEP \<Rightarrow> 'enc ServerPEP \<Rightarrow> bool" where
  "keeps_dials s s' \<longleftrightarrow> (\<forall>i. unlaunched (s_objs s) i \<longrightarrow> unlaunched (s_objs s') i)"

lemma dials_ok_mono: "keeps_dials s s' \<Longrightarrow> dials_ok s ps \<Longrightarrow> dials_ok s' ps"
  by (auto simp: dials_ok_def dial_ok_def keeps_dials_def split: dial_pc.splits)

lemma dials_ok_upd:
  assumes "dials_ok s ps" and "dial_ok s p" and "\<And>i. p = Linked i \<Longrightarrow> Linked i \<notin> set ps"
  shows "dials_ok s (ps[a := p])"
  using assms set_update_subset_insert [of ps a p] by (auto simp: dials_ok_def intro: once_upd)

lemma send_fields [simp]:
  "s_objs (send_ack sid a s) = s_objs s" "s_objs (sendError sid m a s) = s_objs s"
  "sdaemon_inv rs k mx parity (send_ack sid a s) = sdaemon_inv rs k mx parity s"
  "sdaemon_inv rs k mx parity (sendError sid m a s) = sdaemon_inv rs k mx parity s"
  by (simp_all add: send_ack_def sendError_def server_send_def sdaemon_inv_def split: sum.splits)

lemma server_demux_inv:
  assumes inv: "sdaemon_inv rs k mx parity s" and d: "server_demux rs now buf a s = (s', r)"
  shows "sdaemon_inv rs k mx parity s' \<and> keeps_dials s s' \<and> (\<forall>p. r = Some p \<longrightarrow> pStreamID p \<le> 0x0FFF)"
proof (cases "Unmarshal buf")
  case (Inl e)
  then show ?thesis using inv d by (auto simp: server_demux_def keeps_dials_def)
next
  case (Inr pkt)
  show ?thesis
  proof (cases "s_sessions s (pStreamID pkt)")
    case None
    then show ?thesis
      using inv d Inr Unmarshal_stream [OF Inr] by (auto simp: server_demux_def keeps_dials_def split: if_splits)
  next
    case (Some i)
    let ?P = "server_params (s_mtu s)" and ?f = "dispatch rs now (length buf) pkt"
    have t: "table_ok ?P rs k mx parity (s_sessions s) (s_objs s)"
      using inv by (simp add: sdaemon_inv_def)
    have i: "i < length (s_objs s)" by (rule table_okD(3) [OF t Some])
    have "table_ok ?P rs k mx parity (s_sessions s) (upd_obj i ?f (s_objs s))"
      using Unmarshal_payload [OF Inr]
      by (intro table_ok_upd [OF t i] good_dispatch table_okD(1) [OF t i]) simp_all
    note t' = this table_ok_delete [OF this]
    show ?thesis
    proof (cases "pType pkt = TypeConnect")
      case True
      with d Inr Some inv show ?thesis by (auto simp: server_demux_def keeps_dials_def)
    next
      case False
      with d Inr Some inv t' show ?thesis
        by (auto simp: server_demux_def Let_def sdaemon_inv_def keeps_dials_def unlaunched_upd)
    qed
  qed
qed

lemma link_session_inv:
  assumes inv: "sdaemon_inv rs k mx parity s" and p: "pStreamID p \<le> 0x0FFF"
  shows "sdaemon_inv rs k mx parity (fst (link_session now p s)) \<and> keeps_dials s (fst (link_session now p s))
     \<and> snd (link_session now p s) = Linked (length (s_objs s))
     \<and> unlaunched (s_objs (fst (link_session now p s))) (length (s_objs s))"
proof -
  let ?P = "server_params (s_mtu s)" and ?sid = "pStreamID p"
  let ?n = "NewSession now ?sid True (s_mtu s) (s_bandwidth s) (s_fecK s) (s_fecM s)"
  let ?objs = "case s_sessions s ?sid of Some old \<Rightarrow> upd_obj old close_life (s_objs s) | None \<Rightarrow> s_objs s"
  have t: "table_ok ?P rs k mx parity (s_sessions s) (s_objs s)"
    using inv by (simp add: sdaemon_inv_def)
  have t1: "table_ok ?P rs k mx parity (s_sessions s) ?objs"
    by (cases "s_sessions s ?sid") (use t table_ok_close [OF t table_okD(3) [OF t]] in auto)
  have l: "length ?objs = length (s_objs s)" "unlaunched ?objs j = unlaunched (s_objs s) j" for j
    by (auto simp: unlaunched_upd split: option.splits)
  have "good_life rs k mx parity (new_life (s_cancelled s) ?n)"
    using inv by (intro good_new_life [where mtu = "s_mtu s"]) (simp_all add: sdaemon_inv_def)
  then have "table_ok ?P rs k mx parity ((s_sessions s)(?sid \<mapsto> length ?objs)) (?objs @ [new_life (s_cancelled s) ?n])"
    using p by (intro table_ok_add [OF t1]) (simp_all add: server_params_def NewSession_def)
  moreover have "unlaunched (?objs @ [new_life (s_cancelled s) ?n]) j" if "unlaunched (s_objs s) j" for j
    using that l(2) [of j] by (auto simp: unlaunched_def nth_append)
  moreover have "unlaunched (?objs @ [new_life (s_cancelled s) ?n]) (length (s_objs s))"
    using l(1) by (simp add: unlaunched_def nth_append)
  ultimately show ?thesis
    using inv l(1) by (simp add: link_session_def Let_def sdaemon_inv_def keeps_dials_def)
qed

lemma dial_step_inv:
  assumes "dial_step s p (s', p')" and "sdaemon_inv rs k mx parity s" and "dial_ok s p" and "\<And>i. p \<noteq> Linked i"
  shows "sdaemon_inv rs k mx parity s' \<and> keeps_dials s s' \<and> dial_ok s' p'
     \<and> (\<forall>i. p' = Linked i \<longrightarrow> i = length (s_objs s))"
  using assms
proof (cases rule: dial_step.cases)
  case (link q a now)
  then have "pStreamID q \<le> 0x0FFF" using assms(3) by (simp add: dial_ok_def)
  moreover have "s' = fst (link_session now q s)" "p' = snd (link_session now q s)"
    using link(2) by (metis fst_conv snd_conv)+
  ultimately show ?thesis
    using link_session_inv [OF assms(2), of q now] by (simp add: dial_ok_def)
qed (use assms in \<open>auto simp: keeps_dials_def dial_ok_def\<close>)

definition server_inv ::
  "('enc, 'e) reedsolomon \<Rightarrow> nat \<Rightarrow> nat \<Rightarrow> (bytes list \<Rightarrow> bytes list) \<Rightarrow> 'enc server_sys \<Rightarrow> bool" where
  "server_inv rs k mx parity y \<longleftrightarrow> sdaemon_inv rs k mx parity (sv y) \<and> dials_ok (sv y) (dials y)"

lemma server_inv_sv:
  "server_inv rs k mx parity y \<Longrightarrow> sdaemon_inv rs k mx parity s' \<Longrightarrow> keeps_dials (sv y) s' \<Longrightarrow>
     sv y' = s' \<Longrightarrow> dials y' = dials y \<Longrightarrow> server_inv rs k mx parity y'"
  by (auto simp: server_inv_def intro: dials_ok_mono)

lemma launch_inv:
  assumes inv: "server_inv rs k mx parity y" and d: "d < length (dials y)" "dials y ! d = Linked i"
    and s': "s' = (sv y)\<lparr>s_objs := upd_obj i launch_life (s_objs (sv y))\<rparr>"
  shows "server_inv rs k mx parity (y\<lparr>sv := s', dials := (dials y)[d := DialDone]\<rparr>)"
proof -
  let ?s = "sv y" and ?ps = "(dials y)[d := DialDone]"
  have "dial_ok ?s (dials y ! d)" using inv d(1) by (simp add: server_inv_def dials_ok_def)
  then have i: "i < length (s_objs ?s)" "rpc (s_objs ?s ! i) = Unlaunched"
    using d(2) by (simp_all add: dial_ok_def unlaunched_def)
  have t: "table_ok (server_params (s_mtu ?s)) rs k mx parity (s_sessions ?s) (s_objs ?s)"
    using inv by (simp add: server_inv_def sdaemon_inv_def)
  have "table_ok (server_params (s_mtu ?s)) rs k mx parity (s_sessions ?s) (upd_obj i launch_life (s_objs ?s))"
    using i by (intro table_ok_upd [OF t] good_launch_life table_okD(1) [OF t]) simp_all
  then have "sdaemon_inv rs k mx parity s'"
    using inv by (simp add: server_inv_def sdaemon_inv_def s')
  moreover have "dial_ok s' p" if "p \<in> set ?ps" for p
  proof -
    from that obtain b where b: "b < length ?ps" "p = ?ps ! b" by (metis in_set_conv_nth)
    show ?thesis
    proof (cases "b = d")
      case True
      then show ?thesis using b by (simp add: dial_ok_def)
    next
      case False
      then have p: "p = dials y ! b" "dial_ok ?s p" using b inv by (auto simp: server_inv_def dials_ok_def)
      have "p \<noteq> Linked i"
        using inv d b p(1) False by (auto simp: server_inv_def dials_ok_def once_def)
      with p(2) show ?thesis
        by (auto simp: dial_ok_def s' unlaunched_def upd_obj_def split: dial_pc.splits)
    qed
  qed
  moreover have "once linking ?ps"
    using inv by (intro once_upd) (simp_all add: server_inv_def dials_ok_def)
  ultimately show ?thesis by (simp add: server_inv_def dials_ok_def)
qed

lemma dial_inv:
  assumes inv: "server_inv rs k mx parity y" and d: "d < length (dials y)"
    and st: "dial_step (sv y) (dials y ! d) (s', p')"
  shows "server_inv rs k mx parity (y\<lparr>sv := s', dials := (dials y)[d := p']\<rparr>)"
proof (cases "\<exists>i. dials y ! d = Linked i")
  case True
  then obtain i where i: "dials y ! d = Linked i" by blast
  with st have "s' = (sv y)\<lparr>s_objs := upd_obj i launch_life (s_objs (sv y))\<rparr>" "p' = DialDone"
    by (auto elim: dial_step.cases)
  with launch_inv [OF inv d i] show ?thesis by simp
next
  case False
  have "dial_ok (sv y) (dials y ! d)" using inv d by (simp add: server_inv_def dials_ok_def)
  with dial_step_inv [OF st, of rs k mx parity] inv False
  have r: "sdaemon_inv rs k mx parity s'" "keeps_dials (sv y) s'" "dial_ok s' p'"
    "\<And>i. p' = Linked i \<Longrightarrow> i = length (s_objs (sv y))"
    by (auto simp: server_inv_def)
  have ok: "dials_ok (sv y) (dials y)" using inv by (simp add: server_inv_def)
  then have "Linked (length (s_objs (sv y))) \<notin> set (dials y)"
    by (auto simp: dials_ok_def dial_ok_def unlaunched_def)
  with r(4) have "dials_ok s' ((dials y)[d := p'])"
    by (intro dials_ok_upd dials_ok_mono [OF r(2) ok] r(3)) auto
  with r(1) show ?thesis by (simp add: server_inv_def)
qed

lemma server_ops_inv:
  assumes inv: "sdaemon_inv rs k mx parity s"
  shows "sdaemon_inv rs k mx parity (server_stop_begin s) \<and> keeps_dials s (server_stop_begin s)"
    and "sdaemon_inv rs k mx parity (server_stop_sessions ids s) \<and> keeps_dials s (server_stop_sessions ids s)"
    and "sdaemon_inv rs k mx parity (server_cleanup now ids s) \<and> keeps_dials s (server_cleanup now ids s)"
proof -
  have t: "table_ok (server_params (s_mtu s)) rs k mx parity (s_sessions s) (s_objs s)"
    using inv by (simp add: sdaemon_inv_def)
  have "table_ok (server_params (s_mtu s)) rs k mx parity (s_sessions s) (map cancel_life (s_objs s))"
    by (rule table_ok_map [OF t]) (simp_all add: good_cancel_life)
  with inv show "sdaemon_inv rs k mx parity (server_stop_begin s) \<and> keeps_dials s (server_stop_begin s)"
    by (simp add: server_stop_begin_def sdaemon_inv_def keeps_dials_def unlaunched_def)
  from table_ok_empty_table [OF table_ok_close_all [OF t]] inv
  show "sdaemon_inv rs k mx parity (server_stop_sessions ids s) \<and> keeps_dials s (server_stop_sessions ids s)"
    by (simp add: server_stop_sessions_def sdaemon_inv_def keeps_dials_def unlaunched_close_all)
  obtain t' where t': "cleanup now (s_idleTimeout s) ids (s_sessions s, s_objs s) = t'" by blast
  have "table_ok (server_params (s_mtu s)) rs k mx parity (fst (s_sessions s, s_objs s)) (snd (s_sessions s, s_objs s))"
    using t by simp
  from table_ok_cleanup [OF this t'] unlaunched_cleanup [OF t'] inv
  show "sdaemon_inv rs k mx parity (server_cleanup now ids s) \<and> keeps_dials s (server_cleanup now ids s)"
    by (auto simp: server_cleanup_def t' sdaemon_inv_def keeps_dials_def case_prod_beta)
qed

lemma server_session_inv:
  assumes inv: "sdaemon_inv rs k mx parity s" and i: "i < length (s_objs s)"
    and st: "life_step rs (s_objs s ! i) l" "hpc l = HandlerIdle" "rpc (s_objs s ! i) = Unlaunched \<longleftrightarrow> rpc l = Unlaunched"
  shows "sdaemon_inv rs k mx parity (s\<lparr>s_objs := (s_objs s)[i := l]\<rparr>)
     \<and> keeps_dials s (s\<lparr>s_objs := (s_objs s)[i := l]\<rparr>)"
proof -
  have t: "table_ok (server_params (s_mtu s)) rs k mx parity (s_sessions s) (s_objs s)"
    using inv by (simp add: sdaemon_inv_def)
  have "good_life rs k mx parity l"
    by (rule good_life_step [OF table_okD(1) [OF t i] st(1,2)])
  then have "table_ok (server_params (s_mtu s)) rs k mx parity (s_sessions s) (upd_obj i (\<lambda>_. l) (s_objs s))"
    by (intro table_ok_upd [OF t i]) (simp_all add: life_step_par [OF st(1)])
  moreover have "unlaunched (s_objs s) j \<Longrightarrow> unlaunched ((s_objs s)[i := l]) j" for j
    using st(3) by (cases "i = j") (auto simp: unlaunched_def)
  ultimately show ?thesis
    using inv by (simp add: sdaemon_inv_def upd_obj_def keeps_dials_def)
qed

lemma server_step_inv:
  "server_step rs y y' \<Longrightarrow> server_inv rs k mx parity y \<Longrightarrow> server_inv rs k mx parity y'"
proof (induction rule: server_step.induct)
  case (demux y buf now a s')
  then show ?case
    using server_demux_inv [of rs k mx parity "sv y" now buf a s' None]
    by (intro server_inv_sv [OF demux(4)]) (auto simp: server_inv_def)
next
  case (connect y buf now a s' p)
  then have "sdaemon_inv rs k mx parity s'" "keeps_dials (sv y) s'" "pStreamID p \<le> 0x0FFF"
    using server_demux_inv [of rs k mx parity "sv y" now buf a s' "Some p"] by (auto simp: server_inv_def)
  with connect(4) dials_ok_mono [of "sv y" s' "dials y"] show ?case
    by (auto simp: server_inv_def dials_ok_def dial_ok_def linking_def intro!: once_append)
next
  case (dial d y s' p')
  then show ?case by (simp add: dial_inv)
next
  case (cleanup_tick y ids now)
  then show ?case
    using server_ops_inv(3) [of rs k mx parity "sv y" now ids]
    by (intro server_inv_sv [OF cleanup_tick(4)]) (auto simp: server_inv_def)
next
  case (session i y l)
  then show ?case
    using server_session_inv [of rs k mx parity "sv y" i l]
    by (intro server_inv_sv [OF session(5)]) (auto simp: server_inv_def)
next
  case (stop_first y)
  then show ?case
    using server_ops_inv(1) [of rs k mx parity "sv y"]
    by (intro server_inv_sv [OF stop_first(2)]) (auto simp: server_inv_def)
next
  case (stop_last y ids)
  then show ?case
    using server_ops_inv(2) [of rs k mx parity "sv y" ids]
    by (intro server_inv_sv [OF stop_last(4)]) (auto simp: server_inv_def)
qed (simp_all add: server_inv_def)

lemma server_inv_init: "server_init rs k mx parity y \<Longrightarrow> server_inv rs k mx parity y"
  by (auto simp: server_init_def server_inv_def server_start_def ServerStart_def NewServerPEP_def sdaemon_inv_def
      dials_ok_def once_def table_ok_def)

interpretation server: invariant_of "server_init rs k mx parity" "server_step rs" "server_inv rs k mx parity"
  for rs :: "('enc, 'e) reedsolomon" and k mx parity
  by unfold_locales (blast intro: server_inv_init server_step_inv)+

interpretation server_pep: pep_instance ServerGetSessions "sdaemon_inv rs k mx parity"
  for rs :: "('enc, 'e) reedsolomon" and k mx parity
  by unfold_locales (auto simp: ServerGetSessions_def sdaemon_inv_def dest: snapshot_own_id)

section \<open>A run that opens a session\<close>

definition sample_server :: "unit ServerPEP" where
  "sample_server = (NewServerPEP False '':4500'' 1200 0 (int 2) (int 1) 300)\<lparr>s_udpConn := OpenSocket\<rparr>"

lemma sample_server_init: "server_init xor_rs 2 1 xor_parity (server_start sample_server)"
  unfolding server_init_def
  by (intro conjI xor_rs_family exI [of _ False] exI [of _ "'':4500''"] exI [of _ 1200] exI [of _ 0]
      exI [of _ 300] exI [of _ sample_server])
    (simp_all add: sample_server_def ServerStart_def)

lemma sample_server_run:
  "\<exists>y. reach (server_init xor_rs 2 1 xor_parity) (server_step xor_rs) y
     \<and> s_sessions (sv y) = [5 \<mapsto> 0] \<and> length (s_objs (sv y)) = 1"
proof -
  let ?R = "reach (server_init xor_rs 2 1 xor_parity) (server_step xor_rs)"
  let ?Y = "\<lambda>s p. \<lparr>sv = s, dials = [p], sv_demuxer = Looping, sv_cleaner = Looping, sv_stopping = False\<rparr>"
  let ?p = "zero_packet\<lparr>pType := TypeConnect, pStreamID := 5, pAddr := ''192.0.2.7:80''\<rparr>" and ?a = "''203.0.113.9:40000''"
  have go: "?R (?Y (fst r) (snd r))" if "?R (?Y s p)" "dial_step s p r" for s p r
    using reach_step [OF that(1), of "?Y (fst r) (snd r)"]
      server_step.dial [of 0 "?Y s p" "fst r" "snd r" xor_rs] that(2) by simp
  have "canonical ?p"
    by (simp add: canonical_def encodable_def wire_view_def zero_packet_def packet_types)
  then obtain buf where m: "Marshal ?p = Inr buf" and u: "Unmarshal buf = Inr ?p"
    using wire.roundtrip by blast
  then have b: "length buf \<le> 2048"
    by (auto simp: Marshal_def zero_packet_def packet_types Let_def)
  have "server_demux xor_rs 0 buf ?a sample_server = (sample_server, Some ?p)"
    by (simp add: server_demux_def u sample_server_def NewServerPEP_def)
  moreover have "?R (server_start sample_server)"
    using reach_init [of "server_init xor_rs 2 1 xor_parity", OF sample_server_init] .
  ultimately have "?R (?Y sample_server (Resolving ?p ?a))"
    using reach_step [of "server_init xor_rs 2 1 xor_parity" "server_step xor_rs" "server_start sample_server"]
      server_step.connect [of "server_start sample_server" buf xor_rs 0 ?a sample_server ?p] b
    by (simp add: server_start_def)
  from go [OF this dial_step.resolved] have "?R (?Y sample_server (Dialing ?p ?a))" by simp
  from go [OF this dial_step.dialed] have "?R (?Y sample_server (Dialed ?p ?a))" by simp
  from go [OF this dial_step.ack] have "?R (?Y (send_ack 5 ?a sample_server) (Acked ?p ?a))" by simp
  from go [OF this dial_step.link [of _ ?p ?a 0]]
  have "?R (?Y (fst (link_session 0 ?p (send_ack 5 ?a sample_server))) (snd (link_session 0 ?p (send_ack 5 ?a sample_server))))" .
  moreover have "s_sessions (send_ack 5 ?a sample_server) = Map.empty" "s_objs (send_ack 5 ?a sample_server) = []"
    by (simp_all add: send_ack_def server_send_def sample_server_def NewServerPEP_def split: sum.splits)
  ultimately show ?thesis
    by (intro exI [of _ "?Y (fst (link_session 0 ?p (send_ack 5 ?a sample_server)))
        (snd (link_session 0 ?p (send_ack 5 ?a sample_server)))"]) (simp add: link_session_def Let_def)
qed

section \<open>Properties of the server\<close>





text \<open>A longer message is dropped by the encoder, and nothing is sent.\<close>

lemma long_error_unreported: "255 < length msg \<Longrightarrow> sendError sid msg addr s = s"
  using Marshal_ok_iff [of "zero_packet\<lparr>pType := TypeConnErr, pStreamID := sid, pAddr := msg\<rparr>"]
  by (auto simp: sendError_def encodable_def split: sum.splits)

text \<open>A second CONNECT handled for the same stream closes the session the first one opened.\<close>

lemma second_connect_closes_first:
  "s_sessions s (pStreamID p) = Some i \<Longrightarrow> i < length (s_objs s) \<Longrightarrow>
     IsClosed (sess (s_objs (fst (link_session now p s)) ! i))
     \<and> s_sessions (fst (link_session now p s)) (pStreamID p) = Some (length (s_objs s))"
  by (simp add: link_session_def Let_def nth_append upd_obj_def close_life_def IsClosed_def Close_def)
end
