(* ===== verification/Shutdown.thy ===== *)
theory Shutdown
  imports Client Server
begin

text \<open>
  What stopping a daemon achieves. Cancelling the daemon's context reaches every session it
  has created and every session a handler still creates afterwards, and nothing reopens a
  socket; both are invariants of the daemons' step relations.
\<close>

section \<open>Contexts stay cancelled\<close>

lemma keeps_ctx: "keeps_marks s s' \<Longrightarrow> ctxDone s \<Longrightarrow> ctxDone s'"
  by (simp add: keeps_marks_def)

lemma outcome_ctx:
  "(\<And>s'. r = Inr s' \<Longrightarrow> keeps_marks (sess l) s') \<Longrightarrow> ctxDone (sess l) \<Longrightarrow> ctxDone (sess (outcome l r))"
  by (cases r) (auto simp: outcome_def dest: keeps_ctx)

lemma reader_ctx:
  assumes "ctxDone (sess l)"
  shows "ctxDone (sess (outcome l (Start (sess l))))"
    "ctxDone (sess (outcome l (flushPendingBlockLocked rs (sess l))))"
    "ctxDone (sess (outcome l (tcp_read rs now d (sess l))))"
  by (rule outcome_ctx, erule session_keeps, rule assms)+

lemma life_step_ctx: "life_step rs l l' \<Longrightarrow> ctxDone (sess l) \<Longrightarrow> ctxDone (sess l')"
proof (induction rule: life_step_from.induct)
  case (background l r)
  then show ?case by (blast intro: outcome_ctx session_keeps)
qed (auto simp: reader_ctx Close_def mark_closeSent_def mark_closeRecv_def)

lemma handler_ctx:
  assumes "ctxDone s"
  shows "ctxDone (HandleNak now p s)" "ctxDone (HandleLQR now p s)" "ctxDone (HandleClose s)"
proof -
  show "ctxDone (HandleNak now p s)"
    using assms by (simp add: HandleNak_def Let_def split: option.splits sum.splits)
  show "ctxDone (HandleLQR now p s)"
    using assms HandleLQR_keeps [of s now p] by (simp add: keeps_def)
  show "ctxDone (HandleClose s)"
    using assms by (simp add: HandleClose_def mark_closeRecv_def Close_def Let_def)
qed

lemma dispatch_ctx:
  assumes "ctxDone (sess l)"
  shows "ctxDone (sess (dispatch rs now n pkt l))"
proof -
  let ?l = "l\<lparr>sess := RecordRx (of_nat n) (sess l)\<rparr>"
  have c: "ctxDone (sess ?l)" using assms by (simp add: RecordRx_def)
  have "ctxDone (sess (outcome ?l (HandleDataPacket rs now pkt (sess ?l))))"
    by (rule outcome_ctx [OF _ c]) (rule keeps_marks, erule HandleDataPacket_keeps)
  with c show ?thesis by (simp add: dispatch_def Let_def handler_ctx close_life_def Close_def)
qed

definition all_done :: "'enc life list \<Rightarrow> bool" where
  "all_done objs \<longleftrightarrow> (\<forall>l \<in> set objs. ctxDone (sess l))"

lemma all_done_update: "all_done objs \<Longrightarrow> (i < length objs \<Longrightarrow> ctxDone (sess l)) \<Longrightarrow> all_done (objs[i := l])"
  using set_update_subset_insert [of objs i l] by (cases "i < length objs") (auto simp: all_done_def list_update_beyond)

lemma all_done_upd:
  "all_done objs \<Longrightarrow> (\<And>l. ctxDone (sess l) \<Longrightarrow> ctxDone (sess (f l))) \<Longrightarrow> all_done (upd_obj i f objs)"
  unfolding upd_obj_def by (rule all_done_update) (auto simp: all_done_def)

lemma all_done_close: "all_done objs \<Longrightarrow> all_done (upd_obj i close_life objs)"
  by (rule all_done_upd) (simp_all add: close_life_def Close_def)

lemma all_done_cleanup: "all_done objs \<Longrightarrow> all_done (snd (cleanup now idle ids (sessions, objs)))"
  unfolding cleanup_def
  by (induction ids arbitrary: sessions objs) (auto simp: cleanup_one_def all_done_close split: option.splits)

lemma all_done_close_all: "all_done objs \<Longrightarrow> all_done (close_all sessions ids objs)"
  unfolding close_all_def
  by (induction ids arbitrary: objs) (auto simp: all_done_close split: option.splits)

lemma all_done_cancel: "all_done (map cancel_life objs)"
  by (auto simp: all_done_def cancel_life_def)

lemma all_done_new: "all_done objs \<Longrightarrow> all_done (objs @ [new_life True s])"
  by (auto simp: all_done_def new_life_def cancel_life_def)

lemmas all_done_intros = all_done_close all_done_cleanup all_done_close_all all_done_cancel all_done_new

section \<open>The client\<close>

definition client_halts :: "'enc client_sys \<Rightarrow> bool" where
  "client_halts y \<longleftrightarrow> c_tcpListener (cl y) \<noteq> NoSocket \<and> c_udpConn (cl y) \<noteq> NoSocket
     \<and> (c_stopped (cl y) \<longrightarrow> c_cancelled (cl y) \<and> c_tcpListener (cl y) = ClosedSocket \<and> c_udpConn (cl y) = ClosedSocket)
     \<and> (c_cancelled (cl y) \<longrightarrow> all_done (c_objs (cl y)))"

text \<open>What a step of the daemon may do without stopping it.\<close>

definition keeps_halt :: "'enc ClientPEP \<Rightarrow> 'enc ClientPEP \<Rightarrow> bool" where
  "keeps_halt c c' \<longleftrightarrow> c_tcpListener c' = c_tcpListener c \<and> c_udpConn c' = c_udpConn c
     \<and> c_stopped c' = c_stopped c \<and> c_cancelled c' = c_cancelled c
     \<and> (c_cancelled c \<longrightarrow> all_done (c_objs c) \<longrightarrow> all_done (c_objs c'))"

lemma client_halts_mono: "keeps_halt (cl y) (cl y') \<Longrightarrow> client_halts y \<Longrightarrow> client_halts y'"
  by (simp add: client_halts_def keeps_halt_def)

lemma conn_keeps_halt: "conn_step c p r \<Longrightarrow> keeps_halt c (fst r)"
proof (induction rule: conn_step.induct)
  case (alloc dst addr c r)
  then show ?case
    by (auto simp: alloc_conn_def getNextStreamID_def keeps_halt_def split: option.splits sum.splits prod.splits)
next
  case (store c addr sid now)
  then show ?case by (auto simp: store_conn_def Let_def keeps_halt_def intro: all_done_new)
next
  case (start c p)
  then show ?case by (auto simp: start_conn_def keeps_halt_def launch_life_def intro: all_done_upd)
qed (auto simp: keeps_halt_def register_conn_def connect_conn_def answer_conn_def timeout_conn_def client_send_def
    unregister_def Let_def split: sum.splits)

lemma demux_keeps_halt: "client_demux rs now buf c = Some c' \<Longrightarrow> keeps_halt c c'"
  by (auto simp: client_demux_def keeps_halt_def unregister_def Let_def intro!: all_done_upd dispatch_ctx
      split: sum.splits if_splits option.splits)

lemma client_halts_step: "client_step rs y y' \<Longrightarrow> client_halts y \<Longrightarrow> client_halts y'"
proof (induction rule: client_step.induct)
  case (conn a y c' p')
  then show ?case using conn_keeps_halt [of "cl y" "conns y ! a" "(c', p')"] by (auto elim: client_halts_mono [rotated])
next
  case (demux y buf now c')
  then show ?case using demux_keeps_halt [of rs now buf "cl y" c'] by (auto elim: client_halts_mono [rotated])
next
  case (cleanup_tick y ids now)
  then show ?case
    using all_done_cleanup [of "c_objs (cl y)" now "c_idleTimeout (cl y)" ids "c_sessions (cl y)"]
    by (auto simp: client_halts_def client_cleanup_def Let_def split: prod.splits)
next
  case (session i y l)
  then have "all_done ((c_objs (cl y))[i := l])" if "all_done (c_objs (cl y))"
    using that life_step_ctx [OF session(2)] by (intro all_done_update) (auto simp: all_done_def)
  with session show ?case by (simp add: client_halts_def)
next
  case (stop_first y)
  then show ?case by (simp add: client_halts_def stop_begin_def close_socket_def all_done_cancel)
next
  case (stop_last y ids)
  then show ?case by (simp add: client_halts_def stop_sessions_def all_done_close_all)
qed (auto simp: client_halts_def UpdateRouter_def)

lemma client_halts_init: "client_init rs k mx parity y \<Longrightarrow> client_halts y"
  by (auto simp: client_init_def client_start_def client_halts_def ClientStart_def NewClientPEP_def all_done_def)

interpretation client_stop: invariant_of "client_init rs k mx parity" "client_step rs" client_halts
  for rs k mx parity
  by unfold_locales (blast intro: client_halts_init client_halts_step)+

section \<open>The server\<close>

definition server_halts :: "'enc server_sys \<Rightarrow> bool" where
  "server_halts y \<longleftrightarrow> s_udpConn (sv y) \<noteq> NoSocket
     \<and> (s_stopped (sv y) \<longrightarrow> s_cancelled (sv y) \<and> s_udpConn (sv y) = ClosedSocket)
     \<and> (s_cancelled (sv y) \<longrightarrow> all_done (s_objs (sv y)))"

definition keeps_server_halt :: "'enc ServerPEP \<Rightarrow> 'enc ServerPEP \<Rightarrow> bool" where
  "keeps_server_halt s s' \<longleftrightarrow> s_udpConn s' = s_udpConn s \<and> s_stopped s' = s_stopped s \<and> s_cancelled s' = s_cancelled s
     \<and> (s_cancelled s \<longrightarrow> all_done (s_objs s) \<longrightarrow> all_done (s_objs s'))"

lemma server_halts_mono: "keeps_server_halt (sv y) (sv y') \<Longrightarrow> server_halts y \<Longrightarrow> server_halts y'"
  by (simp add: server_halts_def keeps_server_halt_def)

lemma send_keeps_halt:
  "keeps_server_halt s (send_ack sid a s)" "keeps_server_halt s (sendError sid msg a s)"
  by (auto simp: keeps_server_halt_def send_ack_def sendError_def server_send_def split: sum.splits)

lemma link_keeps_halt: "keeps_server_halt s (fst (link_session now p s))"
  by (auto simp: keeps_server_halt_def link_session_def Let_def intro!: all_done_new all_done_close split: option.splits)

lemma launch_keeps_halt: "keeps_server_halt s s" "keeps_server_halt s (s\<lparr>s_objs := upd_obj i launch_life (s_objs s)\<rparr>)"
  by (auto simp: keeps_server_halt_def launch_life_def intro: all_done_upd)

lemma dial_keeps_halt: "dial_step s p r \<Longrightarrow> keeps_server_halt s (fst r)"
  by (induction rule: dial_step.induct) (simp_all add: send_keeps_halt link_keeps_halt launch_keeps_halt)

lemma server_demux_keeps_halt: "keeps_server_halt s (fst (server_demux rs now buf a s))"
  using send_keeps_halt(1)
  by (auto simp: server_demux_def keeps_server_halt_def Let_def intro!: all_done_upd dispatch_ctx
      split: sum.splits if_splits option.splits)

lemma server_halts_step: "server_step rs y y' \<Longrightarrow> server_halts y \<Longrightarrow> server_halts y'"
proof (induction rule: server_step.induct)
  case (dial d y s' p')
  then show ?case using dial_keeps_halt [of "sv y" "dials y ! d" "(s', p')"] by (auto elim: server_halts_mono [rotated])
next
  case (demux y buf now a s')
  then show ?case using server_demux_keeps_halt [of "sv y" rs now buf a] by (auto elim: server_halts_mono [rotated])
next
  case (connect y buf now a s' p)
  then show ?case using server_demux_keeps_halt [of "sv y" rs now buf a] by (auto elim: server_halts_mono [rotated])
next
  case (cleanup_tick y ids now)
  then show ?case
    using all_done_cleanup [of "s_objs (sv y)" now "s_idleTimeout (sv y)" ids "s_sessions (sv y)"]
    by (auto simp: server_halts_def server_cleanup_def Let_def split: prod.splits)
next
  case (session i y l)
  then have "all_done ((s_objs (sv y))[i := l])" if "all_done (s_objs (sv y))"
    using that life_step_ctx [OF session(2)] by (intro all_done_update) (auto simp: all_done_def)
  with session show ?case by (simp add: server_halts_def)
next
  case (stop_first y)
  then show ?case by (simp add: server_halts_def server_stop_begin_def close_socket_def all_done_cancel)
next
  case (stop_last y ids)
  then show ?case by (simp add: server_halts_def server_stop_sessions_def all_done_close_all)
qed (auto simp: server_halts_def)

lemma server_halts_init: "server_init rs k mx parity y \<Longrightarrow> server_halts y"
  by (auto simp: server_init_def server_start_def server_halts_def ServerStart_def NewServerPEP_def all_done_def)

interpretation server_stop: invariant_of "server_init rs k mx parity" "server_step rs" server_halts
  for rs k mx parity
  by unfold_locales (blast intro: server_halts_init server_halts_step)+

end
