(* ===== verification/Path_Match.thy ===== *)
theory Path_Match
  imports PEP_Prelude
begin

text \<open>
  The parts of Go's \<^verbatim>\<open>unicode/utf8\<close>, \<^verbatim>\<open>strings\<close>, \<^verbatim>\<open>strconv\<close> and \<^verbatim>\<open>path\<close> packages that the Redis
  monitor uses: decoding of runes, lower-casing of command names, \<^verbatim>\<open>Atoi\<close>, and the shell-style
  patterns of \<^verbatim>\<open>path.Match\<close>. Strings are byte lists. The lemmas show that matching terminates,
  that the pattern \<open>*\<close> matches every name without a slash, and that a pattern without special
  characters matches itself only.
\<close>

section \<open>Runes\<close>

definition byte :: "char \<Rightarrow> nat" where
  "byte c = of_char c"

definition cont :: "nat \<Rightarrow> nat \<Rightarrow> char \<Rightarrow> bool" where
  "cont lo hi c \<longleftrightarrow> lo \<le> byte c \<and> byte c \<le> hi"

definition RuneError :: nat where
  "RuneError = 0xFFFD"

text \<open>\<^verbatim>\<open>DecodeRuneInString\<close>: the rune and its width; an invalid encoding has width one.\<close>

definition decode2 :: "nat \<Rightarrow> string \<Rightarrow> nat \<times> nat" where
  "decode2 b0 s = (case s of
     c1 # _ \<Rightarrow> if cont 0x80 0xBF c1 then ((b0 - 0xC0) * 64 + (byte c1 - 0x80), 2) else (RuneError, 1)
   | [] \<Rightarrow> (RuneError, 1))"

definition decode3 :: "nat \<Rightarrow> nat \<Rightarrow> nat \<Rightarrow> string \<Rightarrow> nat \<times> nat" where
  "decode3 b0 lo hi s = (case s of
     c1 # c2 # _ \<Rightarrow>
       if cont lo hi c1 \<and> cont 0x80 0xBF c2
       then ((b0 - 0xE0) * 4096 + (byte c1 - 0x80) * 64 + (byte c2 - 0x80), 3) else (RuneError, 1)
   | _ \<Rightarrow> (RuneError, 1))"

definition decode4 :: "nat \<Rightarrow> nat \<Rightarrow> nat \<Rightarrow> string \<Rightarrow> nat \<times> nat" where
  "decode4 b0 lo hi s = (case s of
     c1 # c2 # c3 # _ \<Rightarrow>
       if cont lo hi c1 \<and> cont 0x80 0xBF c2 \<and> cont 0x80 0xBF c3
       then ((b0 - 0xF0) * 262144 + (byte c1 - 0x80) * 4096 + (byte c2 - 0x80) * 64 + (byte c3 - 0x80), 4)
       else (RuneError, 1)
   | _ \<Rightarrow> (RuneError, 1))"

definition DecodeRune :: "string \<Rightarrow> nat \<times> nat" where
  "DecodeRune s = (case s of
     [] \<Rightarrow> (RuneError, 0)
   | c # cs \<Rightarrow>
       let b0 = byte c in
       if b0 < 0x80 then (b0, 1)
       else if b0 < 0xC2 then (RuneError, 1)
       else if b0 \<le> 0xDF then decode2 b0 cs
       else if b0 = 0xE0 then decode3 b0 0xA0 0xBF cs
       else if b0 = 0xED then decode3 b0 0x80 0x9F cs
       else if b0 \<le> 0xEF then decode3 b0 0x80 0xBF cs
       else if b0 = 0xF0 then decode4 b0 0x90 0xBF cs
       else if b0 \<le> 0xF3 then decode4 b0 0x80 0xBF cs
       else if b0 = 0xF4 then decode4 b0 0x80 0x8F cs
       else (RuneError, 1))"

lemma DecodeRune_width: "s \<noteq> [] \<Longrightarrow> 0 < snd (DecodeRune s)"
  by (auto simp: DecodeRune_def decode2_def decode3_def decode4_def Let_def split: list.splits)

function runes :: "string \<Rightarrow> nat list" where
  "runes s = (if s = [] then [] else fst (DecodeRune s) # runes (drop (snd (DecodeRune s)) s))"
  by pat_completeness auto
termination
  by (relation "measure length") (auto simp: DecodeRune_width)

declare runes.simps [simp del]

section \<open>Command names\<close>

text \<open>
  \<^verbatim>\<open>ToLower\<close> compared with an ASCII name. Besides the capital letters, two runes have an ASCII
  lower case, U+212A and U+0130; all others keep a rune that no ASCII name contains.
\<close>

definition lower_rune :: "nat \<Rightarrow> nat" where
  "lower_rune r = (if 65 \<le> r \<and> r \<le> 90 then r + 32 else if r = 0x212A then 107
     else if r = 0x130 then 105 else r)"

definition lower_is :: "string \<Rightarrow> string \<Rightarrow> bool" where
  "lower_is s name \<longleftrightarrow> map lower_rune (runes s) = map byte name"

section \<open>Numbers\<close>

definition Atoi :: "string \<Rightarrow> int option" where
  "Atoi s =
     (let neg = (s \<noteq> [] \<and> hd s = CHR ''-'');
          ds = (if s \<noteq> [] \<and> (hd s = CHR ''-'' \<or> hd s = CHR ''+'') then tl s else s) in
      if ds = [] \<or> \<not> list_all is_digit ds then None
      else
        let v = (if neg then - int (dec_val ds) else int (dec_val ds)) in
        if v < - (2 ^ 63) \<or> v > 2 ^ 63 - 1 then None else Some v)"

lemma Atoi_nat_dec:
  assumes "n < 2 ^ 63"
  shows "Atoi (nat_dec n) = Some (int n)"
proof -
  have d: "is_digit c" if "c \<in> set (nat_dec n)" for c
    using nat_dec_digits that by blast
  have "hd (nat_dec n) \<in> set (nat_dec n)" using nat_dec_nonempty by simp
  then have "is_digit (hd (nat_dec n))" by (rule d)
  then have "hd (nat_dec n) \<noteq> CHR ''-''" "hd (nat_dec n) \<noteq> CHR ''+''" by (auto simp: is_digit_def)
  moreover have "list_all is_digit (nat_dec n)" using d by (simp add: list_all_iff)
  moreover have "int n < 2 ^ 63" using assms by (metis of_nat_less_iff of_nat_numeral of_nat_power)
  ultimately show ?thesis
    using nat_dec_nonempty [of n] by (simp add: Atoi_def Let_def)
qed

section \<open>Patterns\<close>

text \<open>\<^verbatim>\<open>scanChunk\<close> after the leading stars: the chunk up to the next star outside a class.\<close>

fun scan_rest :: "string \<Rightarrow> bool \<Rightarrow> string \<times> string" where
  "scan_rest [] inrange = ([], [])"
| "scan_rest [c] inrange = (if c = CHR ''*'' \<and> \<not> inrange then ([], [c]) else ([c], []))"
| "scan_rest (c # d # cs) inrange =
     (if c = CHR 0x5C then (let (a, b) = scan_rest cs inrange in (c # d # a, b))
      else if c = CHR ''*'' \<and> \<not> inrange then ([], c # d # cs)
      else
        let inrange' = (if c = CHR ''['' then True else if c = CHR '']'' then False else inrange);
            (a, b) = scan_rest (d # cs) inrange'
        in (c # a, b))"

definition scanChunk :: "string \<Rightarrow> bool \<times> string \<times> string" where
  "scanChunk pattern =
     (let p = dropWhile (\<lambda>c. c = CHR ''*'') pattern in
      (p \<noteq> pattern, scan_rest p False))"

lemma scan_rest_append: "fst (scan_rest p r) @ snd (scan_rest p r) = p"
proof (induction p r rule: scan_rest.induct)
  case (3 c d cs r)
  then show ?case by (simp add: Let_def case_prod_beta)
qed simp_all

lemma scan_rest_progress: "p \<noteq> [] \<Longrightarrow> hd p \<noteq> CHR ''*'' \<Longrightarrow> fst (scan_rest p r) \<noteq> []"
proof (induction p r rule: scan_rest.induct)
  case (3 c d cs r)
  then show ?case by (simp add: Let_def case_prod_beta)
qed simp_all

lemma scanChunk_shorter:
  assumes "pattern \<noteq> []"
  shows "length (snd (snd (scanChunk pattern))) < length pattern"
proof -
  let ?p = "dropWhile (\<lambda>c. c = CHR ''*'') pattern"
  have app: "length (fst (scan_rest ?p False)) + length (snd (scan_rest ?p False)) = length ?p"
    by (metis length_append scan_rest_append)
  have le: "length ?p \<le> length pattern" by (rule length_dropWhile_le)
  show ?thesis
  proof (cases "?p = pattern")
    case True
    then have "?p \<noteq> []" using assms by simp
    then have "fst (scan_rest ?p False) \<noteq> []"
      using hd_dropWhile [of "\<lambda>c. c = CHR ''*''" pattern] by (intro scan_rest_progress) blast+
    then have "0 < length (fst (scan_rest ?p False))" by simp
    with app le have "length (snd (scan_rest ?p False)) < length pattern" by linarith
    then show ?thesis by (simp add: scanChunk_def Let_def)
  next
    case False
    have "length ?p < length pattern"
      using False by (cases pattern) (auto simp: le_imp_less_Suc length_dropWhile_le split: if_splits)
    with app show ?thesis by (simp add: scanChunk_def Let_def)
  qed
qed

text \<open>\<^verbatim>\<open>getEsc\<close>: one possibly escaped rune of a class; \<open>None\<close> is \<^verbatim>\<open>ErrBadPattern\<close>.\<close>

definition getEsc :: "string \<Rightarrow> (nat \<times> string) option" where
  "getEsc chunk =
     (if chunk = [] \<or> hd chunk = CHR ''-'' \<or> hd chunk = CHR '']'' then None
      else
        let ch = (if hd chunk = CHR 0x5C then tl chunk else chunk) in
        if ch = [] then None
        else
          let (r, n) = DecodeRune ch in
          if (r = RuneError \<and> n = 1) \<or> drop n ch = [] then None else Some (r, drop n ch))"

lemma getEsc_shorter: "getEsc chunk = Some (r, rest) \<Longrightarrow> length rest < length chunk \<and> rest \<noteq> []"
  using DecodeRune_width [of chunk] DecodeRune_width [of "tl chunk"]
  by (auto simp: getEsc_def Let_def length_tl split: if_splits prod.splits)

text \<open>The ranges of a class: whether the rune is in one of them, and the rest after \<open>]\<close>.\<close>

function class_loop :: "string \<Rightarrow> nat \<Rightarrow> bool \<Rightarrow> nat \<Rightarrow> (bool \<times> string) option" where
  "class_loop chunk r match nrange =
     (if chunk \<noteq> [] \<and> hd chunk = CHR '']'' \<and> nrange > 0 then Some (match, tl chunk)
      else case getEsc chunk of
          None \<Rightarrow> None
        | Some (lo, rest) \<Rightarrow>
            if hd rest = CHR ''-'' then
              (case getEsc (tl rest) of
                 None \<Rightarrow> None
               | Some (hi, rest') \<Rightarrow> class_loop rest' r (match \<or> (lo \<le> r \<and> r \<le> hi)) (nrange + 1))
            else class_loop rest r (match \<or> (lo \<le> r \<and> r \<le> lo)) (nrange + 1))"
  by pat_completeness auto
termination
  by (relation "measure (\<lambda>(chunk, _). length chunk)")
    (auto dest!: getEsc_shorter simp: length_tl)

declare class_loop.simps [simp del]

lemma class_loop_shorter: "class_loop chunk r m n = Some (x, rest) \<Longrightarrow> length rest < length chunk"
proof (induction chunk arbitrary: m n rule: length_induct)
  case (1 chunk)
  have IH: "length rest < length ys" if "length ys < length chunk" "class_loop ys r m n = Some (x, rest)" for ys m n
    using "1.IH" that by blast
  show ?case
  proof (cases "chunk \<noteq> [] \<and> hd chunk = CHR '']'' \<and> n > 0")
    case True
    with "1.prems" show ?thesis by (subst (asm) class_loop.simps) (auto simp: length_tl)
  next
    case False
    then obtain lo ch where e: "getEsc chunk = Some (lo, ch)"
      using "1.prems" by (subst (asm) class_loop.simps) (auto split: option.splits)
    note s = getEsc_shorter [OF e]
    show ?thesis
    proof (cases "hd ch = CHR ''-''")
      case True
      then obtain hi ch' where e': "getEsc (tl ch) = Some (hi, ch')"
        using "1.prems" False e by (subst (asm) class_loop.simps) (auto split: option.splits)
      then have "class_loop ch' r (m \<or> (lo \<le> r \<and> r \<le> hi)) (n + 1) = Some (x, rest)"
        using "1.prems" False e True by (subst (asm) class_loop.simps) auto
        moreover have "length ch' < length chunk" using getEsc_shorter [OF e'] s by (simp add: length_tl, linarith)
      ultimately show ?thesis using IH by (meson order.strict_trans)
    next
      case nd: False
      have "class_loop ch r (m \<or> (lo \<le> r \<and> r \<le> lo)) (n + 1) = Some (x, rest)"
        using "1.prems" False e nd by (subst (asm) class_loop.simps) auto
      with s IH show ?thesis by (meson order.strict_trans)
    qed
  qed
qed

text \<open>
  \<^verbatim>\<open>matchChunk\<close>, with the flag that records a failed match: from then on only the syntax of the
  chunk is checked and the name is no longer read. \<open>None\<close> is \<^verbatim>\<open>ErrBadPattern\<close>; the inner option
  is the rest of the name after a match.
\<close>

function match_loop :: "string \<Rightarrow> string \<Rightarrow> bool \<Rightarrow> string option option" where
  "match_loop chunk s failed0 =
     (if chunk = [] then Some (if failed0 then None else Some s)
      else
        let failed = (failed0 \<or> s = []) in
        if hd chunk = CHR ''['' then
          let (r, n) = (if failed then (0, 0) else DecodeRune s);
              c1 = tl chunk;
              negated = (c1 \<noteq> [] \<and> hd c1 = CHR ''^'');
              c2 = (if negated then tl c1 else c1)
          in (case class_loop c2 r False 0 of
                None \<Rightarrow> None
              | Some (match, rest) \<Rightarrow> match_loop rest (drop n s) (failed \<or> match = negated))
        else if hd chunk = CHR ''?'' then
          (if failed then match_loop (tl chunk) s True
           else match_loop (tl chunk) (drop (snd (DecodeRune s)) s) (hd s = CHR ''/''))
        else
          let esc = (hd chunk = CHR 0x5C);
              c1 = (if esc then tl chunk else chunk)
          in if c1 = [] then None
             else if failed then match_loop (tl c1) s True
             else match_loop (tl c1) (tl s) (hd c1 \<noteq> hd s))"
  by pat_completeness auto
termination
  by (relation "measure (\<lambda>(chunk, _). length chunk)")
    (auto dest!: class_loop_shorter simp: length_tl split: if_splits)

declare match_loop.simps [simp del]

definition matchChunk :: "string \<Rightarrow> string \<Rightarrow> string option option" where
  "matchChunk chunk s = match_loop chunk s False"

text \<open>The search for a match after a star, from position \<open>i + 1\<close> on; \<open>isLast\<close> says no pattern is left.\<close>

fun star_search :: "string \<Rightarrow> bool \<Rightarrow> string \<Rightarrow> string option option" where
  "star_search chunk isLast [] = Some None"
| "star_search chunk isLast (c # name) =
     (if c = CHR ''/'' then Some None
      else case matchChunk chunk name of
          None \<Rightarrow> None
        | Some (Some t) \<Rightarrow> if isLast \<and> t \<noteq> [] then star_search chunk isLast name else Some (Some t)
        | Some None \<Rightarrow> star_search chunk isLast name)"

text \<open>The syntax check of the rest of the pattern after a mismatch.\<close>

function check_rest :: "string \<Rightarrow> bool option" where
  "check_rest pattern =
     (if pattern = [] then Some False
      else case matchChunk (fst (snd (scanChunk pattern))) [] of
          None \<Rightarrow> None
        | Some _ \<Rightarrow> check_rest (snd (snd (scanChunk pattern))))"
  by pat_completeness auto
termination
  by (relation "measure length") (auto simp: scanChunk_shorter)

declare check_rest.simps [simp del]

text \<open>\<^verbatim>\<open>path.Match\<close>; \<open>None\<close> is \<^verbatim>\<open>ErrBadPattern\<close>.\<close>

function Match :: "string \<Rightarrow> string \<Rightarrow> bool option" where
  "Match pattern name =
     (if pattern = [] then Some (name = [])
      else
        let star = fst (scanChunk pattern);
            chunk = fst (snd (scanChunk pattern));
            rest = snd (snd (scanChunk pattern))
        in
        if star \<and> chunk = [] then Some (CHR ''/'' \<notin> set name)
        else case matchChunk chunk name of
            None \<Rightarrow> None
          | Some m \<Rightarrow>
              if m \<noteq> None \<and> (the m = [] \<or> rest \<noteq> []) then Match rest (the m)
              else if star then
                (case star_search chunk (rest = []) name of
                   None \<Rightarrow> None
                 | Some (Some t) \<Rightarrow> Match rest t
                 | Some None \<Rightarrow> check_rest rest)
              else check_rest rest)"
  by pat_completeness auto
termination
  by (relation "measure (\<lambda>(pattern, _). length pattern)") (auto simp: scanChunk_shorter)

declare Match.simps [simp del]

section \<open>Two kinds of patterns\<close>

lemma Match_star: "Match ''*'' name = Some (CHR ''/'' \<notin> set name)"
  by (subst Match.simps) (simp add: scanChunk_def)

definition plain :: "string \<Rightarrow> bool" where
  "plain s \<longleftrightarrow> list_all (\<lambda>c. c \<noteq> CHR ''*'' \<and> c \<noteq> CHR ''?'' \<and> c \<noteq> CHR ''['' \<and> c \<noteq> CHR 0x5C) s"

lemma match_loop_failed: "plain chunk \<Longrightarrow> match_loop chunk s True = Some None"
proof (induction chunk)
  case (Cons c chunk)
  then show ?case by (subst match_loop.simps) (simp add: plain_def Let_def)
qed (subst match_loop.simps, simp)

lemma match_loop_plain:
  "plain chunk \<Longrightarrow> match_loop chunk s False =
     Some (if take (length chunk) s = chunk then Some (drop (length chunk) s) else None)"
proof (induction chunk arbitrary: s)
  case Nil
  then show ?case by (subst match_loop.simps) simp
next
  case IH: (Cons c chunk)
  show ?case
  proof (cases s)
    case Nil
    then show ?thesis
      using IH.prems match_loop_failed [of chunk s] by (subst match_loop.simps) (simp add: plain_def Let_def)
  next
    case (Cons d t)
    then show ?thesis
      using IH.prems IH.IH [of t] match_loop_failed [of chunk t]
      by (cases "c = d"; subst match_loop.simps) (auto simp: plain_def Let_def)
  qed
qed

lemma scan_plain: "plain p \<Longrightarrow> scan_rest p r = (p, [])"
  by (induction p r rule: scan_rest.induct) (simp_all add: plain_def Let_def)

lemma Match_plain:
  assumes "plain pattern"
  shows "Match pattern name = Some (name = pattern)"
proof (cases "pattern = []")
  case True
  then show ?thesis by (subst Match.simps) auto
next
  case False
  then have "dropWhile (\<lambda>c. c = CHR ''*'') pattern = pattern"
    using assms by (cases pattern) (simp_all add: plain_def)
  then have s: "scanChunk pattern = (False, pattern, [])"
    using scan_plain [OF assms] by (simp add: scanChunk_def)
  have m: "matchChunk pattern name =
      Some (if take (length pattern) name = pattern then Some (drop (length pattern) name) else None)"
    using assms by (simp add: matchChunk_def match_loop_plain)
  have c: "check_rest [] = Some False" "Match [] t = Some (t = [])" for t
    by (subst check_rest.simps, simp) (subst Match.simps, simp)
  have "name = pattern \<longleftrightarrow> take (length pattern) name = pattern \<and> drop (length pattern) name = []"
    by auto
  then show ?thesis
    using False by (subst Match.simps) (simp add: s m c)
qed

end
