(* ===== verification/Monitor.thy ===== *)
theory Monitor
  imports Path_Match Client Server
begin

text \<open>
  The monitoring servers: \<^verbatim>\<open>proxy/redis_server.go\<close>, whose command handler answers with a
  sequence of writes to the connection, and \<^verbatim>\<open>proxy/http_server.go\<close>, whose handler collects the
  statistics of all sessions. The RESP connection is a third-party type; its writes are
  recorded as the calls made. The JSON encoder only prints the collected map and is left out.
  The lemmas show that every command is answered by exactly one complete reply, that \<^verbatim>\<open>KEYS\<close>
  selects keys by the pattern, and that statistics are filed under the right stream.
\<close>

section \<open>Servers\<close>

record RedisServer =
  r_addr :: string
  r_serving :: bool
  r_ln :: socket

definition NewRedisServer :: "string \<Rightarrow> RedisServer" where
  "NewRedisServer addr = \<lparr>r_addr = addr, r_serving = False, r_ln = NoSocket\<rparr>"

text \<open>The result of listening is an argument: an error, or the bound address.\<close>

definition RedisStart :: "'e + string \<Rightarrow> RedisServer \<Rightarrow> 'e option \<times> RedisServer" where
  "RedisStart listen s = (case listen of
     Inl e \<Rightarrow> (Some e, s)
   | Inr addr \<Rightarrow> (None, s\<lparr>r_ln := OpenSocket, r_addr := addr, r_serving := True\<rparr>))"

definition RedisStop :: "RedisServer \<Rightarrow> RedisServer" where
  "RedisStop s = s\<lparr>r_serving := False, r_ln := close_socket (r_ln s)\<rparr>"

definition RedisAddr :: "RedisServer \<Rightarrow> string" where
  "RedisAddr s = r_addr s"

record HTTPServer =
  h_addr :: string
  h_certFile :: string
  h_keyFile :: string
  h_serving :: bool
  h_ln :: socket
  h_tls :: bool

definition NewHTTPServer :: "string \<Rightarrow> string \<Rightarrow> string \<Rightarrow> HTTPServer" where
  "NewHTTPServer addr certFile keyFile =
     \<lparr>h_addr = addr, h_certFile = certFile, h_keyFile = keyFile, h_serving = False, h_ln = NoSocket,
      h_tls = False\<rparr>"

definition HTTPStart :: "'e + string \<Rightarrow> HTTPServer \<Rightarrow> 'e option \<times> HTTPServer" where
  "HTTPStart listen s = (case listen of
     Inl e \<Rightarrow> (Some e, s)
   | Inr addr \<Rightarrow> (None, s\<lparr>h_ln := OpenSocket, h_addr := addr, h_serving := True,
       h_tls := (h_certFile s \<noteq> '''' \<and> h_keyFile s \<noteq> '''')\<rparr>))"

definition HTTPStop :: "HTTPServer \<Rightarrow> HTTPServer" where
  "HTTPStop s = s\<lparr>h_serving := False, h_ln := close_socket (h_ln s)\<rparr>"

definition HTTPAddr :: "HTTPServer \<Rightarrow> string" where
  "HTTPAddr s = h_addr s"

section \<open>Redis commands\<close>

datatype conn_write = WriteError string | WriteString string | WriteArray nat | WriteBulkString string | CloseConn

text \<open>
  A daemon as a command sees it: its sessions, with the order in which the loop over the Go
  map visits the IDs.
\<close>

type_synonym 'enc pep_view = "u16 list \<times> (u16 \<rightharpoonup> 'enc Session)"

definition matchPattern :: "string \<Rightarrow> string \<Rightarrow> bool" where
  "matchPattern pattern key = (Match pattern key = Some True)"

definition activeStreamsKey :: string where
  "activeStreamsKey = ''tcp-pep:active_streams''"

definition session_prefix :: string where
  "session_prefix = ''tcp-pep:session:''"

definition sessKey :: "u16 \<Rightarrow> string" where
  "sessKey sid = session_prefix @ nat_dec (unat sid)"

definition array_reply :: "string list \<Rightarrow> conn_write list" where
  "array_reply xs = WriteArray (length xs) # map WriteBulkString xs"

definition keys_cmd :: "string \<Rightarrow> 'enc pep_view list \<Rightarrow> conn_write list" where
  "keys_cmd pattern peps =
     array_reply ((if matchPattern pattern activeStreamsKey then [activeStreamsKey] else [])
       @ concat (map (\<lambda>p. filter (matchPattern pattern) (map sessKey (fst p))) peps))"

definition smembers_cmd :: "string \<Rightarrow> 'enc pep_view list \<Rightarrow> conn_write list" where
  "smembers_cmd key peps =
     (if key \<noteq> activeStreamsKey then [WriteArray 0]
      else array_reply (concat (map (\<lambda>p. map (\<lambda>sid. nat_dec (unat sid)) (fst p)) peps)))"

fun find_session :: "u16 \<Rightarrow> 'enc pep_view list \<Rightarrow> 'enc Session option" where
  "find_session sid [] = None"
| "find_session sid (p # ps) = (case snd p sid of Some s \<Rightarrow> Some s | None \<Rightarrow> find_session sid ps)"

definition stats_pairs :: "SessionStats \<Rightarrow> (string \<times> string) list" where
  "stats_pairs st =
     [(''stream_id'', nat_dec (unat (st_StreamID st))),
      (''mode'', st_Mode st),
      (''target_addr'', st_TargetAddr st),
      (''cur_m'', Itoa (st_CurM st)),
      (''fec_k'', Itoa (st_FEC_K st)),
      (''fec_m'', Itoa (st_FEC_M st)),
      (''tx_bytes'', nat_dec (unat (st_TxBytes st))),
      (''rx_bytes'', nat_dec (unat (st_RxBytes st))),
      (''tx_packets'', nat_dec (unat (st_TxPackets st))),
      (''rx_packets'', nat_dec (unat (st_RxPackets st))),
      (''losses'', nat_dec (unat (st_Losses st))),
      (''tx_retransmissions'', nat_dec (unat (st_TxRetransmissions st))),
      (''consecutive_ok'', Itoa (st_ConsecutiveOk st)),
      (''last_active'', st_LastActive st)]"

definition hgetall_cmd ::
  "('enc Session \<Rightarrow> string option) \<Rightarrow> (int \<Rightarrow> string) \<Rightarrow> string \<Rightarrow> 'enc pep_view list \<Rightarrow> conn_write list" where
  "hgetall_cmd remoteAddr rfc3339 key peps =
     (if take (length session_prefix) key \<noteq> session_prefix then [WriteArray 0]
      else case Atoi (drop (length session_prefix) key) of
          None \<Rightarrow> [WriteError ''ERR invalid stream ID in key'']
        | Some v \<Rightarrow>
            if v < 0 \<or> v > 65535 then [WriteError ''ERR invalid stream ID range'']
            else case find_session (of_int v) peps of
                None \<Rightarrow> [WriteArray 0]
              | Some s \<Rightarrow>
                  WriteArray 28 # concat (map (\<lambda>(f, x). [WriteBulkString f, WriteBulkString x])
                    (stats_pairs (GetMonitorStats (remoteAddr s) rfc3339 s))))"

definition handleCommand ::
  "('enc Session \<Rightarrow> string option) \<Rightarrow> (int \<Rightarrow> string) \<Rightarrow> string list \<Rightarrow> 'enc pep_view list \<Rightarrow> conn_write list" where
  "handleCommand remoteAddr rfc3339 args peps =
     (case args of
        [] \<Rightarrow> []
      | cmd # rest \<Rightarrow>
          if lower_is cmd ''ping'' then [WriteString ''PONG'']
          else if lower_is cmd ''quit'' then [WriteString ''OK'', CloseConn]
          else if lower_is cmd ''keys'' then
            (if rest = [] then [WriteError ''ERR wrong number of arguments for 'keys' command'']
             else keys_cmd (hd rest) peps)
          else if lower_is cmd ''smembers'' then
            (if rest = [] then [WriteError ''ERR wrong number of arguments for 'smembers' command'']
             else smembers_cmd (hd rest) peps)
          else if lower_is cmd ''hgetall'' then
            (if rest = [] then [WriteError ''ERR wrong number of arguments for 'hgetall' command'']
             else hgetall_cmd remoteAddr rfc3339 (hd rest) peps)
          else [WriteError (''ERR unknown command '' @ [CHR 0x27] @ cmd @ [CHR 0x27])])"

section \<open>HTTP\<close>

datatype http_reply = MethodNotAllowed | JsonStats "u16 \<rightharpoonup> SessionStats"

definition collect_one ::
  "('enc Session \<Rightarrow> string option) \<Rightarrow> (int \<Rightarrow> string) \<Rightarrow> 'enc pep_view \<Rightarrow> (u16 \<rightharpoonup> SessionStats) \<Rightarrow> (u16 \<rightharpoonup> SessionStats)"
where
  "collect_one remoteAddr rfc3339 pep allStats =
     fold (\<lambda>sid m. case snd pep sid of None \<Rightarrow> m
       | Some s \<Rightarrow> m(sid \<mapsto> GetMonitorStats (remoteAddr s) rfc3339 s)) (fst pep) allStats"

definition handleStats ::
  "('enc Session \<Rightarrow> string option) \<Rightarrow> (int \<Rightarrow> string) \<Rightarrow> string \<Rightarrow> 'enc pep_view list \<Rightarrow> http_reply" where
  "handleStats remoteAddr rfc3339 method peps =
     (if method \<noteq> ''GET'' then MethodNotAllowed
      else JsonStats (fold (collect_one remoteAddr rfc3339) peps Map.empty))"

section \<open>Replies\<close>

text \<open>One complete reply: a single value, or an array header with that many elements.\<close>

fun one_reply :: "conn_write list \<Rightarrow> bool" where
  "one_reply [WriteError _] = True"
| "one_reply [WriteString _] = True"
| "one_reply [WriteString _, CloseConn] = True"
| "one_reply (WriteArray n # ws) = (length ws = n \<and> list_all (\<lambda>w. \<exists>s. w = WriteBulkString s) ws)"
| "one_reply _ = False"

lemma one_reply_array: "one_reply (array_reply xs)"
  by (induction xs) (simp_all add: array_reply_def)

lemma hgetall_one_reply: "one_reply (hgetall_cmd ra rfc key peps)"
  by (simp add: hgetall_cmd_def stats_pairs_def split: option.splits)

text \<open>A view visits each session of its daemon once.\<close>

definition complete_view :: "'enc pep_view \<Rightarrow> bool" where
  "complete_view p \<longleftrightarrow> distinct (fst p) \<and> set (fst p) = dom (snd p)"

lemma nat_dec_plain: "CHR ''/'' \<notin> set (nat_dec n)"
  using nat_dec_digits [of "CHR ''/''" n] by (auto simp: is_digit_def)

lemma sessKey_no_slash: "CHR ''/'' \<notin> set (sessKey sid)"
  by (simp add: sessKey_def session_prefix_def nat_dec_plain)

lemma sessKey_inj: "sessKey a = sessKey b \<longleftrightarrow> a = b"
  by (auto simp: sessKey_def word_unat_eq_iff dest: nat_dec_inj)

text \<open>What the HTTP handler collects of one daemon.\<close>

definition stats_of ::
  "('enc Session \<Rightarrow> string option) \<Rightarrow> (int \<Rightarrow> string) \<Rightarrow> 'enc pep_view \<Rightarrow> (u16 \<rightharpoonup> SessionStats)" where
  "stats_of ra rfc pep = (\<lambda>sid. map_option (\<lambda>s. GetMonitorStats (ra s) rfc s) (snd pep sid))"

lemma collect_fold:
  "fold (\<lambda>sid m. case tab sid of None \<Rightarrow> m | Some s \<Rightarrow> m(sid \<mapsto> f s)) ids m =
     m ++ (\<lambda>sid. if sid \<in> set ids then map_option f (tab sid) else None)"
  by (induction ids arbitrary: m) (auto simp: fun_eq_iff map_add_def split: option.splits)

lemma collect_one_eq: "complete_view pep \<Longrightarrow> collect_one ra rfc pep m = m ++ stats_of ra rfc pep"
  unfolding collect_one_def collect_fold
  by (rule arg_cong [where f = "(++) m"]) (auto simp: complete_view_def stats_of_def fun_eq_iff domIff)

lemma handleStats_eq:
  "list_all complete_view peps \<Longrightarrow>
     handleStats ra rfc ''GET'' peps = JsonStats (fold (\<lambda>p m. m ++ stats_of ra rfc p) peps Map.empty)"
proof -
  have "list_all complete_view peps \<Longrightarrow> fold (collect_one ra rfc) peps m = fold (\<lambda>p m. m ++ stats_of ra rfc p) peps m" for m
    by (induction peps arbitrary: m) (simp_all add: collect_one_eq)
  then show "list_all complete_view peps \<Longrightarrow> ?thesis" by (simp add: handleStats_def)
qed

section \<open>Properties of the monitors\<close>

text \<open>
  C37: every non-empty Redis command, known or not, with any arguments, is answered by exactly
  one complete reply: the element count announced by an array header is the number of bulk
  strings that follow, also for the literal 28 of HGETALL.
\<close>
theorem command_gets_one_reply: "one_reply (handleCommand ra rfc (cmd # args) peps)"
  by (simp add: handleCommand_def keys_cmd_def smembers_cmd_def one_reply_array hgetall_one_reply)



text \<open>
  C39: the HTTP handler over a reachable server answers a GET with exactly one record per
  registered session, which is that session's statistics and carries the stream ID it is
  filed under.
\<close>
theorem http_stats_complete:
  assumes "reach (server_init rs k mx parity) (server_step rs) y"
    and "complete_view (ids, ServerGetSessions (sv y))"
  shows "\<exists>m. handleStats ra rfc ''GET'' [(ids, ServerGetSessions (sv y))] = JsonStats m
     \<and> dom m = dom (s_sessions (sv y))
     \<and> (\<forall>sid s. ServerGetSessions (sv y) sid = Some s \<longrightarrow>
          m sid = Some (GetMonitorStats (ra s) rfc s) \<and> st_StreamID (GetMonitorStats (ra s) rfc s) = sid)"
proof -
  have "sdaemon_inv rs k mx parity (sv y)"
    using server.reach_inv [OF assms(1)] by (simp add: server_inv_def)
  note own = server_pep.stats_id [OF this]
  let ?m = "stats_of ra rfc (ids, ServerGetSessions (sv y))"
  have "handleStats ra rfc ''GET'' [(ids, ServerGetSessions (sv y))] = JsonStats ?m"
    using handleStats_eq [of "[(ids, ServerGetSessions (sv y))]"] assms(2) by simp
  moreover have "dom ?m = dom (s_sessions (sv y))"
    by (auto simp: stats_of_def ServerGetSessions_def snapshot_def domIff)
  ultimately show ?thesis using own by (intro exI [of _ ?m]) (simp add: stats_of_def)
qed

theorem http_stats_complete_witness:
  "\<exists>y m. reach (server_init xor_rs 2 1 xor_parity) (server_step xor_rs) y
     \<and> handleStats (\<lambda>s. None) (\<lambda>t. []) ''GET'' [([5], ServerGetSessions (sv y))] = JsonStats m
     \<and> dom m = {5} \<and> st_StreamID (the (m 5)) = 5"
proof -
  obtain y where y: "reach (server_init xor_rs 2 1 xor_parity) (server_step xor_rs) y" "s_sessions (sv y) = [5 \<mapsto> 0]"
    using sample_server_run by blast
  then have v: "complete_view ([5], ServerGetSessions (sv y))"
    by (auto simp: complete_view_def ServerGetSessions_def snapshot_def split: if_splits)
  have s: "ServerGetSessions (sv y) 5 = Some (sess (s_objs (sv y) ! 0))"
    using y(2) by (simp add: ServerGetSessions_def snapshot_def)
  from http_stats_complete [OF y(1) v, of "\<lambda>s. None" "\<lambda>t. []"] y s show ?thesis by fastforce
qed

text \<open>\<^verbatim>\<open>KEYS\<close> with the pattern \<open>*\<close> lists every key once; a pattern without special characters selects by equality.\<close>

lemma keys_star:
  "keys_cmd ''*'' peps = array_reply (activeStreamsKey # concat (map (\<lambda>p. map sessKey (fst p)) peps))"
proof -
  have "matchPattern ''*'' (sessKey sid)" "matchPattern ''*'' activeStreamsKey" for sid
    by (simp_all add: matchPattern_def Match_star sessKey_no_slash activeStreamsKey_def)
  then show ?thesis by (simp add: keys_cmd_def filter_map comp_def)
qed

lemma keys_plain:
  "plain pattern \<Longrightarrow> matchPattern pattern key \<longleftrightarrow> key = pattern"
  by (simp add: matchPattern_def Match_plain)

end
