(* ===== verification/Run.thy ===== *)
theory Run
  imports Shutdown Monitor
begin

text \<open>
  The command of \<^verbatim>\<open>cmd/main.go\<close>: start-up from the parsed flags, with every error path of
  \<^verbatim>\<open>run\<close>; the signal loop, which reloads the routing table on \<^verbatim>\<open>SIGHUP\<close>; and the deferred
  calls that stop the monitors and the daemon when another signal arrives. The goroutines of
  the daemon interleave with all of it. The lemmas show that the daemon of a running process
  is a run of its own machine, so that everything proved of it applies, that the routing
  table in force always comes from a file accepted as a whole, and that a process that has
  returned has stopped everything.
\<close>

section \<open>Flags and environment\<close>

record run_flags =
  f_mode :: string
  f_listen :: string
  f_routes :: string
  f_mtu :: int
  f_bandwidth :: int
  f_fecK :: int
  f_fecM :: int
  f_idleTimeoutSec :: int
  f_redisAddr :: string
  f_httpAddr :: string
  f_httpCert :: string
  f_httpKey :: string

definition default_flags :: run_flags where
  "default_flags = \<lparr>f_mode = ''client'', f_listen = '':10080'', f_routes = ''routes.yaml'', f_mtu = 1200,
     f_bandwidth = 128000, f_fecK = 10, f_fecM = 3, f_idleTimeoutSec = 300, f_redisAddr = '':6379'',
     f_httpAddr = '':8080'', f_httpCert = '''', f_httpKey = ''''\<rparr>"

text \<open>A \<^verbatim>\<open>time.Duration\<close> is an int64 number of nanoseconds, so the product wraps.\<close>

definition idle_duration :: "int \<Rightarrow> int" where
  "idle_duration sec = sint (of_int sec * 1000000000 :: u64)"

text \<open>What the operating system answers during start-up; \<open>None\<close> is success.\<close>

record ('e, 're) run_env =
  e_readFile :: "'re + bytes"
  e_resolveTCP :: "'e option"
  e_listenTCP :: "'e option"
  e_resolveUDP :: "'e option"
  e_listenUDP :: "'e option"
  e_redisListen :: "'e + string"
  e_httpListen :: "'e + string"

datatype ('e, 're, 'ye) run_error =
    RoutesFailed "('re, 'ye) load_error"
  | ClientStartFailed 'e
  | ServerStartFailed 'e
  | InvalidMode string

section \<open>The process\<close>

datatype 'enc pep = ClientDaemon "'enc client_sys" | ServerDaemon "'enc server_sys"

text \<open>Serving signals, and one control point per deferred call, in the order they run.\<close>

datatype main_pc = Serving | StopHTTP | StopRedis | StopPEP | StopSessions | CancelRoot | RunReturned

record 'enc process =
  pep :: "'enc pep"
  redis :: "RedisServer option"
  http :: "HTTPServer option"
  rootCancelled :: bool
  main :: main_pc

definition start_redis :: "run_flags \<Rightarrow> 'e + string \<Rightarrow> RedisServer option" where
  "start_redis f listen =
     (if f_redisAddr f = '''' then None
      else case RedisStart listen (NewRedisServer (f_redisAddr f)) of
          (Some _, _) \<Rightarrow> None
        | (None, s) \<Rightarrow> Some s)"

definition start_http :: "run_flags \<Rightarrow> 'e + string \<Rightarrow> HTTPServer option" where
  "start_http f listen =
     (if f_httpAddr f = '''' then None
      else case HTTPStart listen (NewHTTPServer (f_httpAddr f) (f_httpCert f) (f_httpKey f)) of
          (Some _, _) \<Rightarrow> None
        | (None, s) \<Rightarrow> Some s)"

definition start_pep ::
  "(bytes \<Rightarrow> 'ye + Config) \<Rightarrow> run_flags \<Rightarrow> ('e, 're) run_env \<Rightarrow> ('e, 're, 'ye) run_error + 'enc pep" where
  "start_pep yaml f e =
     (if f_mode f = ''client'' then
        (case LoadConfig yaml (e_readFile e) of
           Inl err \<Rightarrow> Inl (RoutesFailed err)
         | Inr router \<Rightarrow>
             (case ClientStart (e_resolveTCP e) (e_listenTCP e) (e_resolveUDP e) (e_listenUDP e)
                 (NewClientPEP False (f_listen f) router (f_mtu f) (f_bandwidth f) (f_fecK f) (f_fecM f)
                   (idle_duration (f_idleTimeoutSec f))) of
                (Some err, _) \<Rightarrow> Inl (ClientStartFailed err)
              | (None, c) \<Rightarrow> Inr (ClientDaemon (client_start c))))
      else if f_mode f = ''server'' then
        (case ServerStart (e_resolveUDP e) (e_listenUDP e)
            (NewServerPEP False (f_listen f) (f_mtu f) (f_bandwidth f) (f_fecK f) (f_fecM f)
              (idle_duration (f_idleTimeoutSec f))) of
           (Some err, _) \<Rightarrow> Inl (ServerStartFailed err)
         | (None, s) \<Rightarrow> Inr (ServerDaemon (server_start s)))
      else Inl (InvalidMode (f_mode f)))"

definition run_start ::
  "(bytes \<Rightarrow> 'ye + Config) \<Rightarrow> run_flags \<Rightarrow> ('e, 're) run_env \<Rightarrow> ('e, 're, 'ye) run_error + 'enc process" where
  "run_start yaml f e =
     (case start_pep yaml f e of
        Inl err \<Rightarrow> Inl err
      | Inr d \<Rightarrow> Inr \<lparr>pep = d, redis = start_redis f (e_redisListen e), http = start_http f (e_httpListen e),
          rootCancelled = False, main = Serving\<rparr>)"

section \<open>Signals\<close>

datatype signal = SIGINT | SIGTERM | SIGHUP

definition on_signal ::
  "(bytes \<Rightarrow> 'ye + Config) \<Rightarrow> 're + bytes \<Rightarrow> signal \<Rightarrow> 'enc process \<Rightarrow> 'enc process" where
  "on_signal yaml file sig p =
     (if sig = SIGHUP then
        (case pep p of
           ServerDaemon _ \<Rightarrow> p
         | ClientDaemon y \<Rightarrow>
             (case LoadConfig yaml file of
                Inl _ \<Rightarrow> p
              | Inr newRouter \<Rightarrow> p\<lparr>pep := ClientDaemon (y\<lparr>cl := UpdateRouter newRouter (cl y)\<rparr>)\<rparr>))
      else p\<lparr>main := StopHTTP\<rparr>)"

section \<open>Deferred calls\<close>

definition stop_http :: "'enc process \<Rightarrow> 'enc process" where
  "stop_http p = p\<lparr>http := map_option HTTPStop (http p), main := StopRedis\<rparr>"

definition stop_redis :: "'enc process \<Rightarrow> 'enc process" where
  "stop_redis p = p\<lparr>redis := map_option RedisStop (redis p), main := StopPEP\<rparr>"

text \<open>The daemon's \<^verbatim>\<open>Stop\<close>, split where it releases its lock between the two critical sections.\<close>

definition stop_pep :: "'enc process \<Rightarrow> 'enc process" where
  "stop_pep p =
     (case pep p of
        ClientDaemon y \<Rightarrow>
          if c_stopped (cl y) then p\<lparr>main := CancelRoot\<rparr>
          else p\<lparr>pep := ClientDaemon (y\<lparr>cl := stop_begin (cl y), stopping := True\<rparr>), main := StopSessions\<rparr>
      | ServerDaemon y \<Rightarrow>
          if s_stopped (sv y) then p\<lparr>main := CancelRoot\<rparr>
          else p\<lparr>pep := ServerDaemon (y\<lparr>sv := server_stop_begin (sv y), sv_stopping := True\<rparr>), main := StopSessions\<rparr>)"

definition table_ids :: "'enc pep \<Rightarrow> u16 set" where
  "table_ids d = (case d of ClientDaemon y \<Rightarrow> dom (c_sessions (cl y)) | ServerDaemon y \<Rightarrow> dom (s_sessions (sv y)))"

definition stop_table :: "u16 list \<Rightarrow> 'enc process \<Rightarrow> 'enc process" where
  "stop_table ids p =
     p\<lparr>main := CancelRoot, pep := (case pep p of
        ClientDaemon y \<Rightarrow> ClientDaemon (y\<lparr>cl := stop_sessions ids (cl y), stopping := False\<rparr>)
      | ServerDaemon y \<Rightarrow> ServerDaemon (y\<lparr>sv := server_stop_sessions ids (sv y), sv_stopping := False\<rparr>))\<rparr>"

definition cancel_root :: "'enc process \<Rightarrow> 'enc process" where
  "cancel_root p = p\<lparr>rootCancelled := True, main := RunReturned\<rparr>"

section \<open>The process with its goroutines\<close>

text \<open>
  A goroutine of the daemon moves as in the daemon's own machine; routing updates and \<^verbatim>\<open>Stop\<close>
  are left to the main goroutine.
\<close>

inductive run_step ::
  "(bytes \<Rightarrow> 'ye + Config) \<Rightarrow> ('enc, 'e) reedsolomon \<Rightarrow> 'enc process \<Rightarrow> 'enc process \<Rightarrow> bool"
  for yaml :: "bytes \<Rightarrow> 'ye + Config" and rs :: "('enc, 'e) reedsolomon" where
  client_goroutine: "pep p = ClientDaemon y \<Longrightarrow> client_step rs y y' \<Longrightarrow>
     c_router (cl y') = c_router (cl y) \<Longrightarrow> c_stopped (cl y') = c_stopped (cl y) \<Longrightarrow> stopping y' = stopping y \<Longrightarrow>
     run_step yaml rs p (p\<lparr>pep := ClientDaemon y'\<rparr>)"
| server_goroutine: "pep p = ServerDaemon y \<Longrightarrow> server_step rs y y' \<Longrightarrow>
     s_stopped (sv y') = s_stopped (sv y) \<Longrightarrow> sv_stopping y' = sv_stopping y \<Longrightarrow>
     run_step yaml rs p (p\<lparr>pep := ServerDaemon y'\<rparr>)"
| signalled: "main p = Serving \<Longrightarrow> run_step yaml rs p (on_signal yaml (file :: unit + bytes) sig p)"
| http_stopped: "main p = StopHTTP \<Longrightarrow> run_step yaml rs p (stop_http p)"
| redis_stopped: "main p = StopRedis \<Longrightarrow> run_step yaml rs p (stop_redis p)"
| pep_stopped: "main p = StopPEP \<Longrightarrow> run_step yaml rs p (stop_pep p)"
| table_stopped: "main p = StopSessions \<Longrightarrow> distinct ids \<Longrightarrow> set ids = table_ids (pep p) \<Longrightarrow>
     run_step yaml rs p (stop_table ids p)"
| root_cancelled: "main p = CancelRoot \<Longrightarrow> run_step yaml rs p (cancel_root p)"

definition run_init ::
  "(bytes \<Rightarrow> 'ye + Config) \<Rightarrow> ('enc, 'e) reedsolomon \<Rightarrow> nat \<Rightarrow> nat \<Rightarrow> (bytes list \<Rightarrow> bytes list) \<Rightarrow> 'enc process \<Rightarrow> bool"
where
  "run_init yaml rs k mx parity p \<longleftrightarrow> rs_family rs k mx parity \<and> 0 < k
     \<and> (\<exists>f (e :: (unit, unit) run_env). f_fecK f = int k \<and> f_fecM f = int mx \<and> 36 < f_mtu f
         \<and> run_start yaml f e = Inr p)"

section \<open>The daemon of a process\<close>

text \<open>A routing table that some file of routes, accepted as a whole, gives.\<close>

definition from_file :: "(bytes \<Rightarrow> 'ye + Config) \<Rightarrow> Router \<Rightarrow> bool" where
  "from_file yaml r \<longleftrightarrow>
     (\<exists>contents cfg. yaml contents = Inr cfg \<and> load_routes (Routes cfg) empty_router = Inr r)"

lemma LoadConfig_from_file: "LoadConfig yaml file = Inr r \<Longrightarrow> from_file yaml r"
  by (auto simp: LoadConfig_def from_file_def split: sum.splits)

text \<open>Whether \<^verbatim>\<open>Stop\<close> has begun, and whether it is between its critical sections, by control point.\<close>

definition pc_stopped :: "main_pc \<Rightarrow> bool" where
  "pc_stopped m \<longleftrightarrow> m \<in> {StopSessions, CancelRoot, RunReturned}"

definition monitors_stopped :: "'enc process \<Rightarrow> bool" where
  "monitors_stopped p \<longleftrightarrow>
     (main p \<notin> {Serving, StopHTTP} \<longrightarrow> (\<forall>h. http p = Some h \<longrightarrow> \<not> h_serving h \<and> h_ln h = ClosedSocket))
     \<and> (main p \<notin> {Serving, StopHTTP, StopRedis} \<longrightarrow> (\<forall>r. redis p = Some r \<longrightarrow> \<not> r_serving r \<and> r_ln r = ClosedSocket))
     \<and> (\<forall>h. http p = Some h \<longrightarrow> h_ln h \<noteq> NoSocket) \<and> (\<forall>r. redis p = Some r \<longrightarrow> r_ln r \<noteq> NoSocket)
     \<and> (main p = RunReturned \<longrightarrow> rootCancelled p)"

definition daemon_runs ::
  "(bytes \<Rightarrow> 'ye + Config) \<Rightarrow> ('enc, 'e) reedsolomon \<Rightarrow> nat \<Rightarrow> nat \<Rightarrow> (bytes list \<Rightarrow> bytes list) \<Rightarrow> 'enc process \<Rightarrow> bool"
where
  "daemon_runs yaml rs k mx parity p \<longleftrightarrow>
     (case pep p of
        ClientDaemon y \<Rightarrow> reach (client_init rs k mx parity) (client_step rs) y \<and> from_file yaml (c_router (cl y))
          \<and> c_stopped (cl y) = pc_stopped (main p) \<and> stopping y = (main p = StopSessions)
      | ServerDaemon y \<Rightarrow> reach (server_init rs k mx parity) (server_step rs) y
          \<and> s_stopped (sv y) = pc_stopped (main p) \<and> sv_stopping y = (main p = StopSessions))"

lemma ClientStart_ok:
  "ClientStart a b c d x = (None, y) \<longleftrightarrow> a = None \<and> b = None \<and> c = None \<and> d = None
     \<and> y = x\<lparr>c_tcpListener := OpenSocket, c_udpConn := OpenSocket\<rparr>"
  by (auto simp: ClientStart_def)

lemma ServerStart_ok:
  "ServerStart a b x = (None, y) \<longleftrightarrow> a = None \<and> b = None \<and> y = x\<lparr>s_udpConn := OpenSocket\<rparr>"
  by (auto simp: ServerStart_def)

lemma run_start_init:
  assumes "run_init yaml rs k mx parity p"
  shows "daemon_runs yaml rs k mx parity p"
proof -
  obtain f and e :: "(unit, unit) run_env" where i: "rs_family rs k mx parity" "0 < k" "f_fecK f = int k" "f_fecM f = int mx"
    "36 < f_mtu f" "run_start yaml f e = Inr p"
    using assms by (auto simp: run_init_def)
  then have s: "start_pep yaml f e = Inr (pep p)" "main p = Serving"
    by (auto simp: run_start_def split: sum.splits)
  show ?thesis
  proof (cases "pep p")
    case (ClientDaemon y)
    with s i(3,4) obtain router c where c: "LoadConfig yaml (e_readFile e) = Inr router" "y = client_start c"
      "ClientStart (e_resolveTCP e) (e_listenTCP e) (e_resolveUDP e) (e_listenUDP e) (NewClientPEP False (f_listen f) router (f_mtu f)
         (f_bandwidth f) (int k) (int mx) (idle_duration (f_idleTimeoutSec f))) = (None, c)"
      by (auto simp: start_pep_def split: if_splits sum.splits prod.splits option.splits)
    then have "e_resolveTCP e = None" "e_listenTCP e = None" "e_resolveUDP e = None" "e_listenUDP e = None"
      by (simp_all add: ClientStart_ok)
    with c i have "client_init rs k mx parity y" unfolding client_init_def by (simp only:) blast
    then have "reach (client_init rs k mx parity) (client_step rs) y" by (rule reach_init)
    then show ?thesis
      using c LoadConfig_from_file [OF c(1)] s ClientDaemon
      by (auto simp: daemon_runs_def pc_stopped_def client_start_def ClientStart_ok NewClientPEP_def)
  next
    case (ServerDaemon y)
    with s i(3,4) obtain c where c: "y = server_start c"
      "ServerStart (e_resolveUDP e) (e_listenUDP e) (NewServerPEP False (f_listen f) (f_mtu f)
         (f_bandwidth f) (int k) (int mx) (idle_duration (f_idleTimeoutSec f))) = (None, c)"
      by (auto simp: start_pep_def split: if_splits sum.splits prod.splits option.splits)
    then have "e_resolveUDP e = None" "e_listenUDP e = None"
      by (simp_all add: ServerStart_ok)
    with c i have "server_init rs k mx parity y" unfolding server_init_def by (simp only:) blast
    then have "reach (server_init rs k mx parity) (server_step rs) y" by (rule reach_init)
    then show ?thesis
      using c s ServerDaemon
      by (auto simp: daemon_runs_def pc_stopped_def server_start_def ServerStart_ok NewServerPEP_def)
  qed
qed

lemma signal_runs:
  assumes "daemon_runs yaml rs k mx parity p" and "main p = Serving"
  shows "daemon_runs yaml rs k mx parity (on_signal yaml file sig p)"
proof (cases "pep p")
  case (ClientDaemon y)
  then have r: "reach (client_init rs k mx parity) (client_step rs) y" using assms(1) by (simp add: daemon_runs_def)
  have "reach (client_init rs k mx parity) (client_step rs) (y\<lparr>cl := UpdateRouter n (cl y)\<rparr>)" for n
    by (rule reach_step [OF r client_step.update_router])
  then show ?thesis
    using assms ClientDaemon LoadConfig_from_file [of yaml]
    by (auto simp: on_signal_def daemon_runs_def pc_stopped_def UpdateRouter_def split: sum.splits)
qed (use assms in \<open>auto simp: on_signal_def daemon_runs_def pc_stopped_def\<close>)

lemma stop_pep_runs:
  assumes "daemon_runs yaml rs k mx parity p" and "main p = StopPEP"
  shows "daemon_runs yaml rs k mx parity (stop_pep p)"
proof (cases "pep p")
  case (ClientDaemon y)
  then have r: "reach (client_init rs k mx parity) (client_step rs) y" "\<not> c_stopped (cl y)"
    using assms by (auto simp: daemon_runs_def pc_stopped_def)
  from reach_step [OF r(1) client_step.stop_first [OF r(2)]] show ?thesis
    using assms ClientDaemon r(2) by (simp add: stop_pep_def daemon_runs_def pc_stopped_def stop_begin_def)
next
  case (ServerDaemon y)
  then have r: "reach (server_init rs k mx parity) (server_step rs) y" "\<not> s_stopped (sv y)"
    using assms by (auto simp: daemon_runs_def pc_stopped_def)
  from reach_step [OF r(1) server_step.stop_first [OF r(2)]] show ?thesis
    using assms ServerDaemon r(2) by (simp add: stop_pep_def daemon_runs_def pc_stopped_def server_stop_begin_def)
qed

lemma stop_table_runs:
  assumes "daemon_runs yaml rs k mx parity p" and "main p = StopSessions" and "distinct ids" and "set ids = table_ids (pep p)"
  shows "daemon_runs yaml rs k mx parity (stop_table ids p)"
proof (cases "pep p")
  case (ClientDaemon y)
  then have r: "reach (client_init rs k mx parity) (client_step rs) y" "stopping y" "set ids = dom (c_sessions (cl y))"
    using assms by (auto simp: daemon_runs_def table_ids_def)
  from reach_step [OF r(1) client_step.stop_last [OF r(2) assms(3) r(3)]] show ?thesis
    using assms(1,2) ClientDaemon by (simp add: stop_table_def daemon_runs_def pc_stopped_def stop_sessions_def)
next
  case (ServerDaemon y)
  then have r: "reach (server_init rs k mx parity) (server_step rs) y" "sv_stopping y" "set ids = dom (s_sessions (sv y))"
    using assms by (auto simp: daemon_runs_def table_ids_def)
  from reach_step [OF r(1) server_step.stop_last [OF r(2) assms(3) r(3)]] show ?thesis
    using assms(1,2) ServerDaemon by (simp add: stop_table_def daemon_runs_def pc_stopped_def server_stop_sessions_def)
qed

lemma run_step_runs: "run_step yaml rs p p' \<Longrightarrow> daemon_runs yaml rs k mx parity p \<Longrightarrow> daemon_runs yaml rs k mx parity p'"
proof (induction rule: run_step.induct)
  case (client_goroutine p y y')
  then have "reach (client_init rs k mx parity) (client_step rs) y'"
    by (auto simp: daemon_runs_def intro: reach_step)
  with client_goroutine show ?case by (simp add: daemon_runs_def)
next
  case (server_goroutine p y y')
  then have "reach (server_init rs k mx parity) (server_step rs) y'"
    by (auto simp: daemon_runs_def intro: reach_step)
  with server_goroutine show ?case by (simp add: daemon_runs_def)
next
  case (signalled p f sig)
  then show ?case by (intro signal_runs)
next
  case (pep_stopped p)
  then show ?case by (intro stop_pep_runs)
next
  case (table_stopped p ids)
  then show ?case by (intro stop_table_runs)
qed (simp_all add: stop_http_def stop_redis_def cancel_root_def daemon_runs_def pc_stopped_def split: pep.splits)

section \<open>The monitors of a process\<close>

lemma started_monitors:
  "start_redis f l = Some r \<Longrightarrow> r_ln r = OpenSocket" "start_http f l = Some h \<Longrightarrow> h_ln h = OpenSocket"
  by (auto simp: start_redis_def start_http_def RedisStart_def HTTPStart_def split: sum.splits if_splits)

lemma stopped_monitors [simp]:
  "\<not> r_serving (RedisStop r)" "r_ln (RedisStop r) = close_socket (r_ln r)"
  "\<not> h_serving (HTTPStop h)" "h_ln (HTTPStop h) = close_socket (h_ln h)"
  by (simp_all add: RedisStop_def HTTPStop_def)

lemma monitors_init: "run_init yaml rs k mx parity p \<Longrightarrow> monitors_stopped p"
proof -
  assume "run_init yaml rs k mx parity p"
  then obtain f and e :: "(unit, unit) run_env" where "run_start yaml f e = Inr p"
    by (auto simp: run_init_def)
  then obtain d where "p = \<lparr>pep = d, redis = start_redis f (e_redisListen e), http = start_http f (e_httpListen e),
      rootCancelled = False, main = Serving\<rparr>"
    by (cases "start_pep yaml f e :: (unit, unit, 'a) run_error + 'b pep") (auto simp: run_start_def)
  then show ?thesis
    using started_monitors [of f "e_redisListen e"] started_monitors [of f "e_httpListen e"]
    by (simp add: monitors_stopped_def)
qed

lemma monitors_step: "run_step yaml rs p p' \<Longrightarrow> monitors_stopped p \<Longrightarrow> monitors_stopped p'"
proof (induction rule: run_step.induct)
  case (signalled p f sig)
  then show ?case by (simp add: on_signal_def monitors_stopped_def split: pep.splits sum.splits)
next
  case (pep_stopped p)
  then show ?case by (simp add: stop_pep_def monitors_stopped_def split: pep.splits)
qed (auto simp: monitors_stopped_def stop_http_def stop_redis_def stop_table_def cancel_root_def close_socket_def)

definition run_inv ::
  "(bytes \<Rightarrow> 'ye + Config) \<Rightarrow> ('enc, 'e) reedsolomon \<Rightarrow> nat \<Rightarrow> nat \<Rightarrow> (bytes list \<Rightarrow> bytes list) \<Rightarrow> 'enc process \<Rightarrow> bool"
where
  "run_inv yaml rs k mx parity p \<longleftrightarrow> daemon_runs yaml rs k mx parity p \<and> monitors_stopped p"

interpretation run: invariant_of "run_init yaml rs k mx parity" "run_step yaml rs" "run_inv yaml rs k mx parity"
  for yaml rs k mx parity
  by unfold_locales (auto simp: run_inv_def intro: run_start_init run_step_runs monitors_init monitors_step)

section \<open>A run from start to return\<close>

definition sample_flags :: run_flags where
  "sample_flags = default_flags\<lparr>f_fecK := 2, f_fecM := 1, f_httpAddr := []\<rparr>"

definition sample_env :: "(unit, unit) run_env" where
  "sample_env = \<lparr>e_readFile = Inr [], e_resolveTCP = None, e_listenTCP = None, e_resolveUDP = None, e_listenUDP = None,
     e_redisListen = Inr ''127.0.0.1:6379'', e_httpListen = Inl ()\<rparr>"

definition sample_yaml :: "bytes \<Rightarrow> unit + Config" where
  "sample_yaml b = Inr \<lparr>Routes = []\<rparr>"

definition sample_pep :: "unit ClientPEP" where
  "sample_pep = (NewClientPEP False '':10080'' empty_router 1200 128000 2 1 (idle_duration 300))
     \<lparr>c_tcpListener := OpenSocket, c_udpConn := OpenSocket\<rparr>"

definition sample_redis :: RedisServer where
  "sample_redis = \<lparr>r_addr = ''127.0.0.1:6379'', r_serving = True, r_ln = OpenSocket\<rparr>"

definition sample_process :: "unit process" where
  "sample_process = \<lparr>pep = ClientDaemon (client_start sample_pep), redis = Some sample_redis, http = None,
     rootCancelled = False, main = Serving\<rparr>"

lemma sample_run_start: "run_start sample_yaml sample_flags sample_env = Inr sample_process"
  by (simp add: run_start_def start_pep_def sample_flags_def default_flags_def sample_env_def sample_yaml_def sample_process_def
      sample_pep_def sample_redis_def LoadConfig_def ClientStart_def start_redis_def start_http_def RedisStart_def NewRedisServer_def)

lemma sample_run_init: "run_init sample_yaml xor_rs 2 1 xor_parity sample_process"
  unfolding run_init_def
  by (intro conjI xor_rs_family exI [of _ sample_flags] exI [of _ sample_env] sample_run_start)
    (simp_all add: sample_flags_def default_flags_def)

lemma sample_run_returns:
  "\<exists>p y. reach (run_init sample_yaml xor_rs 2 1 xor_parity) (run_step sample_yaml xor_rs) p
     \<and> main p = RunReturned \<and> pep p = ClientDaemon y \<and> redis p = Some (RedisStop sample_redis)"
proof -
  let ?R = "reach (run_init sample_yaml xor_rs 2 1 xor_parity) (run_step sample_yaml xor_rs)"
  let ?y = "client_start sample_pep"
  let ?y1 = "?y\<lparr>cl := stop_begin (cl ?y), stopping := True\<rparr>"
  let ?y2 = "?y1\<lparr>cl := stop_sessions [] (cl ?y1), stopping := False\<rparr>"
  let ?P = "\<lambda>y r c m. \<lparr>pep = ClientDaemon y, redis = Some r, http = None, rootCancelled = c, main = m\<rparr>"
  let ?r = "RedisStop sample_redis"
  have "?R sample_process" using reach_init [of "run_init sample_yaml xor_rs 2 1 xor_parity", OF sample_run_init] .
  then have "?R (?P ?y sample_redis False Serving)" by (simp add: sample_process_def)
  from reach_step [OF this run_step.signalled [of _ _ _ "Inl ()" SIGTERM]]
  have "?R (?P ?y sample_redis False StopHTTP)" by (simp add: on_signal_def)
  from reach_step [OF this run_step.http_stopped] have "?R (?P ?y sample_redis False StopRedis)"
    by (simp add: stop_http_def)
  from reach_step [OF this run_step.redis_stopped] have "?R (?P ?y ?r False StopPEP)"
    by (simp add: stop_redis_def)
  moreover have "\<not> c_stopped (cl ?y)" by (simp add: client_start_def sample_pep_def NewClientPEP_def)
  ultimately have "?R (?P ?y1 ?r False StopSessions)"
    using reach_step [of "run_init sample_yaml xor_rs 2 1 xor_parity" "run_step sample_yaml xor_rs" "?P ?y ?r False StopPEP",
        OF _ run_step.pep_stopped] by (simp add: stop_pep_def)
  moreover have "table_ids (ClientDaemon ?y1) = {}"
    by (simp add: table_ids_def stop_begin_def client_start_def sample_pep_def NewClientPEP_def)
  ultimately have "?R (?P ?y2 ?r False CancelRoot)"
    using reach_step [of "run_init sample_yaml xor_rs 2 1 xor_parity" "run_step sample_yaml xor_rs" "?P ?y1 ?r False StopSessions",
        OF _ run_step.table_stopped [of _ "[]"]] by (simp add: stop_table_def)
  from reach_step [OF this run_step.root_cancelled] have "?R (?P ?y2 ?r True RunReturned)"
    by (simp add: cancel_root_def)
  then show ?thesis by force
qed

section \<open>Properties of the process\<close>

text \<open>
  C40: starting the process succeeds exactly when the mode is one of the two, the routes load
  (client only) and the daemon's sockets open; a monitor that cannot listen does not matter.
\<close>
theorem startup_succeeds_iff:
  "(\<exists>p :: 'enc process. run_start yaml f e = Inr p) \<longleftrightarrow>
     f_mode f = ''client'' \<and> (\<exists>r. LoadConfig yaml (e_readFile e) = Inr r)
       \<and> e_resolveTCP e = None \<and> e_listenTCP e = None \<and> e_resolveUDP e = None \<and> e_listenUDP e = None
     \<or> f_mode f = ''server'' \<and> e_resolveUDP e = None \<and> e_listenUDP e = None"
  by (cases "LoadConfig yaml (e_readFile e)"; cases "e_resolveTCP e"; cases "e_listenTCP e"; cases "e_resolveUDP e";
      cases "e_listenUDP e"; simp add: run_start_def start_pep_def ClientStart_def ServerStart_def)

text \<open>
  C9: in every reachable state of the process, through signals, reloads and shutdown, its daemon is
  in a reachable state of its own machine, and the client's routing table is the one given by
  a file whose routes were all accepted; a file that fails to load never replaces it in part.
\<close>
theorem process_runs_its_daemon:
  assumes "reach (run_init yaml rs k mx parity) (run_step yaml rs) p"
  shows "case pep p of
      ClientDaemon y \<Rightarrow> reach (client_init rs k mx parity) (client_step rs) y
        \<and> (\<exists>contents cfg. yaml contents = Inr cfg \<and> load_routes (Routes cfg) empty_router = Inr (c_router (cl y)))
    | ServerDaemon y \<Rightarrow> reach (server_init rs k mx parity) (server_step rs) y"
  using run.reach_inv [OF assms]
  by (auto simp: run_inv_def daemon_runs_def from_file_def split: pep.splits)

theorem process_runs_its_daemon_witness:
  "reach (client_init xor_rs 2 1 xor_parity) (client_step xor_rs) (client_start sample_pep)
     \<and> (\<exists>contents cfg. sample_yaml contents = Inr cfg
         \<and> load_routes (Routes cfg) empty_router = Inr (c_router (cl (client_start sample_pep))))"
proof -
  have d: "pep sample_process = ClientDaemon (client_start sample_pep)" by (simp add: sample_process_def)
  from process_runs_its_daemon [OF reach_init, OF sample_run_init] show ?thesis unfolding d by simp
qed

text \<open>
  C15: when \<^verbatim>\<open>run\<close> has returned, the monitors that were started no longer serve and their
  listeners are closed, the root context is cancelled, the daemon is stopped with its sockets
  closed, and the context of every session it ever created is cancelled, including sessions
  that handlers registered while it was stopping.
\<close>
theorem returned_is_stopped:
  assumes "reach (run_init yaml rs k mx parity) (run_step yaml rs) p" and "main p = RunReturned"
  shows "(\<forall>h. http p = Some h \<longrightarrow> \<not> h_serving h \<and> h_ln h = ClosedSocket)
     \<and> (\<forall>r. redis p = Some r \<longrightarrow> \<not> r_serving r \<and> r_ln r = ClosedSocket) \<and> rootCancelled p
     \<and> (case pep p of
          ClientDaemon y \<Rightarrow> c_stopped (cl y) \<and> c_tcpListener (cl y) = ClosedSocket \<and> c_udpConn (cl y) = ClosedSocket
            \<and> (\<forall>l \<in> set (c_objs (cl y)). ctxDone (sess l))
        | ServerDaemon y \<Rightarrow> s_stopped (sv y) \<and> s_udpConn (sv y) = ClosedSocket
            \<and> (\<forall>l \<in> set (s_objs (sv y)). ctxDone (sess l)))"
proof -
  have i: "daemon_runs yaml rs k mx parity p" "monitors_stopped p"
    using run.reach_inv [OF assms(1)] by (simp_all add: run_inv_def)
  show ?thesis
  proof (cases "pep p")
    case (ClientDaemon y)
    then have "reach (client_init rs k mx parity) (client_step rs) y" "c_stopped (cl y)"
      using i(1) assms(2) by (simp_all add: daemon_runs_def pc_stopped_def)
    with client_stop.reach_inv [of rs k mx parity y] ClientDaemon i(2) assms(2) show ?thesis
      by (simp add: client_halts_def all_done_def monitors_stopped_def)
  next
    case (ServerDaemon y)
    then have "reach (server_init rs k mx parity) (server_step rs) y" "s_stopped (sv y)"
      using i(1) assms(2) by (simp_all add: daemon_runs_def pc_stopped_def)
    with server_stop.reach_inv [of rs k mx parity y] ServerDaemon i(2) assms(2) show ?thesis
      by (simp add: server_halts_def all_done_def monitors_stopped_def)
  qed
qed

theorem returned_is_stopped_witness:
  "\<exists>p y. reach (run_init sample_yaml xor_rs 2 1 xor_parity) (run_step sample_yaml xor_rs) p \<and> main p = RunReturned
     \<and> pep p = ClientDaemon y \<and> c_udpConn (cl y) = ClosedSocket \<and> (\<exists>r. redis p = Some r \<and> \<not> r_serving r)"
proof -
  obtain p y where p: "reach (run_init sample_yaml xor_rs 2 1 xor_parity) (run_step sample_yaml xor_rs) p" "main p = RunReturned"
    "pep p = ClientDaemon y" "redis p = Some (RedisStop sample_redis)"
    using sample_run_returns by blast
  from returned_is_stopped [OF p(1,2)] p show ?thesis by auto
qed

end
