(* ===== verification/Spec2Isabelle.thy ===== *)
theory Spec2Isabelle
  imports Progress Origin Run
begin

text \<open>
  This development models and verifies \<^bold>\<open>tcp-pep-go\<close>, a performance-enhancing proxy that carries
  TCP streams over a lossy datagram link. A client daemon intercepts TCP connections, looks up
  the server daemon for the original destination, and relays the stream in FEC-protected
  datagrams; the server daemon dials the destination and relays the other side. Both keep one
  session per stream; a monitor shows the sessions over the Redis protocol and HTTP.

  \<^bold>\<open>Conventions.\<close> Go's fixed-width integers are words, \<^verbatim>\<open>int\<close> and durations (nanoseconds) are
  integers, with wrap-around written out where values can overflow; byte slices are lists of
  bytes, with \<open>None\<close> for \<^verbatim>\<open>nil\<close> where the code distinguishes it; structs are records, maps are
  partial functions, errors and panics are left injections of sum types. A critical section
  or an unshared stretch of code is a function on the state; goroutines and timers are the
  rules of step relations, so that every interleaving of these sections is a run. The current
  time is an argument of what reads the clock. Invariants go through the locale
  \<open>invariant_of\<close> of \<open>PEP_Prelude\<close>, interpreted once per machine and invariant.

  \<^bold>\<open>Theories.\<close>

  \<^item> \<open>PEP_Prelude\<close>: words, slices, decimal text, reachability, the invariant rule.
  \<^item> \<open>Protocol\<close> (\<^verbatim>\<open>protocol/header.go\<close>): packets, \<open>Marshal\<close>, \<open>Unmarshal\<close>; round trip and the exact
    error conditions.
  \<^item> \<open>FEC\<close> (\<^verbatim>\<open>fec/fec.go\<close>): the encoder cache, \<open>Encode\<close>, \<open>Reconstruct\<close>; any \<open>k\<close> shards recover a block,
    and the cache is invisible.
  \<^item> \<open>Shaper\<close> (\<^verbatim>\<open>shaper/shaper.go\<close>): the queue and the \<^verbatim>\<open>Run\<close> loop with a clock; order, pacing,
    absence of panics.
  \<^item> \<open>Pacing\<close> (\<^verbatim>\<open>NewSession\<close> in \<^verbatim>\<open>proxy/session.go\<close>): the float64 computations of the report timeout
    and the burst interval, with rounding.
  \<^item> \<open>Session_Base\<close>, \<open>Sender\<close>, \<open>Receiver\<close>, \<open>Session\<close> (\<^verbatim>\<open>proxy/session.go\<close>): the session's state; the read
    path, flushing, reports and NAKs; shard storage, decoding, the report and NAK timers, the
    write loop; and the life of a session, in which the read loop with its deferred shutdown,
    the goroutine that sends CLOSE, the demultiplexer and everything else interleave. The
    lemmas give each operation's effect, the sender's and receiver's invariants, the MTU
    bound, the absence of panics and the correctness of the shutdown.
  \<^item> \<open>Delivery\<close>, \<open>EndToEnd\<close>: two complete sessions, each running its whole life, and a network that
    loses, duplicates and reorders. Relative to the history of flushed blocks, \<open>Delivery\<close> says
    what each operation keeps of the sending and of the receiving end; \<open>EndToEnd\<close> composes the
    ends: in both directions what is written is a prefix of what is read, \<open>k\<close> shards of the next
    block suffice to extend it, and a NAK retransmits the shard it was sent for.
  \<^item> \<open>Progress\<close>: every shard of every flushed block stays queued or sent and buffered data keeps its
    timer, so from every state in which both ends are open all that was read can be delivered.
  \<^item> \<open>Net_Addr\<close>, \<open>Path_Match\<close>: the parts of Go's \<^verbatim>\<open>net\<close>, \<^verbatim>\<open>path\<close>, \<^verbatim>\<open>strings\<close> and \<^verbatim>\<open>strconv\<close> packages the
    program uses, modelled from the library.
  \<^item> \<open>Config\<close> (\<^verbatim>\<open>config/config.go\<close>): loading and looking up routes, refined to the list of routes.
  \<^item> \<open>Origin\<close> (\<^verbatim>\<open>proxy/proxy_linux.go\<close>, \<^verbatim>\<open>proxy_darwin.go\<close>, \<^verbatim>\<open>fallback.go\<close>): the original destination.
  \<^item> \<open>Daemon\<close>, \<open>Client\<close>, \<open>Server\<close> (\<^verbatim>\<open>proxy/client.go\<close>, \<^verbatim>\<open>proxy/server.go\<close>): the daemons. Sessions live in
    a list of objects that tables point into, so a session outlives its table entry as in
    the code. Every daemon action on a session is shown to be a run of the session machine,
    which transfers the session's theorems to the daemons.
  \<^item> \<open>Monitor\<close> (\<^verbatim>\<open>proxy/redis_server.go\<close>, \<^verbatim>\<open>proxy/http_server.go\<close>): the command and request handlers.
  \<^item> \<open>Shutdown\<close>, \<open>Run\<close> (\<^verbatim>\<open>cmd/main.go\<close>): what stopping a daemon achieves, and the process around it:
    start-up, signals, reloading, deferred calls.

  \<^bold>\<open>Parameters.\<close> The Reed-Solomon library is a record of functions; \<open>rs_code\<close> and \<open>rs_family\<close> state
  what its documentation promises (systematic, any \<open>k\<close> shards reconstruct, parity shards do not
  depend on how many are requested), and a single-parity code shows that the laws can hold. The
  YAML decoder, the results of system calls, name resolution and the formatting of times are
  arguments. Loops over Go maps take the visiting order as an argument.

  \<^bold>\<open>Bounds.\<close> The end-to-end statements assume \<open>k + m \<le> 32\<close>, the size of the index field on the
  wire, which the program does not enforce, and datagrams less than 32768 blocks old, half
  the range of group numbers. The client's search for a stream ID is a partial function and
  shown to return. No model uses fuel.

  \<^bold>\<open>Not modelled.\<close> Log output; flag parsing; the JSON encoder, HTTP routing and TLS (library
  code); the RESP server loop (third-party code); the version constant; the tests under
  \<^verbatim>\<open>e2e\<close>. A daemon's lookup of a session and the handling of the packet are one step, although
  the code releases the table's lock in between. Socket writes are recorded and their errors,
  which the code ignores, are not. Real time is not modelled beyond the clock values the code
  reads: a timer may fire at any moment after it was set.
\<close>

end
